(* ===== verification/Saa_Prelude.thy ===== *)
theory Saa_Prelude
  imports Main "HOL-Library.Word"
begin

unbundle bit_operations_syntax

text \<open>
  Shared vocabulary of the development.

  \<^item> Machine integers: \<open>usize\<close> and \<open>u64\<close> are 64-bit words (the crate is modelled for a 64-bit
    target), \<open>u16\<close> and \<open>u8\<close> are 16- and 8-bit words.
  \<^item> Rust's \<open>Result\<close> as the datatype \<open>result\<close>.
  \<^item> The three fields packed into the state word of every synchronization primitive
    (\<open>LOCKED_FLAG\<close>, \<open>DATA_MASK\<close>, \<open>ADDR_MASK\<close> of \<open>src/wait_queue.rs\<close>) and the arithmetic that
    relates masking to \<open>div\<close> and \<open>mod\<close>.
\<close>

section \<open>Machine integers and results\<close>

type_synonym usize = "64 word"
type_synonym u64 = "64 word"
type_synonym u16 = "16 word"
type_synonym u8 = "8 word"

datatype ('a, 'e) result = Ok 'a | Err 'e

text \<open>Rule collections: facts about the packed state word, about one atomic access, and about the
  representation of the wait queue in memory.\<close>

named_theorems kept "operations keep the memory"
named_theorems word_state "the packed state word"
named_theorems atomics "one atomic access"
named_theorems queue_simps "the linked representation of the wait queue"

section \<open>The packed state word\<close>

definition VIRTUAL_ALIGNMENT :: usize where
  "VIRTUAL_ALIGNMENT = 128"

definition LOCKED_FLAG :: usize where
  "LOCKED_FLAG = drop_bit 1 VIRTUAL_ALIGNMENT"

definition DATA_MASK :: usize where
  "DATA_MASK = LOCKED_FLAG - 1"

definition ADDR_MASK :: usize where
  "ADDR_MASK = NOT (LOCKED_FLAG OR DATA_MASK)"

lemma VIRTUAL_ALIGNMENT_eq: "VIRTUAL_ALIGNMENT = 128"
  by (simp add: VIRTUAL_ALIGNMENT_def)

lemma LOCKED_FLAG_eq: "LOCKED_FLAG = 64"
  by (simp add: LOCKED_FLAG_def VIRTUAL_ALIGNMENT_def)

lemma DATA_MASK_eq: "DATA_MASK = 63"
  by (simp add: DATA_MASK_def LOCKED_FLAG_eq)

lemma DATA_MASK_mask: "DATA_MASK = mask 6"
  by (simp add: DATA_MASK_eq mask_eq_exp_minus_1)

lemma ADDR_MASK_eq: "ADDR_MASK = NOT (mask 7)"
  by (simp add: ADDR_MASK_def LOCKED_FLAG_eq DATA_MASK_eq mask_eq_exp_minus_1)

lemmas mask_values = VIRTUAL_ALIGNMENT_eq LOCKED_FLAG_eq DATA_MASK_eq

text \<open>The three views of a state word.  \<open>data_of\<close> and \<open>addr_of\<close> are the masked expressions of the
  source, \<open>locked\<close> is its test \<open>state & LOCKED_FLAG == LOCKED_FLAG\<close>.\<close>

definition data_of :: "usize \<Rightarrow> usize" where
  "data_of state = state AND DATA_MASK"

definition addr_of :: "usize \<Rightarrow> usize" where
  "addr_of state = state AND ADDR_MASK"

definition locked :: "usize \<Rightarrow> bool" where
  "locked state \<longleftrightarrow> state AND LOCKED_FLAG = LOCKED_FLAG"

lemma usize_eq_iff: "(v :: usize) = w \<longleftrightarrow> (\<forall>n. bit v n \<longleftrightarrow> bit w n)"
  by (auto intro: bit_eqI)

lemma bit_masks:
  "bit LOCKED_FLAG n \<longleftrightarrow> n = 6"
  "bit DATA_MASK n \<longleftrightarrow> n < 6"
  "bit ADDR_MASK n \<longleftrightarrow> n < 64 \<and> 7 \<le> n"
proof -
  have L: "LOCKED_FLAG = push_bit 6 1"
    by (simp add: LOCKED_FLAG_eq)
  show "bit LOCKED_FLAG n \<longleftrightarrow> n = 6"
    unfolding L bit_push_bit_iff bit_1_iff by auto
  show "bit DATA_MASK n \<longleftrightarrow> n < 6"
    unfolding DATA_MASK_mask bit_mask_iff by auto
  show "bit ADDR_MASK n \<longleftrightarrow> n < 64 \<and> 7 \<le> n"
    unfolding ADDR_MASK_eq bit_not_iff bit_mask_iff by auto
qed

lemma bit_views:
  "bit (data_of w) n \<longleftrightarrow> bit w n \<and> n < 6"
  "bit (addr_of w) n \<longleftrightarrow> bit w n \<and> 7 \<le> n"
  using bit_imp_le_length [of w n]
  by (auto simp only: data_of_def addr_of_def bit_and_iff bit_masks) simp

lemma locked_iff_bit: "locked w \<longleftrightarrow> bit w 6"
  unfolding locked_def usize_eq_iff bit_and_iff bit_masks by auto

lemma unat_data_of: "unat (data_of w) = unat w mod 64"
proof -
  have "data_of w = w mod 64"
    by (simp add: data_of_def DATA_MASK_mask take_bit_eq_mod flip: take_bit_eq_mask)
  then show ?thesis
    by (simp add: unat_mod_distrib)
qed

lemma unat_addr_of: "unat (addr_of w) = unat w div 128 * 128"
proof -
  have "unat (addr_of w) = push_bit 7 (drop_bit 7 (unat w))"
    by (rule bit_eqI) (auto simp only: bit_unsigned_iff bit_views bit_push_bit_iff_nat bit_drop_bit_eq
        possible_bit_def comp_def le_add_diff_inverse)
  then show ?thesis
    by (simp add: push_bit_eq_mult drop_bit_eq_div)
qed

lemma locked_iff: "locked w \<longleftrightarrow> unat w div 64 mod 2 = 1"
proof -
  have "bit w 6 = bit (unat w) 6"
    by (simp add: bit_unsigned_iff)
  then show ?thesis
    by (simp add: locked_iff_bit bit_iff_odd odd_iff_mod_2_eq_one)
qed

lemmas unat_views = unat_data_of unat_addr_of locked_iff

lemma state_eqI:
  assumes "addr_of v = addr_of w" and "locked v = locked w" and "data_of v = data_of w"
  shows "v = w"
proof (rule bit_word_eqI)
  fix n :: nat
  consider "n < 6" | "n = 6" | "7 \<le> n" by linarith
  then show "bit v n \<longleftrightarrow> bit w n"
    using assms bit_views [of v n] bit_views [of w n] locked_iff_bit by cases (metis)+
qed

lemma data_of_le [word_state]: "data_of w \<le> DATA_MASK"
  by (simp add: data_of_def word_and_le1)

lemma unat_data_of_le: "unat (data_of w) \<le> 63"
  by (simp add: unat_data_of)

lemma word_le_63: "d \<le> (63 :: usize) \<longleftrightarrow> unat d \<le> 63"
  by (simp add: word_le_nat_alt)

text \<open>A word no larger than \<open>DATA_MASK\<close> is pure data.\<close>

lemma small_views [word_state]:
  assumes "d \<le> DATA_MASK"
  shows "addr_of d = 0" and "\<not> locked d" and "data_of d = d"
proof -
  have "unat d \<le> 63"
    using assms by (simp add: DATA_MASK_eq word_le_63)
  then show "addr_of d = 0" and "\<not> locked d" and "data_of d = d"
    by (simp_all add: unat_views word_unat_eq_iff)
qed

lemma zero_views [simp]: "addr_of 0 = 0" "\<not> locked 0" "data_of 0 = 0"
  by (simp_all add: small_views)

text \<open>Setting the lock bit, replacing the address, replacing the data.\<close>

lemma or_locked_views [word_state]:
  "addr_of (w OR LOCKED_FLAG) = addr_of w"
  "locked (w OR LOCKED_FLAG)"
  "data_of (w OR LOCKED_FLAG) = data_of w"
  by (auto simp only: usize_eq_iff bit_views locked_iff_bit bit_or_iff bit_masks)

lemma addr_of_idem [word_state]: "addr_of (addr_of w) = addr_of w"
  by (auto simp only: usize_eq_iff bit_views)

lemma aligned_bits: "addr_of a = a \<Longrightarrow> bit a n \<Longrightarrow> 7 \<le> n"
  using bit_views(2) [of a n] by simp

lemma small_bits: "d \<le> DATA_MASK \<Longrightarrow> bit d n \<Longrightarrow> n < 6"
  using bit_views(1) [of d n] small_views(3) [of d] by simp

lemma bit_not_ADDR_MASK: "bit (NOT ADDR_MASK) n \<longleftrightarrow> n < 7"
  unfolding bit_not_iff bit_masks by auto

lemma replace_addr_views [word_state]:
  assumes "addr_of a = a"
  shows "addr_of ((w AND NOT ADDR_MASK) OR a) = a"
    and "locked ((w AND NOT ADDR_MASK) OR a) = locked w"
    and "data_of ((w AND NOT ADDR_MASK) OR a) = data_of w"
  unfolding usize_eq_iff bit_views locked_iff_bit bit_or_iff bit_and_iff bit_not_ADDR_MASK
  using aligned_bits [OF assms] by fastforce+

lemma replace_data_views [word_state]:
  assumes "d \<le> DATA_MASK"
  shows "addr_of ((w AND ADDR_MASK) OR d) = addr_of w"
    and "\<not> locked ((w AND ADDR_MASK) OR d)"
    and "data_of ((w AND ADDR_MASK) OR d) = d"
  unfolding usize_eq_iff bit_views locked_iff_bit bit_or_iff bit_and_iff bit_masks
  using small_bits [OF assms] bit_imp_le_length [of w] by fastforce+

text \<open>Adding to and subtracting from the data field does not carry into the other fields.\<close>

lemma div_mod_64:
  assumes "r \<le> (63 :: nat)"
  shows "(q * 64 + r) div 64 = q" and "(q * 64 + r) mod 64 = r" and "(q * 64 + r) div 128 = q div 2"
proof -
  show 1: "(q * 64 + r) div 64 = q" and "(q * 64 + r) mod 64 = r"
    using assms by simp_all
  show "(q * 64 + r) div 128 = q div 2"
    using 1 div_mult2_eq [of "q * 64 + r" 64 2] by simp
qed

lemma add_no_carry:
  assumes "a mod 64 + n \<le> (63 :: nat)"
  shows "(a + n) div 64 = a div 64" and "(a + n) mod 64 = a mod 64 + n"
    and "(a + n) div 128 = a div 128"
proof -
  define q r where "q = a div 64" and "r = a mod 64"
  have a: "a = q * 64 + r" and r: "r + n \<le> 63" "r \<le> 63"
    using assms by (simp_all add: q_def r_def)
  have "a + n = q * 64 + (r + n)"
    by (simp add: a)
  then show "(a + n) div 64 = a div 64" "(a + n) mod 64 = a mod 64 + n" "(a + n) div 128 = a div 128"
    by (simp_all only: a div_mod_64 r)
qed

lemma sub_no_borrow:
  assumes "n \<le> a mod (64 :: nat)"
  shows "(a - n) div 64 = a div 64" and "(a - n) mod 64 = a mod 64 - n"
    and "(a - n) div 128 = a div 128"
proof -
  define q r where "q = a div 64" and "r = a mod 64"
  have a: "a = q * 64 + r" and "n \<le> r" and r: "r - n \<le> 63" "r \<le> 63"
    using assms by (simp_all add: q_def r_def le_diff_conv trans_le_add1)
  then have "a - n = q * 64 + (r - n)"
    by simp
  then show "(a - n) div 64 = a div 64" "(a - n) mod 64 = a mod 64 - n" "(a - n) div 128 = a div 128"
    by (simp_all only: a div_mod_64 r)
qed

lemma add_data_views [word_state]:
  assumes "unat (data_of w) + unat n \<le> 63"
  shows "addr_of (w + n) = addr_of w"
    and "locked (w + n) = locked w"
    and "data_of (w + n) = data_of w + n"
proof -
  have m: "unat w mod 64 + unat n \<le> 63"
    using assms by (simp add: unat_data_of)
  have "unat w < 2 ^ LENGTH(64)"
    by (rule unsigned_less)
  then have "unat w div 64 < 288230376151711744"
    by (simp add: less_mult_imp_div_less)
  moreover have "q < 288230376151711744 \<Longrightarrow> x \<le> 63 \<Longrightarrow> q * 64 + x < 2 ^ 64" for q x :: nat
    by simp
  ultimately have "unat w div 64 * 64 + (unat w mod 64 + unat n) < 2 ^ 64"
    using m by blast
  then have "unat w + unat n < 2 ^ 64"
    by (simp only: add.assoc [symmetric] div_mult_mod_eq)
  then have s: "unat (w + n) = unat w + unat n"
    by (intro unat_add_lem [THEN iffD1]) simp
  show "addr_of (w + n) = addr_of w"
    by (simp add: word_unat_eq_iff unat_addr_of s add_no_carry [OF m])
  show "locked (w + n) = locked w"
    by (simp add: locked_iff s add_no_carry [OF m])
  have "unat (data_of w + n) = unat (data_of w) + unat n"
    using assms by (intro unat_add_lem [THEN iffD1]) simp
  then show "data_of (w + n) = data_of w + n"
    by (simp add: word_unat_eq_iff unat_data_of s add_no_carry [OF m])
qed

lemma sub_data_views [word_state]:
  assumes "n \<le> data_of w"
  shows "addr_of (w - n) = addr_of w"
    and "locked (w - n) = locked w"
    and "data_of (w - n) = data_of w - n"
proof -
  have m: "unat n \<le> unat w mod 64"
    using assms by (simp add: word_le_nat_alt unat_data_of)
  then have "n \<le> w"
    unfolding word_le_nat_alt by (meson le_trans mod_less_eq_dividend)
  then have s: "unat (w - n) = unat w - unat n"
    by (simp add: unat_sub)
  show "addr_of (w - n) = addr_of w"
    by (simp add: word_unat_eq_iff unat_addr_of s sub_no_borrow [OF m])
  show "locked (w - n) = locked w"
    by (simp add: locked_iff s sub_no_borrow [OF m])
  have "unat (data_of w - n) = unat (data_of w) - unat n"
    using assms by (simp add: unat_sub)
  then show "data_of (w - n) = data_of w - n"
    by (simp add: word_unat_eq_iff unat_data_of s sub_no_borrow [OF m])
qed

end
