(* ===== verification/Opcode.thy ===== *)
theory Opcode
  imports Saa_Prelude
begin

text \<open>
  \<open>src/opcode.rs\<close>: the operation types stored in wait queue entries, what they ask for
  (\<open>desired_count\<close>), what they hold once granted (\<open>acquired_count\<close>) and when that can be given
  back to a state word (\<open>can_release\<close>).  The facts below show that \<open>can_release\<close> is exactly the
  guard that keeps \<open>state - acquired_count\<close> inside the data field of the state word, and state the
  grant rule of the wait queue (\<open>can_grant\<close>, \<open>granted\<close>) that the queue processing refines.
\<close>

section \<open>Operation types\<close>

datatype Opcode =
    Exclusive
  | Shared
  | Barrier bool
  | Semaphore u8
  | Wait u8

fun can_release :: "Opcode \<Rightarrow> usize \<Rightarrow> bool" where
  "can_release Exclusive state = (let data = state AND DATA_MASK in data = DATA_MASK)"
| "can_release Shared state = (let data = state AND DATA_MASK in 1 \<le> data \<and> data \<noteq> DATA_MASK)"
| "can_release (Semaphore count) state =
     (let data = state AND DATA_MASK; count = ucast count in count \<le> data)"
| "can_release (Barrier _) state = True"
| "can_release (Wait _) state = True"

fun desired_count :: "Opcode \<Rightarrow> usize" where
  "desired_count Exclusive = DATA_MASK"
| "desired_count Shared = 1"
| "desired_count (Barrier wait_only) = (if wait_only then 0 else 1)"
| "desired_count (Semaphore count) = ucast count"
| "desired_count (Wait count) = ucast count"

fun acquired_count :: "Opcode \<Rightarrow> usize" where
  "acquired_count Exclusive = DATA_MASK"
| "acquired_count Shared = 1"
| "acquired_count (Semaphore count) = ucast count"
| "acquired_count (Barrier _) = 0"
| "acquired_count (Wait _) = 0"

text \<open>The counts that the debug assertions of the source require: every operation of the crate
  passes at most \<open>DATA_MASK\<close> to \<open>Semaphore\<close> and \<open>Wait\<close>.\<close>

fun opcode_ok :: "Opcode \<Rightarrow> bool" where
  "opcode_ok (Semaphore count) = (unat count \<le> 63)"
| "opcode_ok (Wait count) = (unat count \<le> 63)"
| "opcode_ok _ = True"

section \<open>Bounds\<close>

lemma unat_ucast_u8 [simp]: "unat (ucast (c :: u8) :: usize) = unat c"
proof -
  have "unat c < 2 ^ LENGTH(8)"
    by (rule unsigned_less)
  then show ?thesis
    by (simp add: unsigned_ucast_eq take_bit_nat_eq_self)
qed

lemma acquired_le_desired: "acquired_count opc \<le> desired_count opc"
  by (cases opc) auto

lemma desired_le: "opcode_ok opc \<Longrightarrow> desired_count opc \<le> DATA_MASK"
  by (cases opc) (auto simp: DATA_MASK_eq word_le_63)

lemma acquired_le: "opcode_ok opc \<Longrightarrow> acquired_count opc \<le> DATA_MASK"
  using acquired_le_desired desired_le order_trans by blast

lemma can_release_imp_le: "can_release opc state \<Longrightarrow> acquired_count opc \<le> data_of state"
  by (cases opc) (auto simp: data_of_def Let_def)

text \<open>What \<open>can_release\<close> says of the data field.\<close>

lemma can_release_data: "can_release opc v = can_release opc w" if "data_of v = data_of w"
  using that by (cases opc) (simp_all add: data_of_def)

lemma release_views [word_state]:
  assumes "can_release opc state"
  shows "addr_of (state - acquired_count opc) = addr_of state"
    and "locked (state - acquired_count opc) = locked state"
    and "data_of (state - acquired_count opc) = data_of state - acquired_count opc"
  using sub_data_views [OF can_release_imp_le [OF assms]] by simp_all

section \<open>The grant rule\<close>

text \<open>
  The rule that \<open>process_wait_queue\<close> applies to the entry at the head of the queue, on natural
  numbers: \<open>held\<close> is the amount of the resource in use, \<open>most\<close> the limit of the primitive.  An entry
  is granted when nothing is held or when what it desires still fits, and then holds what it acquires.
\<close>

definition desired :: "Opcode \<Rightarrow> nat" where
  "desired opc = unat (desired_count opc)"

definition acquired :: "Opcode \<Rightarrow> nat" where
  "acquired opc = unat (acquired_count opc)"

definition can_grant :: "nat \<Rightarrow> nat \<Rightarrow> Opcode \<Rightarrow> bool" where
  "can_grant most held opc \<longleftrightarrow> held = 0 \<or> held + desired opc \<le> most"

fun granted :: "nat \<Rightarrow> nat \<Rightarrow> Opcode list \<Rightarrow> nat" where
  "granted most held [] = 0"
| "granted most held (opc # ops) =
     (if can_grant most held opc then Suc (granted most (held + acquired opc) ops) else 0)"

definition transferred :: "Opcode list \<Rightarrow> nat" where
  "transferred ops = sum_list (map acquired ops)"

lemma acquired_le_desired_nat: "acquired opc \<le> desired opc"
  using acquired_le_desired [of opc] by (simp add: acquired_def desired_def word_le_nat_alt)

lemma acquired_le_63: "opcode_ok opc \<Longrightarrow> acquired opc \<le> 63"
  using acquired_le [of opc] by (simp add: acquired_def word_le_nat_alt DATA_MASK_eq)

lemma desired_le_63: "opcode_ok opc \<Longrightarrow> desired opc \<le> 63"
  using desired_le [of opc] by (simp add: desired_def word_le_nat_alt DATA_MASK_eq)

lemma acquired_simps [simp]:
  "acquired Exclusive = 63" "acquired Shared = 1" "acquired (Wait c) = 0" "acquired (Barrier b) = 0"
  "acquired (Semaphore c) = unat c"
  by (simp_all add: acquired_def DATA_MASK_eq)

lemma desired_simps [simp]:
  "desired Exclusive = 63" "desired Shared = 1" "desired (Wait c) = unat c" "desired (Semaphore c) = unat c"
  by (simp_all add: desired_def DATA_MASK_eq)

lemma granted_le: "granted most held ops \<le> length ops"
  by (induction ops arbitrary: held) auto

lemma transferred_simps [simp]:
  "transferred [] = 0" "transferred (opc # ops) = acquired opc + transferred ops"
  "transferred (xs @ ys) = transferred xs + transferred ys"
  by (simp_all add: transferred_def)

text \<open>The granted entries are the longest prefix in which every entry fits after those before it.\<close>

lemma granted_maximal:
  "granted most held ops < length ops \<Longrightarrow>
   \<not> can_grant most (held + transferred (take (granted most held ops) ops)) (ops ! granted most held ops)"
  by (induction ops arbitrary: held) (auto simp flip: add.assoc)

lemma granted_prefix:
  "i < granted most held ops \<Longrightarrow> can_grant most (held + transferred (take i ops)) (ops ! i)"
proof (induction ops arbitrary: held i)
  case (Cons opc ops)
  then show ?case
    by (cases i) (auto split: if_splits simp flip: add.assoc)
qed simp

text \<open>Granting never hands out more than the data field can hold.\<close>

lemma granted_bound:
  assumes "held \<le> 63" and "most \<le> 63" and "\<forall>opc \<in> set ops. opcode_ok opc"
  shows "held + transferred (take (granted most held ops) ops) \<le> 63"
  using assms
proof (induction ops arbitrary: held)
  case (Cons opc ops)
  show ?case
  proof (cases "can_grant most held opc")
    case True
    then have "held + acquired opc \<le> 63"
      using Cons.prems acquired_le_desired_nat [of opc] acquired_le_63 [of opc]
      by (auto simp: can_grant_def)
    from Cons.IH [OF this Cons.prems(2)] Cons.prems(3) True show ?thesis
      by (simp flip: add.assoc)
  qed (use Cons.prems in simp)
qed simp

end
