(* ===== verification/Shared_State.thy ===== *)
theory Shared_State
  imports Opcode
begin

text \<open>
  The memory that the threads of the crate share, and atomic access to it under interference.

  A \<open>world\<close> holds one synchronization primitive (its \<open>AtomicUsize\<close> state word, \<open>prim_state\<close>) and the
  wait queue memory of the tasks that use it: the 64-bit anchor words (\<open>anchors\<close>) and the wait queue
  entries (\<open>entries\<close>), both indexed by address, with 0 as the null pointer and absent addresses for
  memory that is not (or no longer) part of a live wait queue.  \<open>events\<close> records what the code does
  to the outside: waking a task, unparking a thread, running the caller's wait callback.

  Concurrency is explicit: a system state pairs the world with the list of the actions other threads
  will take.  Each atomic access of the code to the state word is preceded by the next such action, so
  a \<open>compare_exchange\<close> fails exactly when the word is not what the code last saw.  The list is finite:
  other threads take finitely many steps while the operation at hand runs.  With the empty list the
  operation runs alone.  Memory orderings are not modelled; every access is sequentially consistent.
\<close>

section \<open>The shared memory\<close>

type_synonym task = nat

datatype Monitor =
    Async "task option"
  | Sync "task option"

text \<open>The function pointer \<open>drop_callback\<close> is one of the four \<open>drop_wait_queue_entry\<close> functions.\<close>

datatype drop_fn = Lock_drop | Semaphore_drop | Barrier_drop | Gate_drop

record Entry =
  next_entry_anchor :: usize
  prev_entry :: usize
  opcode :: Opcode
  entry_state :: u16
  pollable :: bool
  monitor :: Monitor
  drop_callback :: drop_fn
  prim_addr :: usize
  offset :: u16

datatype event = Wake task | Unpark task | Begin_wait

record world =
  prim_state :: usize
  anchors :: "usize \<rightharpoonup> u64"
  entries :: "usize \<rightharpoonup> Entry"
  events :: "event list"

type_synonym env = "(world \<Rightarrow> world) list"
type_synonym sys = "world \<times> env"

text \<open>A primitive with the given state word and no wait queue in memory.\<close>

definition fresh_world :: "usize \<Rightarrow> world" where
  "fresh_world state =
     \<lparr>prim_state = state, anchors = Map.empty, entries = Map.empty, events = []\<rparr>"

text \<open>The closure \<open>begin_wait\<close> that callers pass to the waiting functions.\<close>

type_synonym callback = "sys \<Rightarrow> sys"

section \<open>Atomic access to the state word\<close>

text \<open>The next action of another thread, if there is one left.\<close>

fun interfere :: "sys \<Rightarrow> sys" where
  "interfere (w, []) = (w, [])"
| "interfere (w, e # es) = (e w, es)"

definition load :: "sys \<Rightarrow> usize \<times> sys" where
  "load s = (let (w, es) = interfere s in (prim_state w, (w, es)))"

definition compare_exchange :: "usize \<Rightarrow> usize \<Rightarrow> sys \<Rightarrow> (usize, usize) result \<times> sys" where
  "compare_exchange current new s =
     (let (w, es) = interfere s in
      if prim_state w = current then (Ok current, (w\<lparr>prim_state := new\<rparr>, es))
      else (Err (prim_state w), (w, es)))"

text \<open>\<open>fetch_update\<close> reads, computes and exchanges as one step: the value it returns is the one its
  closure was last called with.\<close>

definition fetch_update ::
  "(usize \<Rightarrow> usize option) \<Rightarrow> sys \<Rightarrow> (usize, usize) result \<times> sys" where
  "fetch_update f s =
     (let (w, es) = interfere s in
      case f (prim_state w) of
        None \<Rightarrow> (Err (prim_state w), (w, es))
      | Some new \<Rightarrow> (Ok (prim_state w), (w\<lparr>prim_state := new\<rparr>, es)))"

definition fetch_add :: "usize \<Rightarrow> sys \<Rightarrow> usize \<times> sys" where
  "fetch_add d s =
     (let (w, es) = interfere s in (prim_state w, (w\<lparr>prim_state := prim_state w + d\<rparr>, es)))"

definition swap :: "usize \<Rightarrow> sys \<Rightarrow> usize \<times> sys" where
  "swap new s = (let (w, es) = interfere s in (prim_state w, (w\<lparr>prim_state := new\<rparr>, es)))"

definition emit :: "event \<Rightarrow> sys \<Rightarrow> sys" where
  "emit ev s = (let (w, es) = s in (w\<lparr>events := events w @ [ev]\<rparr>, es))"

text \<open>Without interference the accesses are the plain ones.\<close>

lemma atomics_alone [atomics]:
  "load (w, []) = (prim_state w, (w, []))"
  "compare_exchange c n (w, []) =
     (if prim_state w = c then (Ok c, (w\<lparr>prim_state := n\<rparr>, [])) else (Err (prim_state w), (w, [])))"
  "fetch_update f (w, []) =
     (case f (prim_state w) of None \<Rightarrow> (Err (prim_state w), (w, []))
      | Some n \<Rightarrow> (Ok (prim_state w), (w\<lparr>prim_state := n\<rparr>, [])))"
  "fetch_add d (w, []) = (prim_state w, (w\<lparr>prim_state := prim_state w + d\<rparr>, []))"
  "swap n (w, []) = (prim_state w, (w\<lparr>prim_state := n\<rparr>, []))"
  "emit ev (w, es) = (w\<lparr>events := events w @ [ev]\<rparr>, es)"
  by (simp_all add: load_def compare_exchange_def fetch_update_def fetch_add_def swap_def emit_def)

lemma interfere_idle: "\<forall>e \<in> set es. e = id \<Longrightarrow> interfere (w, es) = (w, tl es)"
  by (cases es) auto

text \<open>One access uses up one action of the environment, if any.\<close>

lemma snd_interfere: "snd (interfere s) = tl (snd s)"
  by (cases s rule: interfere.cases) auto

lemma load_eq: "load s = (prim_state (fst (interfere s)), interfere s)"
  by (cases "interfere s") (simp add: load_def)

lemma compare_exchange_env: "compare_exchange c n s = (r, s') \<Longrightarrow> snd s' = tl (snd s)"
  by (auto simp: compare_exchange_def split: prod.splits if_splits dest!: arg_cong [of _ _ snd] simp: snd_interfere)

lemma compare_exchange_Ok:
  "compare_exchange c n s = (Ok v, s') \<longleftrightarrow>
   v = c \<and> prim_state (fst (interfere s)) = c \<and>
   s' = ((fst (interfere s))\<lparr>prim_state := n\<rparr>, snd (interfere s))"
  by (cases "interfere s") (auto simp: compare_exchange_def)

lemma compare_exchange_Err:
  "compare_exchange c n s = (Err v, s') \<longleftrightarrow>
   s' = interfere s \<and> v = prim_state (fst (interfere s)) \<and> v \<noteq> c"
  by (cases "interfere s") (auto simp: compare_exchange_def)

text \<open>A \<open>compare_exchange\<close> on the value the code has just seen can only fail if another thread acted.\<close>

lemma compare_exchange_Err_env:
  "compare_exchange (prim_state (fst s)) n s = (Err v, s') \<Longrightarrow> length (snd s') < length (snd s)"
  by (cases s rule: interfere.cases) (auto simp: compare_exchange_Err)

text \<open>The measure under which every retry loop of the crate terminates: the actions left to other
  threads, and whether the value in hand is stale.\<close>

definition retry_measure :: "usize \<Rightarrow> sys \<Rightarrow> nat" where
  "retry_measure state s = 2 * length (snd s) + (if prim_state (fst s) = state then 0 else 1)"

lemma compare_exchange_retry:
  "compare_exchange state n s = (Err v, s') \<Longrightarrow> retry_measure v s' < retry_measure state s"
  by (cases s rule: interfere.cases) (auto simp: compare_exchange_Err retry_measure_def)

section \<open>Linearization\<close>

text \<open>
  An operation that ran from \<open>s\<close> to \<open>out\<close> is atomic with effect \<open>step\<close> if there is a moment, after
  some number of actions of the other threads, at which its whole effect took place in one step.
\<close>

definition atomically :: "(world \<Rightarrow> 'r \<times> world) \<Rightarrow> sys \<Rightarrow> 'r \<times> sys \<Rightarrow> bool" where
  "atomically step s out \<longleftrightarrow>
     (\<exists>k w es. (interfere ^^ k) s = (w, es) \<and> out = (fst (step w), (snd (step w), es)))"

lemma atomically_now:
  "step (fst s) = (r, w') \<Longrightarrow> atomically step s (r, (w', snd s))"
  unfolding atomically_def by (rule exI [of _ 0]) (cases s; simp)

lemma atomically_later: "atomically step (interfere s) out \<Longrightarrow> atomically step s out"
  unfolding atomically_def by (metis funpow_Suc_right o_apply)

lemma atomically_alone: "atomically step (w, []) out \<longleftrightarrow> out = (fst (step w), (snd (step w), []))"
proof -
  have "(interfere ^^ k) (w, []) = (w, [])" for k
    by (induction k) auto
  then show ?thesis
    by (simp add: atomically_def)
qed

lemma atomically_map:
  "atomically step s (r, s') \<Longrightarrow> atomically (\<lambda>w. (f (fst (step w)), snd (step w))) s (f r, s')"
  unfolding atomically_def by fastforce

section \<open>Retry loops\<close>

text \<open>
  Most operations of the crate are loops that look at a value of the state word and then either
  return or try to exchange the word and retry with the value they found.  \<open>decide\<close> is the body of
  such a loop; the locale shows once that the loop is atomic: its effect is the effect of the body on
  the word at one moment.
\<close>

datatype 'r attempt = Stop 'r | Attempt usize 'r

definition settle :: "(usize \<Rightarrow> 'r attempt) \<Rightarrow> world \<Rightarrow> 'r \<times> world" where
  "settle decide w =
     (case decide (prim_state w) of Stop r \<Rightarrow> (r, w) | Attempt new r \<Rightarrow> (r, w\<lparr>prim_state := new\<rparr>))"

locale cas_loop =
  fixes loop :: "usize \<Rightarrow> sys \<Rightarrow> 'r \<times> sys"
    and decide :: "usize \<Rightarrow> 'r attempt"
  assumes loop_step: "loop state s =
    (case decide state of
       Stop r \<Rightarrow> (r, s)
     | Attempt new r \<Rightarrow>
         (case compare_exchange state new s of
            (Ok _, s') \<Rightarrow> (r, s')
          | (Err found, s') \<Rightarrow> loop found s'))"
begin

lemma loop_atomic:
  "state = prim_state (fst s) \<Longrightarrow> atomically (settle decide) s (loop state s)"
proof (induction "length (snd s)" arbitrary: s state rule: less_induct)
  case less
  show ?case
  proof (cases "decide state")
    case (Stop r)
    with less.prems show ?thesis
      using atomically_now [of "settle decide" s] by (subst loop_step) (simp add: settle_def)
  next
    case (Attempt new r)
    obtain res s' where ce: "compare_exchange state new s = (res, s')"
      by (metis surj_pair)
    show ?thesis
    proof (cases res)
      case (Ok v)
      with ce have "settle decide (fst (interfere s)) = (r, fst s')" and "snd s' = snd (interfere s)"
        by (auto simp: compare_exchange_Ok settle_def Attempt)
      then have "atomically (settle decide) s (r, s')"
        using atomically_later [OF atomically_now] by (metis prod.collapse)
      with ce Ok Attempt show ?thesis
        by (subst loop_step) simp
    next
      case (Err found)
      with ce have s': "s' = interfere s" "found = prim_state (fst s')"
        by (auto simp: compare_exchange_Err)
      have "length (snd s') < length (snd s)"
        using ce Err less.prems by (auto dest: compare_exchange_Err_env)
      from less.hyps [OF this s'(2)] have "atomically (settle decide) s (loop found s')"
        by (simp add: s'(1) atomically_later)
      with ce Err Attempt show ?thesis
        by (subst loop_step) simp
    qed
  qed
qed

text \<open>Started on a value just loaded, the loop is atomic over the interval that includes the load.\<close>

lemma load_loop_atomic:
  "load s = (state, s') \<Longrightarrow> atomically (settle decide) s (loop state s')"
  by (rule atomically_later) (auto simp: load_eq intro!: loop_atomic)

lemma loop_alone: "loop (prim_state w) (w, []) = (fst (settle decide w), (snd (settle decide w), []))"
  using loop_atomic [of "prim_state w" "(w, [])"] by (simp add: atomically_alone)

end

end
