(* ===== verification/Wait_Queue.thy ===== *)
theory Wait_Queue
  imports Shared_State "HOL-Library.Monad_Syntax"
begin

text \<open>
  \<open>src/wait_queue.rs\<close>: the address layout of a wait queue and the operations on its entry.

  A \<open>WaitQueue\<close> is 128 bytes at an 8-byte aligned address \<open>q\<close>.  The 128-byte aligned address inside
  it is its anchor, a 64-bit word that is 0 until an entry is constructed and then holds the complement
  of the anchor's offset; the entry occupies the half of the area that the anchor is not in.  The state
  word of a primitive holds the anchor address of the most recently pushed entry, whose
  \<open>next_entry_anchor\<close> leads to the one pushed before it.

  Functions that dereference pointers or loop until another thread acts return an \<open>option\<close>: \<open>None\<close>
  means that the call does not return, because it waits for something that does not happen or because
  it would access memory that holds no entry.
\<close>

section \<open>Address layout\<close>

text \<open>\<open>WaitQueue::anchor_ptr\<close>: the anchor address and its offset from the start address.\<close>

definition anchor_ptr :: "usize \<Rightarrow> usize \<times> usize" where
  "anchor_ptr start_addr =
     (let anchor_addr =
        (if start_addr mod VIRTUAL_ALIGNMENT = 0 then start_addr
         else start_addr + VIRTUAL_ALIGNMENT - start_addr mod VIRTUAL_ALIGNMENT)
      in (anchor_addr, anchor_addr - start_addr))"

text \<open>The closure of \<open>WaitQueue::to_entry_ptr\<close>: the entry address computed from the anchor address
  and the non-zero anchor word.\<close>

definition anchor_to_entry_addr :: "usize \<Rightarrow> u64 \<Rightarrow> usize" where
  "anchor_to_entry_addr addr anchor_val =
     (let offset = - 1 - anchor_val; start_addr = addr - offset in
      if offset < VIRTUAL_ALIGNMENT div 2 then start_addr + VIRTUAL_ALIGNMENT div 2 else start_addr)"

definition to_entry_ptr :: "usize \<Rightarrow> sys \<Rightarrow> usize option" where
  "to_entry_ptr anchor s =
     do { anchor_val \<leftarrow> anchors (fst s) anchor;
          Some (if anchor_val = 0 then 0 else anchor_to_entry_addr anchor anchor_val) }"

definition to_anchor_ptr :: "usize \<Rightarrow> usize" where
  "to_anchor_ptr state = (let anchor_addr = state AND ADDR_MASK in if anchor_addr = 0 then 0 else anchor_addr)"

text \<open>The entry pointer of a wait queue at a given address, and back.\<close>

definition anchor_addr :: "usize \<Rightarrow> usize" where
  "anchor_addr q = fst (anchor_ptr q)"

definition entry_addr :: "usize \<Rightarrow> usize" where
  "entry_addr q = (let (a, off) = anchor_ptr q in anchor_to_entry_addr a (- 1 - off))"

definition entry_offset :: "usize \<Rightarrow> u16" where
  "entry_offset q = ucast (entry_addr q - q)"

section \<open>Entries\<close>

definition read_entry :: "usize \<Rightarrow> sys \<Rightarrow> Entry option" where
  "read_entry p s = entries (fst s) p"

definition write_entry :: "usize \<Rightarrow> Entry \<Rightarrow> sys \<Rightarrow> sys" where
  "write_entry p e s = (let (w, es) = s in (w\<lparr>entries := (entries w)(p \<mapsto> e)\<rparr>, es))"

definition update_entry :: "usize \<Rightarrow> (Entry \<Rightarrow> Entry) \<Rightarrow> sys \<Rightarrow> sys option" where
  "update_entry p f s = do { e \<leftarrow> read_entry p s; Some (write_entry p (f e) s) }"

text \<open>\<open>WaitQueue::default()\<close> at address \<open>q\<close>: the raw data is zero.\<close>

definition wait_queue_default :: "usize \<Rightarrow> sys \<Rightarrow> sys" where
  "wait_queue_default q s = (let (w, es) = s in (w\<lparr>anchors := (anchors w)(anchor_addr q \<mapsto> 0)\<rparr>, es))"

text \<open>The end of the life of the memory of a wait queue.\<close>

definition wait_queue_free :: "usize \<Rightarrow> sys \<Rightarrow> sys" where
  "wait_queue_free q s =
     (let (w, es) = s in
      (w\<lparr>anchors := (anchors w)(anchor_addr q := None),
         entries := (entries w)(entry_addr q := None)\<rparr>, es))"

definition construct :: "usize \<Rightarrow> usize \<Rightarrow> drop_fn \<Rightarrow> Opcode \<Rightarrow> bool \<Rightarrow> sys \<Rightarrow> sys option" where
  "construct q prim drop_wait_queue_entry opc is_sync s =
     (let (anchor, off) = anchor_ptr q in
      do { anchor_val \<leftarrow> anchors (fst s) anchor;
           let had_entry = anchor_val \<noteq> 0;
           let s = (if had_entry then s
                    else (let (w, es) = s in (w\<lparr>anchors := (anchors w)(anchor \<mapsto> - 1 - off)\<rparr>, es)));
           entry_ptr \<leftarrow> to_entry_ptr anchor s;
           let mon = (if is_sync then Sync None else Async None);
           if had_entry then
             update_entry entry_ptr
               (\<lambda>e. e\<lparr>prev_entry := 0, opcode := opc, monitor := mon, prim_addr := prim\<rparr>) s
           else
             Some (write_entry entry_ptr
               \<lparr>next_entry_anchor = 0, prev_entry = 0, opcode = opc, entry_state = 0, pollable = False,
                monitor = mon, drop_callback = drop_wait_queue_entry, prim_addr = prim,
                offset = ucast (entry_ptr - q)\<rparr> s) })"

definition is_pollable :: "usize \<Rightarrow> sys \<Rightarrow> bool option" where
  "is_pollable q s =
     do { entry_ptr \<leftarrow> to_entry_ptr (anchor_addr q) s;
          if entry_ptr = 0 then Some False
          else do { e \<leftarrow> read_entry entry_ptr s; Some (pollable e) } }"

text \<open>\<open>WaitQueue::entry\<close>: the entry of a wait queue; dereferencing the null pointer has no result.\<close>

definition entry :: "usize \<Rightarrow> sys \<Rightarrow> usize option" where
  "entry q s =
     do { p \<leftarrow> to_entry_ptr (anchor_addr q) s; if p = 0 then None else Some p }"

definition to_wait_queue_ptr :: "usize \<Rightarrow> sys \<Rightarrow> usize option" where
  "to_wait_queue_ptr p s = do { e \<leftarrow> read_entry p s; Some (p - ucast (offset e)) }"

definition next_entry_anchor_ptr :: "usize \<Rightarrow> sys \<Rightarrow> usize option" where
  "next_entry_anchor_ptr p s = do { e \<leftarrow> read_entry p s; Some (next_entry_anchor e) }"

definition next_entry_ptr :: "usize \<Rightarrow> sys \<Rightarrow> usize option" where
  "next_entry_ptr p s =
     do { e \<leftarrow> read_entry p s;
          if next_entry_anchor e = 0 then Some 0 else to_entry_ptr (next_entry_anchor e) s }"

definition prev_entry_ptr :: "usize \<Rightarrow> sys \<Rightarrow> usize option" where
  "prev_entry_ptr p s = do { e \<leftarrow> read_entry p s; Some (prev_entry e) }"

definition update_next_entry_anchor_ptr :: "usize \<Rightarrow> usize \<Rightarrow> sys \<Rightarrow> sys option" where
  "update_next_entry_anchor_ptr p a s = update_entry p (\<lambda>e. e\<lparr>next_entry_anchor := a\<rparr>) s"

definition update_prev_entry_ptr :: "usize \<Rightarrow> usize \<Rightarrow> sys \<Rightarrow> sys option" where
  "update_prev_entry_ptr p prev s = update_entry p (\<lambda>e. e\<lparr>prev_entry := prev\<rparr>) s"

definition opcode_of :: "usize \<Rightarrow> sys \<Rightarrow> Opcode option" where
  "opcode_of p s = do { e \<leftarrow> read_entry p s; Some (opcode e) }"

section \<open>Walking the list\<close>

partial_function (option) set_prev_ptr :: "usize \<Rightarrow> sys \<Rightarrow> sys option" where
  "set_prev_ptr entry_ptr s =
     (if entry_ptr = 0 then Some s
      else do {
        next_ptr \<leftarrow> next_entry_ptr entry_ptr s;
        if next_ptr = 0 then set_prev_ptr next_ptr s
        else do {
          prev \<leftarrow> prev_entry_ptr next_ptr s;
          if prev = 0 then do {
            s \<leftarrow> update_prev_entry_ptr next_ptr entry_ptr s;
            set_prev_ptr next_ptr s }
          else Some s } })"

declare set_prev_ptr.simps [code]

text \<open>The closures of the iterations get the entry, its neighbour (0 for none) and the variables they
  capture, and say whether to stop.\<close>

type_synonym 'a visitor = "usize \<Rightarrow> usize \<Rightarrow> 'a \<Rightarrow> sys \<Rightarrow> (bool \<times> 'a \<times> sys) option"

partial_function (option) iter_forward ::
  "bool \<Rightarrow> 'a visitor \<Rightarrow> usize \<Rightarrow> 'a \<Rightarrow> sys \<Rightarrow> ('a \<times> sys) option" where
  "iter_forward set_prev f entry_ptr a s =
     (if entry_ptr = 0 then Some (a, s)
      else do {
        next_ptr \<leftarrow> next_entry_ptr entry_ptr s;
        s \<leftarrow> (if set_prev \<and> next_ptr \<noteq> 0 then update_prev_entry_ptr next_ptr entry_ptr s else Some s);
        (stop, a, s) \<leftarrow> f entry_ptr next_ptr a s;
        if stop then Some (a, s) else iter_forward set_prev f next_ptr a s })"

declare iter_forward.simps [code]

partial_function (option) iter_backward ::
  "'a visitor \<Rightarrow> usize \<Rightarrow> 'a \<Rightarrow> sys \<Rightarrow> ('a \<times> sys) option" where
  "iter_backward f entry_ptr a s =
     (if entry_ptr = 0 then Some (a, s)
      else do {
        prev_ptr \<leftarrow> prev_entry_ptr entry_ptr s;
        (stop, a, s) \<leftarrow> f entry_ptr prev_ptr a s;
        if stop then Some (a, s) else iter_backward f prev_ptr a s })"

declare iter_backward.simps [code]

section \<open>Results\<close>

definition ERROR_WRONG_MODE :: u8 where
  "ERROR_WRONG_MODE = - 1"

definition RESULT_SET :: u16 where
  "RESULT_SET = push_bit 8 1"

definition WAKER_SET :: u16 where
  "WAKER_SET = push_bit (8 + 1) 1"

definition RESULT_FINALIZED :: u16 where
  "RESULT_FINALIZED = push_bit (8 + 2) 1"

text \<open>
  \<open>Entry::set_result\<close>.  The steps of the thread that sets a result and of the task that polls for it
  interleave; that protocol is studied by itself in \<open>Entry_Protocol\<close>.  Here the setter runs without
  interference on the entry, so that its exchange of the entry's state succeeds at once.
\<close>

definition take_task :: "Monitor \<Rightarrow> event option \<times> Monitor" where
  "take_task mon =
     (case mon of
        Async (Some waker) \<Rightarrow> (Some (Wake waker), Async None)
      | Sync (Some thread) \<Rightarrow> (Some (Unpark thread), Sync None)
      | _ \<Rightarrow> (None, mon))"

definition set_result :: "usize \<Rightarrow> u8 \<Rightarrow> sys \<Rightarrow> sys option" where
  "set_result p result s =
     do { s \<leftarrow> update_entry p (\<lambda>e. e\<lparr>pollable := True\<rparr>) s;
          e \<leftarrow> read_entry p s;
          let state = (entry_state e OR RESULT_SET) OR ucast result;
          let s = write_entry p (e\<lparr>entry_state := state\<rparr>) s;
          case (if state AND WAKER_SET = WAKER_SET then take_task (monitor e) else (None, monitor e)) of
            (Some ev, mon) \<Rightarrow>
              do { s \<leftarrow> update_entry p
                     (\<lambda>e. e\<lparr>monitor := mon, entry_state := entry_state e OR RESULT_FINALIZED\<rparr>) s;
                   Some (emit ev s) }
          | (None, _) \<Rightarrow> update_entry p (\<lambda>e. e\<lparr>entry_state := entry_state e OR RESULT_FINALIZED\<rparr>) s }"

definition set_pollable :: "usize \<Rightarrow> sys \<Rightarrow> sys option" where
  "set_pollable p s = update_entry p (\<lambda>e. e\<lparr>pollable := True\<rparr>) s"

text \<open>Loads of the entry's state by the task that waits are preceded by an action of another thread.\<close>

definition load_entry_state :: "usize \<Rightarrow> sys \<Rightarrow> (u16 \<times> sys) option" where
  "load_entry_state p s = (let s = interfere s in do { e \<leftarrow> read_entry p s; Some (entry_state e, s) })"

definition result_finalized :: "usize \<Rightarrow> sys \<Rightarrow> (bool \<times> sys) option" where
  "result_finalized p s =
     do { (state, s) \<leftarrow> load_entry_state p s; Some (state AND RESULT_FINALIZED = RESULT_FINALIZED, s) }"

definition try_consume_result :: "usize \<Rightarrow> sys \<Rightarrow> (u8 option \<times> sys) option" where
  "try_consume_result p s =
     do { (state, s) \<leftarrow> load_entry_state p s;
          if state AND RESULT_FINALIZED = RESULT_FINALIZED then
            do { s \<leftarrow> update_entry p (\<lambda>e. e\<lparr>entry_state := 0, pollable := False\<rparr>) s;
                 Some (Some (ucast (state AND (push_bit 8 1 - 1))), s) }
          else Some (None, s) }"

partial_function (option) acknowledge_result_sync :: "usize \<Rightarrow> sys \<Rightarrow> (u8 \<times> sys) option" where
  "acknowledge_result_sync p s =
     do { (res, s) \<leftarrow> try_consume_result p s;
          case res of Some result \<Rightarrow> Some (result, s) | None \<Rightarrow> acknowledge_result_sync p s }"

declare acknowledge_result_sync.simps [code]

text \<open>
  The part that \<open>poll_result_sync\<close> and \<open>poll_result_async\<close> share: an attempt to consume the result,
  then, if there is none, an attempt to install the polling task as the one to be notified.  The value
  says what the caller does next: return the result, be called again at once (\<open>yield_now\<close>,
  \<open>wake_by_ref\<close>), or sleep until notified (\<open>park\<close>, return \<open>Pending\<close>).
\<close>

datatype poll_outcome = Consumed u8 | Again | Sleep

definition install_task :: "task \<Rightarrow> Monitor \<Rightarrow> Monitor" where
  "install_task t mon = (case mon of Async _ \<Rightarrow> Async (Some t) | Sync _ \<Rightarrow> Sync (Some t))"

definition install_and_flag :: "task \<Rightarrow> usize \<Rightarrow> sys \<Rightarrow> (poll_outcome \<times> sys) option" where
  "install_and_flag t p s =
     do { s \<leftarrow> update_entry p (\<lambda>e. e\<lparr>monitor := install_task t (monitor e)\<rparr>) s;
          (prev, s) \<leftarrow> load_entry_state p s;
          s \<leftarrow> update_entry p (\<lambda>e. e\<lparr>entry_state := prev OR WAKER_SET\<rparr>) s;
          Some (if prev AND RESULT_SET = RESULT_SET then Again else Sleep, s) }"

definition poll_once :: "task \<Rightarrow> usize \<Rightarrow> sys \<Rightarrow> (poll_outcome \<times> sys) option" where
  "poll_once t p s =
     do { (res, s) \<leftarrow> try_consume_result p s;
          case res of
            Some result \<Rightarrow> Some (Consumed result, s)
          | None \<Rightarrow>
            do { (state, s) \<leftarrow> load_entry_state p s;
                 if state AND RESULT_SET = RESULT_SET then
                   do { (res, s) \<leftarrow> try_consume_result p s;
                        Some (case res of Some result \<Rightarrow> Consumed result | None \<Rightarrow> Again, s) }
                 else if state AND WAKER_SET = WAKER_SET then
                   do { (found, s) \<leftarrow> load_entry_state p s;
                        if found = state then
                          do { s \<leftarrow> update_entry p (\<lambda>e. e\<lparr>entry_state := state AND NOT WAKER_SET\<rparr>) s;
                               install_and_flag t p s }
                        else Some (Again, s) }
                 else install_and_flag t p s } }"

text \<open>\<open>park\<close> may return spuriously, so a parked thread that is not notified is one that finds no result
  on its next round.\<close>

partial_function (option) poll_result_sync_loop :: "task \<Rightarrow> usize \<Rightarrow> sys \<Rightarrow> (u8 \<times> sys) option" where
  "poll_result_sync_loop t p s =
     do { (out, s) \<leftarrow> poll_once t p s;
          case out of Consumed result \<Rightarrow> Some (result, s) | _ \<Rightarrow> poll_result_sync_loop t p s }"

declare poll_result_sync_loop.simps [code]

definition poll_result_sync :: "task \<Rightarrow> usize \<Rightarrow> sys \<Rightarrow> (u8 \<times> sys) option" where
  "poll_result_sync t p s =
     do { e \<leftarrow> read_entry p s;
          case monitor e of
            Async _ \<Rightarrow> Some (ERROR_WRONG_MODE, s)
          | Sync _ \<Rightarrow> poll_result_sync_loop t p s }"

datatype 'a Poll = Ready 'a | Pending

definition poll_result_async :: "task \<Rightarrow> usize \<Rightarrow> sys \<Rightarrow> (u8 Poll \<times> sys) option" where
  "poll_result_async t p s =
     do { e \<leftarrow> read_entry p s;
          case monitor e of
            Sync _ \<Rightarrow> Some (Ready ERROR_WRONG_MODE, s)
          | Async _ \<Rightarrow>
            do { (out, s) \<leftarrow> poll_once t p s;
                 case out of
                   Consumed result \<Rightarrow> Some (Ready result, s)
                 | Again \<Rightarrow> Some (Pending, emit (Wake t) s)
                 | Sleep \<Rightarrow> Some (Pending, s) } }"

text \<open>\<open>.await\<close> on a wait queue: the executor polls the future until it is ready.\<close>

partial_function (option) await_entry :: "task \<Rightarrow> usize \<Rightarrow> sys \<Rightarrow> (u8 \<times> sys) option" where
  "await_entry t p s =
     do { (out, s) \<leftarrow> poll_result_async t p s;
          case out of Ready result \<Rightarrow> Some (result, s) | Pending \<Rightarrow> await_entry t p s }"

declare await_entry.simps [code]

text \<open>\<open>Entry::prepare_drop\<close> and \<open>Drop for WaitQueue\<close>, over the \<open>drop_wait_queue_entry\<close> of the
  primitive the entry belongs to.\<close>

definition prepare_drop :: "(drop_fn \<Rightarrow> usize \<Rightarrow> sys \<Rightarrow> sys option) \<Rightarrow> usize \<Rightarrow> sys \<Rightarrow> sys option" where
  "prepare_drop callback p s =
     do { e \<leftarrow> read_entry p s;
          if pollable e then
            do { s \<leftarrow> callback (drop_callback e) p s;
                 update_entry p (\<lambda>e. e\<lparr>pollable := False\<rparr>) s }
          else Some s }"

definition wait_queue_drop :: "(drop_fn \<Rightarrow> usize \<Rightarrow> sys \<Rightarrow> sys option) \<Rightarrow> usize \<Rightarrow> sys \<Rightarrow> sys option" where
  "wait_queue_drop callback q s =
     do { p \<leftarrow> to_entry_ptr (anchor_addr q) s;
          if p = 0 then Some (wait_queue_free q s)
          else do { s \<leftarrow> prepare_drop callback p s; Some (wait_queue_free q s) } }"

section \<open>Layout facts\<close>

text \<open>The addresses a \<open>WaitQueue\<close> can have: 8-byte aligned, not null, 128 bytes inside the address
  space.\<close>

definition wq_ok :: "usize \<Rightarrow> bool" where
  "wq_ok q \<longleftrightarrow> unat q mod 8 = 0 \<and> 0 < unat q \<and> unat q + 128 \<le> 2 ^ 64"

lemma wq_ok_code [code]: "wq_ok q \<longleftrightarrow> q mod 8 = 0 \<and> 0 < q \<and> q \<le> - 128"
proof -
  have "unat (- 128 :: usize) = 2 ^ 64 - 128"
    by simp
  then have "q \<le> - 128 \<longleftrightarrow> unat q + 128 \<le> 2 ^ 64"
    unfolding word_le_nat_alt by simp
  moreover have "q mod 8 = 0 \<longleftrightarrow> unat q mod 8 = 0"
    using unat_mod_distrib [of q 8] by (simp add: word_unat_eq_iff)
  moreover have "0 < q \<longleftrightarrow> 0 < unat q"
    by (simp add: word_less_nat_alt)
  ultimately show ?thesis
    unfolding wq_ok_def by simp
qed

lemma round_up:
  assumes "(n :: nat) mod 8 = 0"
  defines "r \<equiv> n mod 128"
  shows "r mod 8 = 0" and "r \<le> 120"
proof -
  show *: "r mod 8 = 0"
    using assms(1) unfolding r_def by (simp add: mod_mod_cancel)
  have "r < 128"
    by (simp add: r_def)
  with * show "r \<le> 120"
    by presburger
qed

lemma anchor_ptr_unat:
  assumes "wq_ok q"
  defines "r \<equiv> unat q mod 128"
  shows "unat (fst (anchor_ptr q)) = (if r = 0 then unat q else unat q + (128 - r))"
    and "unat (snd (anchor_ptr q)) = (if r = 0 then 0 else 128 - r)"
proof -
  have r: "unat (q mod 128) = r"
    by (simp add: r_def unat_mod_distrib)
  have r0: "q mod 128 = 0 \<longleftrightarrow> r = 0"
    using r by (simp add: word_unat_eq_iff)
  have r8: "r mod 8 = 0" "r \<le> 120"
    using assms(1) round_up [of "unat q"] by (auto simp: wq_ok_def r_def)
  show "unat (snd (anchor_ptr q)) = (if r = 0 then 0 else 128 - r)"
  proof (cases "r = 0")
    case False
    have "q + 128 - q mod 128 - q = 128 - q mod 128"
      by simp
    moreover have "q mod 128 \<le> 128"
      using r r8 by (simp add: word_le_nat_alt)
    ultimately show ?thesis
      using False r by (simp add: anchor_ptr_def Let_def VIRTUAL_ALIGNMENT_eq r0 unat_sub)
  qed (simp add: anchor_ptr_def Let_def VIRTUAL_ALIGNMENT_eq r0)
  show "unat (fst (anchor_ptr q)) = (if r = 0 then unat q else unat q + (128 - r))"
  proof (cases "r = 0")
    case False
    have "q + 128 - q mod 128 = q + (128 - q mod 128)"
      by simp
    moreover have s: "unat (128 - q mod 128) = 128 - r"
      using r r8 by (simp add: word_le_nat_alt unat_sub)
    moreover have "unat q + (128 - r) < 2 ^ LENGTH(64)"
    proof -
      have "unat q + 128 \<le> 2 ^ LENGTH(64)" "128 - r < 128"
        using assms(1) False by (simp_all add: wq_ok_def)
      then show ?thesis by linarith
    qed
    ultimately have "unat (q + 128 - q mod 128) = unat q + (128 - r)"
      by (simp only: unat_add_lem [THEN iffD1])
    with False show ?thesis
      by (simp add: anchor_ptr_def Let_def VIRTUAL_ALIGNMENT_eq r0)
  qed (simp add: anchor_ptr_def Let_def VIRTUAL_ALIGNMENT_eq r0)
qed

lemma entry_addr_eq: "entry_addr q = (if snd (anchor_ptr q) < 64 then q + 64 else q)"
  by (simp add: entry_addr_def anchor_to_entry_addr_def Let_def VIRTUAL_ALIGNMENT_eq anchor_ptr_def)

lemma anchor_ptr_offset: "fst (anchor_ptr q) - snd (anchor_ptr q) = q"
  by (simp add: anchor_ptr_def Let_def)

lemma layout:
  assumes "wq_ok q"
  shows "unat (anchor_addr q) mod 128 = 0"
    and "unat q \<le> unat (anchor_addr q)" and "unat (anchor_addr q) + 8 \<le> unat q + 128"
    and "unat q \<le> unat (entry_addr q)" and "unat (entry_addr q) + 64 \<le> unat q + 128"
    and "unat (anchor_addr q) + 8 \<le> unat (entry_addr q) \<or> unat (entry_addr q) + 64 \<le> unat (anchor_addr q)"
proof -
  define n r where "n = unat q" and "r = n mod 128"
  have r8: "r mod 8 = 0" "r \<le> 120"
    using assms round_up [of "unat q"] by (auto simp: wq_ok_def n_def r_def)
  have a: "unat (anchor_addr q) = (if r = 0 then n else n + (128 - r))"
    using anchor_ptr_unat(1) [OF assms] by (simp add: anchor_addr_def n_def r_def)
  have off: "unat (snd (anchor_ptr q)) = (if r = 0 then 0 else 128 - r)"
    using anchor_ptr_unat(2) [OF assms] by (simp add: n_def r_def)
  have q64: "unat (q + 64) = n + 64"
    using assms unfolding n_def by (intro unat_add_lem [THEN iffD1, THEN trans]) (auto simp: wq_ok_def)
  have e: "unat (entry_addr q) = (if r = 0 \<or> 64 < r then n + 64 else n)"
    using off by (auto simp: entry_addr_eq word_less_nat_alt q64 n_def)
  have r': "r = 0 \<or> 8 \<le> r" "r \<le> 64 \<or> 72 \<le> r"
    using r8(1) by presburger+
  have n: "n = n div 128 * 128 + r"
    by (simp add: r_def)
  show "unat (anchor_addr q) mod 128 = 0"
  proof (cases "r = 0")
    case False
    then have "n + (128 - r) = (n div 128 + 1) * 128"
      using n r8 by (simp add: algebra_simps)
    then show ?thesis using False a by simp
  qed (use a in \<open>simp add: r_def\<close>)
  show "unat q \<le> unat (anchor_addr q)" "unat (anchor_addr q) + 8 \<le> unat q + 128"
    "unat q \<le> unat (entry_addr q)" "unat (entry_addr q) + 64 \<le> unat q + 128"
    "unat (anchor_addr q) + 8 \<le> unat (entry_addr q) \<or> unat (entry_addr q) + 64 \<le> unat (anchor_addr q)"
    using a e r' r8(2) by (auto simp flip: n_def)
qed

lemma addr_nonnull [simp]: "wq_ok q \<Longrightarrow> anchor_addr q \<noteq> 0" "wq_ok q \<Longrightarrow> entry_addr q \<noteq> 0"
  using layout(2,4) [of q] by (auto simp: wq_ok_def word_unat_eq_iff)

lemma anchor_addr_aligned [simp]: "wq_ok q \<Longrightarrow> addr_of (anchor_addr q) = anchor_addr q"
proof -
  assume "wq_ok q"
  then have "unat (anchor_addr q) mod 128 = 0"
    by (rule layout)
  then show ?thesis
    unfolding word_unat_eq_iff unat_addr_of by (simp add: minus_mod_eq_div_mult [symmetric])
qed

lemma entry_offset_back [simp]: "entry_addr q - ucast (entry_offset q) = q"
  by (simp add: entry_offset_def entry_addr_eq unsigned_ucast_eq)

lemma anchor_word_nonzero: "wq_ok q \<Longrightarrow> - 1 - snd (anchor_ptr q) \<noteq> 0"
proof
  assume ok: "wq_ok q" and "- 1 - snd (anchor_ptr q) = 0"
  then have "unat (snd (anchor_ptr q)) = unat (- 1 :: usize)"
    by simp
  with anchor_ptr_unat(2) [OF ok] show False
    by (auto simp: unsigned_minus_1_eq_mask mask_eq_exp_minus_1 split: if_splits)
qed

lemma anchor_offset_bound: "wq_ok q \<Longrightarrow> snd (anchor_ptr q) \<noteq> - 1"
  using anchor_word_nonzero [of q] by auto

lemma anchor_to_entry: "anchor_to_entry_addr (anchor_addr q) (- 1 - snd (anchor_ptr q)) = entry_addr q"
  by (simp add: entry_addr_def anchor_addr_def case_prod_beta)

text \<open>Wait queues that do not overlap have different anchors and different entries.\<close>

lemma layout_disjoint:
  assumes "wq_ok q" "wq_ok q'" and "unat q + 128 \<le> unat q'"
  shows "anchor_addr q \<noteq> anchor_addr q'" and "entry_addr q \<noteq> entry_addr q'"
  using layout(2,3,4,5) [OF assms(1)] layout(2,3,4,5) [OF assms(2)] assms(3) by auto

text \<open>C31: the address computations are right for every place a wait queue can have: the anchor is 128-byte aligned,
  so that its address fits in the address bits of a state word and comes out of it again; anchor and entry
  lie inside of the 128 bytes and do not overlap; the entry is found from the anchor and the word stored in
  it, which is not the initial 0; and the wait queue is found from its entry.\<close>

theorem wait_queue_layout:
  assumes "wq_ok q"
  shows "unat (anchor_addr q) mod 128 = 0 \<and>
    to_anchor_ptr ((state AND NOT ADDR_MASK) OR anchor_addr q) = anchor_addr q \<and>
    (unat q \<le> unat (anchor_addr q) \<and> unat (anchor_addr q) + 8 \<le> unat q + 128) \<and>
    (unat q \<le> unat (entry_addr q) \<and> unat (entry_addr q) + 64 \<le> unat q + 128) \<and>
    (unat (anchor_addr q) + 8 \<le> unat (entry_addr q) \<or> unat (entry_addr q) + 64 \<le> unat (anchor_addr q)) \<and>
    (- 1 - snd (anchor_ptr q) \<noteq> 0 \<and>
     anchor_to_entry_addr (fst (anchor_ptr q)) (- 1 - snd (anchor_ptr q)) = entry_addr q) \<and>
    entry_addr q - ucast (entry_offset q) = q"
proof -
  have "to_anchor_ptr ((state AND NOT ADDR_MASK) OR anchor_addr q) = anchor_addr q"
    using replace_addr_views(1) [OF anchor_addr_aligned [OF assms]]
    by (simp add: to_anchor_ptr_def addr_of_def Let_def)
  then show ?thesis
    using layout [OF assms] anchor_word_nonzero [OF assms] anchor_to_entry [of q]
    by (simp only: anchor_addr_def) (simp only: entry_offset_back simp_thms)
qed

theorem wait_queue_layout_witness:
  "anchor_addr 104 = 128 \<and> entry_addr 104 = 168 \<and> to_anchor_ptr ((77 AND NOT ADDR_MASK) OR anchor_addr 104) = anchor_addr 104 \<and>
   entry_addr 104 - ucast (entry_offset 104) = 104"
proof -
  have "wq_ok 104" "anchor_addr 104 = 128" "entry_addr 104 = 168"
    by code_simp+
  then show ?thesis
    using wait_queue_layout [of 104 77] by blast
qed

end
