(* ===== verification/Sync_Primitive.thy ===== *)
theory Sync_Primitive
  imports Wait_Queue
begin

text \<open>
  \<open>src/sync_primitive.rs\<close>: the operations that \<open>Lock\<close>, \<open>Semaphore\<close>, \<open>Barrier\<close> and \<open>Gate\<close> inherit from
  the trait \<open>SyncPrimitive\<close>: pushing an entry, releasing, processing the wait queue, and removing the
  entry of a cancelled task.  \<open>max_shared_owners\<close> of the trait is the argument \<open>most\<close>.
\<close>

section \<open>Pushing an entry\<close>

definition try_push_wait_queue_entry :: "usize \<Rightarrow> usize \<Rightarrow> sys \<Rightarrow> (bool \<times> sys) option" where
  "try_push_wait_queue_entry q state s =
     (let anchor = anchor_addr q; tail_anchor = to_anchor_ptr state in
      do { p \<leftarrow> entry q s;
           s \<leftarrow> update_next_entry_anchor_ptr p tail_anchor s;
           let next_state = (state AND NOT ADDR_MASK) OR anchor;
           case compare_exchange state next_state s of
             (Ok _, s) \<Rightarrow> do { p \<leftarrow> entry q s; s \<leftarrow> set_pollable p s; Some (True, s) }
           | (Err _, s) \<Rightarrow> Some (False, s) })"

section \<open>Processing the wait queue\<close>

text \<open>The variables that the closures of \<open>process_wait_queue\<close> capture.\<close>

record process_vars =
  head_entry :: usize
  unlocked :: bool
  transferred_count :: usize
  resolved_entry :: usize
  reset_failed :: bool

definition grant_entry :: "usize \<Rightarrow> usize \<Rightarrow> process_vars visitor" where
  "grant_entry most state entry_ptr prev_ptr v s =
     (let data = state AND DATA_MASK in
      do { opc \<leftarrow> opcode_of entry_ptr s;
           let desired = desired_count opc;
           if data + transferred_count v = 0 \<or> data + transferred_count v + desired \<le> most then
             (let acquired = acquired_count opc in
              if prev_ptr \<noteq> 0 then
                Some (False,
                  v\<lparr>transferred_count := transferred_count v + acquired, resolved_entry := entry_ptr\<rparr>, s)
              else
                (case compare_exchange state (data + transferred_count v + acquired) s of
                   (Err _, s) \<Rightarrow>
                     do { s \<leftarrow> update_next_entry_anchor_ptr entry_ptr 0 s;
                          Some (True, v\<lparr>head_entry := entry_ptr, reset_failed := True\<rparr>, s) }
                 | (Ok _, s) \<Rightarrow>
                     Some (True, v\<lparr>unlocked := True, resolved_entry := entry_ptr\<rparr>, s)))
           else
             do { s \<leftarrow> update_next_entry_anchor_ptr entry_ptr 0 s;
                  Some (True, v\<lparr>head_entry := entry_ptr\<rparr>, s) } })"

definition set_head :: "usize visitor" where
  "set_head entry_ptr next_ptr head s = Some (next_ptr = 0, entry_ptr, s)"

definition find_head :: "usize \<Rightarrow> usize \<Rightarrow> sys \<Rightarrow> (usize \<times> sys) option" where
  "find_head head tail s =
     (if head = 0 then iter_forward True set_head tail head s
      else do { s \<leftarrow> set_prev_ptr tail s; Some (head, s) })"

definition unlock_closure :: "usize \<Rightarrow> usize \<Rightarrow> usize \<Rightarrow> usize option" where
  "unlock_closure data moved new_state =
     (let new_data = new_state AND DATA_MASK in
      if new_data = data then Some ((new_state AND ADDR_MASK) OR (new_data + moved)) else None)"

definition try_unlock :: "usize \<Rightarrow> process_vars \<Rightarrow> sys \<Rightarrow> bool \<times> sys" where
  "try_unlock data v s =
     (if \<not> reset_failed v \<and> \<not> unlocked v then
        (case fetch_update (unlock_closure data (transferred_count v)) s of
           (Ok _, s) \<Rightarrow> (True, s)
         | (Err _, s) \<Rightarrow> (False, s))
      else (unlocked v, s))"

definition set_result_closure :: "u8 \<Rightarrow> unit visitor" where
  "set_result_closure result entry_ptr next_ptr u s =
     do { s \<leftarrow> set_result entry_ptr result s; Some (False, u, s) }"

partial_function (option) process_wait_queue_loop :: "usize \<Rightarrow> usize \<Rightarrow> usize \<Rightarrow> sys \<Rightarrow> sys option" where
  "process_wait_queue_loop most head state s =
     do { tail \<leftarrow> to_entry_ptr (to_anchor_ptr state) s;
          (head, s) \<leftarrow> find_head head tail s;
          let data = state AND DATA_MASK;
          (v, s) \<leftarrow> iter_backward (grant_entry most state) head
             \<lparr>head_entry = head, unlocked = False, transferred_count = 0, resolved_entry = 0,
              reset_failed = False\<rparr> s;
          case try_unlock data v s of (is_unlocked, s) \<Rightarrow>
          case (if is_unlocked then (state, s)
                else (case fetch_add (transferred_count v) s of
                        (prev, s) \<Rightarrow> (prev + transferred_count v, s))) of (state, s) \<Rightarrow>
          do { (u, s) \<leftarrow> iter_forward False (set_result_closure 0) (resolved_entry v) () s;
               if is_unlocked then Some s
               else process_wait_queue_loop most (head_entry v) state s } }"

declare process_wait_queue_loop.simps [code]

definition process_wait_queue :: "usize \<Rightarrow> usize \<Rightarrow> sys \<Rightarrow> sys option" where
  "process_wait_queue most state s = process_wait_queue_loop most 0 state s"

section \<open>Releasing\<close>

partial_function (option) release_loop :: "usize \<Rightarrow> usize \<Rightarrow> Opcode \<Rightarrow> sys \<Rightarrow> (bool \<times> sys) option" where
  "release_loop most state opc s =
     (if can_release opc state then
        if state AND ADDR_MASK = 0 \<or> state AND LOCKED_FLAG = LOCKED_FLAG then
          (case compare_exchange state (state - acquired_count opc) s of
             (Ok _, s) \<Rightarrow> Some (True, s)
           | (Err new_state, s) \<Rightarrow> release_loop most new_state opc s)
        else
          (let next_state = (state OR LOCKED_FLAG) - acquired_count opc in
           case compare_exchange state next_state s of
             (Err new_state, s) \<Rightarrow> release_loop most new_state opc s
           | (Ok _, s) \<Rightarrow> do { s \<leftarrow> process_wait_queue most next_state s; Some (True, s) })
      else Some (False, s))"

declare release_loop.simps [code]

section \<open>Removing the entry of a cancelled task\<close>

type_synonym removal = "(usize \<times> bool, usize) result"

definition exchange_to :: "usize \<Rightarrow> usize \<Rightarrow> sys \<Rightarrow> removal \<times> sys" where
  "exchange_to state next_state s =
     (case compare_exchange state next_state s of
        (Ok _, s) \<Rightarrow> (Ok (next_state, True), s)
      | (Err found, s) \<Rightarrow> (Err found, s))"

definition remove_entry :: "usize \<Rightarrow> usize \<Rightarrow> removal visitor" where
  "remove_entry state target entry_ptr next_ptr result s =
     (if entry_ptr = target then
        do { prev_ptr \<leftarrow> prev_entry_ptr entry_ptr s;
             s \<leftarrow> (if next_ptr \<noteq> 0 then update_prev_entry_ptr next_ptr prev_ptr s else Some s);
             (result, s) \<leftarrow>
               (if prev_ptr \<noteq> 0 then
                  do { a \<leftarrow> next_entry_anchor_ptr entry_ptr s;
                       s \<leftarrow> update_next_entry_anchor_ptr prev_ptr a s;
                       Some (Ok (state, True), s) }
                else if next_ptr \<noteq> 0 then
                  do { new_tail \<leftarrow> to_wait_queue_ptr next_ptr s;
                       Some (exchange_to state ((state AND NOT ADDR_MASK) OR anchor_addr new_tail) s) }
                else Some (exchange_to state (state AND DATA_MASK) s));
             Some (True, result, s) }
      else Some (False, result, s))"

partial_function (option) remove_wait_queue_entry_loop ::
  "removal \<Rightarrow> usize \<Rightarrow> usize \<Rightarrow> sys \<Rightarrow> ((usize \<times> bool) \<times> sys) option" where
  "remove_wait_queue_entry_loop result state target s =
     do { tail \<leftarrow> to_entry_ptr (to_anchor_ptr state) s;
          (result, s) \<leftarrow> iter_forward True (remove_entry state target) tail result s;
          case result of
            Ok out \<Rightarrow> Some (out, s)
          | Err new_state \<Rightarrow> remove_wait_queue_entry_loop result new_state target s }"

declare remove_wait_queue_entry_loop.simps [code]

definition remove_wait_queue_entry ::
  "usize \<Rightarrow> usize \<Rightarrow> sys \<Rightarrow> ((usize \<times> bool) \<times> sys) option" where
  "remove_wait_queue_entry state target s =
     remove_wait_queue_entry_loop (Ok (state, False)) state target s"

text \<open>The loop of \<open>force_remove_wait_queue_entry\<close>: whether the entry has to be completed, and the value
  of \<open>state\<close> when the loop is left.\<close>

partial_function (option) force_remove_loop ::
  "usize \<Rightarrow> usize \<Rightarrow> usize \<Rightarrow> sys \<Rightarrow> (bool \<times> usize \<times> sys) option" where
  "force_remove_loop most this state s =
     (if state AND LOCKED_FLAG = LOCKED_FLAG then
        (case load s of (state, s) \<Rightarrow> force_remove_loop most this state s)
      else if state AND ADDR_MASK = 0 then Some (True, state, s)
      else
        (case compare_exchange state (state OR LOCKED_FLAG) s of
           (Err new_state, s) \<Rightarrow> force_remove_loop most this new_state s
         | (Ok _, s) \<Rightarrow>
             do { ((new_state, removed), s) \<leftarrow> remove_wait_queue_entry (state OR LOCKED_FLAG) this s;
                  s \<leftarrow> (if new_state AND LOCKED_FLAG = LOCKED_FLAG
                       then process_wait_queue most new_state s else Some s);
                  Some (\<not> removed, state, s) }))"

declare force_remove_loop.simps [code]

partial_function (option) await_finalized :: "usize \<Rightarrow> sys \<Rightarrow> sys option" where
  "await_finalized p s =
     do { (fin, s) \<leftarrow> result_finalized p s; if fin then Some s else await_finalized p s }"

declare await_finalized.simps [code]

definition force_remove_wait_queue_entry :: "usize \<Rightarrow> usize \<Rightarrow> sys \<Rightarrow> sys option" where
  "force_remove_wait_queue_entry most this s =
     (case load s of (state, s) \<Rightarrow>
      do { (need_completion, state, s) \<leftarrow> force_remove_loop most this state s;
           if need_completion then
             do { s \<leftarrow> await_finalized this s;
                  opc \<leftarrow> opcode_of this s;
                  (released, s) \<leftarrow> release_loop most state opc s;
                  Some s }
           else Some s })"

section \<open>Waiting\<close>

text \<open>\<open>wait_resources_sync\<close> over the \<open>drop_wait_queue_entry\<close> of the primitive: \<open>Ok\<close> with the result, or
  \<open>Err\<close> when the entry was not pushed.  The wait queue lives on the stack of the caller, at \<open>q\<close>.\<close>

definition wait_resources_sync ::
  "drop_fn \<Rightarrow> (usize \<Rightarrow> sys \<Rightarrow> sys option) \<Rightarrow> usize \<Rightarrow> task \<Rightarrow> usize \<Rightarrow> usize \<Rightarrow> Opcode \<Rightarrow> callback
     \<Rightarrow> sys \<Rightarrow> ((u8, unit) result \<times> sys) option" where
  "wait_resources_sync kind drop_entry prim t q state opc begin_wait s =
     do { s \<leftarrow> construct q prim kind opc True (wait_queue_default q s);
          (pushed, s) \<leftarrow> try_push_wait_queue_entry q state s;
          if pushed then
            do { let s = begin_wait s;
                 p \<leftarrow> entry q s;
                 (result, s) \<leftarrow> poll_result_sync t p s;
                 s \<leftarrow> wait_queue_drop (\<lambda>_. drop_entry) q s;
                 Some (Ok result, s) }
          else
            do { s \<leftarrow> wait_queue_drop (\<lambda>_. drop_entry) q s; Some (Err (), s) } }"

text \<open>The same on the asynchronous path, as the \<open>async\<close> functions of the primitives inline it.\<close>

definition wait_resources_async ::
  "drop_fn \<Rightarrow> (usize \<Rightarrow> sys \<Rightarrow> sys option) \<Rightarrow> usize \<Rightarrow> task \<Rightarrow> usize \<Rightarrow> usize \<Rightarrow> Opcode \<Rightarrow> callback
     \<Rightarrow> sys \<Rightarrow> ((u8, unit) result \<times> sys) option" where
  "wait_resources_async kind drop_entry prim t q state opc begin_wait s =
     do { s \<leftarrow> construct q prim kind opc False (wait_queue_default q s);
          (pushed, s) \<leftarrow> try_push_wait_queue_entry q state s;
          if pushed then
            do { let s = begin_wait s;
                 p \<leftarrow> entry q s;
                 (result, s) \<leftarrow> await_entry t p s;
                 s \<leftarrow> wait_queue_drop (\<lambda>_. drop_entry) q s;
                 Some (Ok result, s) }
          else
            do { s \<leftarrow> wait_queue_drop (\<lambda>_. drop_entry) q s; Some (Err (), s) } }"

end
