(* ===== verification/Queue_Rep.thy ===== *)
theory Queue_Rep
  imports Sync_Primitive
begin

text \<open>
  The intrusive list as a list.  \<open>live w q\<close> says that the wait queue at address \<open>q\<close> has its anchor word
  and its entry in memory; \<open>chain\<close> follows the \<open>next\<close> anchors from the newest entry to the oldest, and
  \<open>bchain\<close> the \<open>prev\<close> pointers from the oldest to the newest.  The lemmas say what the walks of
  \<open>Wait_Queue\<close> do to a list so represented; in particular the walks end and touch only live entries.
\<close>

section \<open>Live wait queues\<close>

definition live :: "world \<Rightarrow> usize \<Rightarrow> bool" where
  "live w q \<longleftrightarrow> wq_ok q \<and> anchors w (anchor_addr q) = Some (- 1 - snd (anchor_ptr q)) \<and>
     (\<exists>e. entries w (entry_addr q) = Some e \<and> offset e = entry_offset q)"

definition node :: "world \<Rightarrow> usize \<Rightarrow> Entry" where
  "node w q = the (entries w (entry_addr q))"

definition upd :: "usize \<Rightarrow> (Entry \<Rightarrow> Entry) \<Rightarrow> world \<Rightarrow> world" where
  "upd q f w = w\<lparr>entries := (entries w)(entry_addr q \<mapsto> f (node w q))\<rparr>"

lemma live_code [code]:
  "live w q \<longleftrightarrow> wq_ok q \<and> anchors w (anchor_addr q) = Some (- 1 - snd (anchor_ptr q)) \<and>
     (case entries w (entry_addr q) of None \<Rightarrow> False | Some e \<Rightarrow> offset e = entry_offset q)"
  by (auto simp: live_def split: option.splits)

lemma live_wq_ok [dest]: "live w q \<Longrightarrow> wq_ok q"
  by (simp add: live_def)

lemma live_nonnull [simp]: "live w q \<Longrightarrow> anchor_addr q \<noteq> 0" "live w q \<Longrightarrow> entry_addr q \<noteq> 0"
  by (auto simp: live_def)

lemma live_entry: "live w q \<Longrightarrow> entries w (entry_addr q) = Some (node w q)"
  by (auto simp: live_def node_def)

lemma live_offset: "live w q \<Longrightarrow> offset (node w q) = entry_offset q"
  by (auto simp: live_def node_def)

text \<open>Two live wait queues with the same entry, or the same anchor, are the same.\<close>

lemma live_inj [simp]:
  assumes "live w q" "live w q'"
  shows "entry_addr q = entry_addr q' \<longleftrightarrow> q = q'" and "anchor_addr q = anchor_addr q' \<longleftrightarrow> q = q'"
proof -
  show "entry_addr q = entry_addr q' \<longleftrightarrow> q = q'"
  proof
    assume eq: "entry_addr q = entry_addr q'"
    then have "entry_offset q = entry_offset q'"
      using assms live_offset unfolding node_def by metis
    then show "q = q'"
      using eq entry_offset_back by metis
  qed simp
  show "anchor_addr q = anchor_addr q' \<longleftrightarrow> q = q'"
  proof
    assume eq: "anchor_addr q = anchor_addr q'"
    then have "- 1 - snd (anchor_ptr q) = - 1 - snd (anchor_ptr q')"
      using assms unfolding live_def by (metis option.inject)
    then have "snd (anchor_ptr q) = snd (anchor_ptr q')"
      by simp
    with eq show "q = q'"
      using anchor_ptr_offset unfolding anchor_addr_def by metis
  qed simp
qed

lemma read_live [queue_simps]: "live w q \<Longrightarrow> read_entry (entry_addr q) (w, es) = Some (node w q)"
  by (simp add: read_entry_def live_entry)

lemma update_live [queue_simps]:
  "live w q \<Longrightarrow> update_entry (entry_addr q) f (w, es) = Some (upd q f w, es)"
  by (simp add: update_entry_def read_live write_entry_def upd_def)

lemma to_entry_live [queue_simps]:
  "live w q \<Longrightarrow> to_entry_ptr (anchor_addr q) (w, es) = Some (entry_addr q)"
  using anchor_offset_bound [of q] by (auto simp: to_entry_ptr_def live_def anchor_to_entry)

lemma entry_live [queue_simps]: "live w q \<Longrightarrow> entry q (w, es) = Some (entry_addr q)"
  by (simp add: entry_def to_entry_live)

lemma to_wait_queue_live [queue_simps]:
  "live w q \<Longrightarrow> to_wait_queue_ptr (entry_addr q) (w, es) = Some q"
  by (simp add: to_wait_queue_ptr_def read_live live_offset)

lemma fields_live [queue_simps]:
  assumes "live w q"
  shows "prev_entry_ptr (entry_addr q) (w, es) = Some (prev_entry (node w q))"
    and "next_entry_anchor_ptr (entry_addr q) (w, es) = Some (next_entry_anchor (node w q))"
    and "opcode_of (entry_addr q) (w, es) = Some (opcode (node w q))"
    and "update_prev_entry_ptr (entry_addr q) p (w, es) = Some (upd q (\<lambda>e. e\<lparr>prev_entry := p\<rparr>) w, es)"
    and "update_next_entry_anchor_ptr (entry_addr q) a (w, es) =
           Some (upd q (\<lambda>e. e\<lparr>next_entry_anchor := a\<rparr>) w, es)"
    and "set_pollable (entry_addr q) (w, es) = Some (upd q (\<lambda>e. e\<lparr>pollable := True\<rparr>) w, es)"
  using assms
  by (simp_all add: prev_entry_ptr_def next_entry_anchor_ptr_def opcode_of_def read_live update_live
      update_prev_entry_ptr_def update_next_entry_anchor_ptr_def set_pollable_def)

lemma next_entry_ptr_live [queue_simps]:
  assumes "live w q"
  shows "next_entry_anchor (node w q) = 0 \<Longrightarrow> next_entry_ptr (entry_addr q) (w, es) = Some 0"
    and "next_entry_anchor (node w q) = anchor_addr q' \<Longrightarrow> live w q' \<Longrightarrow>
         next_entry_ptr (entry_addr q) (w, es) = Some (entry_addr q')"
  using assms by (simp_all add: next_entry_ptr_def read_live to_entry_live)

text \<open>Updating one entry leaves the others, the anchors and the state word alone.\<close>

lemma upd_fields [simp]:
  "prim_state (upd q f w) = prim_state w" "anchors (upd q f w) = anchors w" "events (upd q f w) = events w"
  by (simp_all add: upd_def)

lemma live_prim [simp]:
  "live (w\<lparr>prim_state := x\<rparr>) q = live w q" "live (w\<lparr>events := ev\<rparr>) q = live w q"
  "node (w\<lparr>prim_state := x\<rparr>) q = node w q" "node (w\<lparr>events := ev\<rparr>) q = node w q"
  by (simp_all add: live_def node_def)

lemma live_upd [simp]:
  assumes "live w q" and "\<And>e. offset (f e) = offset e"
  shows "live (upd q f w) q' = live w q'"
  using assms by (auto simp: live_def upd_def node_def)

lemma node_upd: "node (upd q f w) q' = (if entry_addr q' = entry_addr q then f (node w q) else node w q')"
  by (simp add: node_def upd_def)

lemma node_upd_live [simp]:
  assumes "live w q" and "live w q'"
  shows "node (upd q f w) q' = (if q' = q then f (node w q) else node w q')"
  using assms by (simp add: node_upd)

lemma upd_upd [simp]: "upd q f (upd q g w) = upd q (\<lambda>e. f (g e)) w"
  by (simp add: upd_def node_def)

lemma upd_eqI: "f (node w q) = g (node w q) \<Longrightarrow> upd q f w = upd q g w"
  by (simp add: upd_def)

lemma write_entry_upd: "write_entry (entry_addr q) e (w, es) = (upd q (\<lambda>_. e) w, es)"
  by (simp add: write_entry_def upd_def)

lemma upd_events: "(upd q f w)\<lparr>events := ev\<rparr> = upd q f (w\<lparr>events := ev\<rparr>)"
  by (simp add: upd_def node_def)

section \<open>Chains\<close>

fun chain :: "world \<Rightarrow> usize \<Rightarrow> usize list \<Rightarrow> bool" where
  "chain w a [] \<longleftrightarrow> a = 0"
| "chain w a (q # qs) \<longleftrightarrow> a = anchor_addr q \<and> live w q \<and> chain w (next_entry_anchor (node w q)) qs"

fun bchain :: "world \<Rightarrow> usize \<Rightarrow> usize list \<Rightarrow> bool" where
  "bchain w p [] \<longleftrightarrow> p = 0"
| "bchain w p (q # qs) \<longleftrightarrow> p = entry_addr q \<and> live w q \<and> bchain w (prev_entry (node w q)) qs"

lemma chain_live: "chain w a qs \<Longrightarrow> q \<in> set qs \<Longrightarrow> live w q"
  by (induction qs arbitrary: a) auto

lemma chain_unique: "chain w a xs \<Longrightarrow> chain w a ys \<Longrightarrow> xs = ys"
proof (induction xs arbitrary: a ys)
  case Nil
  then show ?case by (cases ys) auto
next
  case (Cons x xs)
  then obtain y zs where ys: "ys = y # zs"
    by (cases ys) auto
  with Cons.prems have "x = y"
    by (metis chain.simps(2) live_inj(2))
  with Cons ys show ?case by auto
qed

lemma chain_append:
  "chain w a (xs @ ys) \<longleftrightarrow>
   (if xs = [] then chain w a ys
    else a = anchor_addr (hd xs) \<and> (\<forall>q \<in> set xs. live w q) \<and>
      (\<forall>i < length xs - 1. next_entry_anchor (node w (xs ! i)) = anchor_addr (xs ! Suc i)) \<and>
      chain w (next_entry_anchor (node w (last xs))) ys)"
proof (induction xs arbitrary: a)
  case (Cons x xs)
  show ?case
  proof (cases xs)
    case (Cons y zs)
    then show ?thesis
      using Cons.IH by (auto simp: less_Suc_eq_0_disj nth_Cons' split: if_splits)
  qed simp
qed simp

lemma chain_distinct: "chain w a qs \<Longrightarrow> distinct qs"
proof (induction qs arbitrary: a)
  case (Cons q qs)
  have "q \<notin> set qs"
  proof
    assume "q \<in> set qs"
    then obtain xs ys where qs: "qs = xs @ q # ys"
      by (meson split_list)
    with Cons.prems have "chain w (next_entry_anchor (node w q)) (xs @ q # ys)"
      by simp
    then have "\<exists>a'. chain w a' (q # ys)"
      by (auto simp: chain_append split: if_splits)
    then have "chain w (anchor_addr q) (q # ys)"
      by auto
    moreover have "chain w (anchor_addr q) (q # xs @ q # ys)"
      using Cons.prems qs by simp
    ultimately have "q # ys = q # xs @ q # ys"
      by (rule chain_unique)
    then show False by simp
  qed
  with Cons show ?case by auto
qed simp

lemma bchain_live: "bchain w p qs \<Longrightarrow> q \<in> set qs \<Longrightarrow> live w q"
  by (induction qs arbitrary: p) auto

text \<open>A chain depends only on the liveness and the \<open>next\<close> fields of its entries.\<close>

lemma chain_cong:
  assumes "\<And>q. q \<in> set qs \<Longrightarrow> live w q \<Longrightarrow>
             live w' q \<and> next_entry_anchor (node w' q) = next_entry_anchor (node w q)"
  shows "chain w a qs \<Longrightarrow> chain w' a qs"
  using assms by (induction qs arbitrary: a) auto

lemma bchain_cong:
  assumes "\<And>q. q \<in> set qs \<Longrightarrow> live w q \<Longrightarrow>
             live w' q \<and> prev_entry (node w' q) = prev_entry (node w q)"
  shows "bchain w p qs \<Longrightarrow> bchain w' p qs"
  using assms by (induction qs arbitrary: p) auto

section \<open>Setting the back pointers\<close>

text \<open>A list from the newest entry to the oldest whose entries point back to the one pushed after
  them, and the updates that make it so.\<close>

fun plinked :: "world \<Rightarrow> usize list \<Rightarrow> bool" where
  "plinked w (x # y # zs) \<longleftrightarrow> prev_entry (node w y) = entry_addr x \<and> plinked w (y # zs)"
| "plinked w _ \<longleftrightarrow> True"

fun link_prevs :: "usize list \<Rightarrow> world \<Rightarrow> world" where
  "link_prevs (x # y # zs) w = link_prevs (y # zs) (upd y (\<lambda>e. e\<lparr>prev_entry := entry_addr x\<rparr>) w)"
| "link_prevs _ w = w"

lemma link_prevs_frame:
  assumes "\<forall>q \<in> set xs. live w q"
  shows "prim_state (link_prevs xs w) = prim_state w \<and> anchors (link_prevs xs w) = anchors w \<and>
    events (link_prevs xs w) = events w \<and>
    (\<forall>q. live w q \<longrightarrow> live (link_prevs xs w) q \<and>
       node (link_prevs xs w) q = (node w q)\<lparr>prev_entry := prev_entry (node (link_prevs xs w) q)\<rparr> \<and>
       (q \<notin> set (tl xs) \<longrightarrow> node (link_prevs xs w) q = node w q))"
  using assms
proof (induction xs w rule: link_prevs.induct)
  case (1 x y zs w)
  then show ?case
    by (auto split: if_splits)
qed auto

lemma link_prevs_simps [simp]:
  assumes "\<forall>q \<in> set xs. live w q"
  shows "prim_state (link_prevs xs w) = prim_state w" "events (link_prevs xs w) = events w"
    and "live w q \<Longrightarrow> live (link_prevs xs w) q"
    and "live w q \<Longrightarrow> q \<notin> set (tl xs) \<Longrightarrow> node (link_prevs xs w) q = node w q"
    and "live w q \<Longrightarrow> next_entry_anchor (node (link_prevs xs w) q) = next_entry_anchor (node w q)"
    and "live w q \<Longrightarrow> opcode (node (link_prevs xs w) q) = opcode (node w q)"
    and "live w q \<Longrightarrow> entry_state (node (link_prevs xs w) q) = entry_state (node w q)"
    and "live w q \<Longrightarrow> pollable (node (link_prevs xs w) q) = pollable (node w q)"
    and "live w q \<Longrightarrow> monitor (node (link_prevs xs w) q) = monitor (node w q)"
  using link_prevs_frame [OF assms] by (metis Entry.select_convs Entry.simps(13) Entry.surjective Entry.update_convs(2))+

lemma plinked_cong:
  "plinked w xs \<Longrightarrow> (\<And>q. q \<in> set (tl xs) \<Longrightarrow> prev_entry (node w' q) = prev_entry (node w q)) \<Longrightarrow> plinked w' xs"
  by (induction w xs rule: plinked.induct) auto

lemma plinked_link_prevs:
  "distinct xs \<Longrightarrow> \<forall>q \<in> set xs. live w q \<Longrightarrow> plinked (link_prevs xs w) xs"
proof (induction xs w rule: link_prevs.induct)
  case (1 x y zs w)
  have "node (link_prevs (x # y # zs) w) y = node (upd y (\<lambda>e. e\<lparr>prev_entry := entry_addr x\<rparr>) w) y"
    using 1 by simp
  with 1 show ?case by simp
qed auto

lemma plinked_append:
  "us \<noteq> [] \<Longrightarrow> plinked w (us @ vs) \<longleftrightarrow> plinked w us \<and> plinked w (last us # vs)"
proof (induction us)
  case (Cons u us)
  then show ?case by (cases us) auto
qed simp

lemma bchain_snoc:
  "bchain w p (qs @ [x]) \<longleftrightarrow> live w x \<and> prev_entry (node w x) = 0 \<and>
     (if qs = [] then p = entry_addr x
      else p = entry_addr (hd qs) \<and> (\<forall>q \<in> set qs. live w q) \<and> plinked w (rev (qs @ [x])))"
proof (induction qs arbitrary: p)
  case (Cons q qs)
  show ?case
  proof (cases qs)
    case (Cons r rs)
    have "plinked w (x # rev qs @ [q]) \<longleftrightarrow> plinked w (x # rev qs) \<and> plinked w [r, q]"
      using plinked_append [of "x # rev qs" w "[q]"] by (simp add: Cons)
    then show ?thesis
      using Cons.IH [of "prev_entry (node w q)"] Cons by auto
  qed auto
qed auto

lemma plinked_bchain:
  assumes "plinked w xs" "xs \<noteq> []" "\<forall>q \<in> set xs. live w q" "prev_entry (node w (hd xs)) = 0"
  shows "bchain w (entry_addr (last xs)) (rev xs)"
proof -
  obtain x ys where xs: "xs = x # ys"
    using assms(2) by (cases xs) auto
  show ?thesis
  proof (cases "ys = []")
    case False
    with assms xs show ?thesis
      by (auto simp: bchain_snoc hd_rev)
  qed (use assms xs in auto)
qed

text \<open>The walk that finds the head and sets the back pointers on its way.\<close>

lemma iter_forward_set_head:
  "chain w a xs \<Longrightarrow> xs \<noteq> [] \<Longrightarrow>
   iter_forward True set_head (entry_addr (hd xs)) h (w, es) =
     Some (entry_addr (last xs), (link_prevs xs w, es))"
proof (induction xs arbitrary: a h w)
  case (Cons x xs)
  then have x: "live w x" and c: "chain w (next_entry_anchor (node w x)) xs"
    by auto
  show ?case
  proof (cases xs)
    case Nil
    with x c show ?thesis
      by (subst iter_forward.simps) (simp add: queue_simps set_head_def)
  next
    case (Cons y zs)
    with c have y: "live w y" "next_entry_anchor (node w x) = anchor_addr y"
      by auto
    let ?w = "upd y (\<lambda>e. e\<lparr>prev_entry := entry_addr x\<rparr>) w"
    have "chain ?w (anchor_addr y) xs"
      by (rule chain_cong [of _ w]) (use y c in auto)
    from Cons.IH [OF this] Cons have
      "iter_forward True set_head (entry_addr y) (entry_addr x) (?w, es) =
         Some (entry_addr (last xs), (link_prevs xs ?w, es))"
      by simp
    with x y Cons show ?thesis
      by (subst iter_forward.simps) (simp add: queue_simps set_head_def)
  qed
qed simp

text \<open>The walk that sets the back pointers of the entries pushed since.\<close>

lemma set_prev_ptr_links:
  assumes "chain w a (x # us @ vs)" and "\<forall>u \<in> set us. prev_entry (node w u) = 0"
    and "plinked w (last (x # us) # vs)"
  shows "set_prev_ptr (entry_addr x) (w, es) = Some (link_prevs (x # us) w, es)"
  using assms
proof (induction us arbitrary: a x w)
  case Nil
  then have x: "live w x" by simp
  show ?case
  proof (cases vs)
    case Nil
    with Nil.prems x show ?thesis
      by (subst set_prev_ptr.simps) (simp add: queue_simps set_prev_ptr.simps)
  next
    case (Cons v vs')
    with Nil.prems x show ?thesis
      by (subst set_prev_ptr.simps) (auto simp: queue_simps)
  qed
next
  case (Cons y us)
  then have x: "live w x" and y: "live w y" "next_entry_anchor (node w x) = anchor_addr y"
    and c: "chain w (anchor_addr y) (y # us @ vs)"
    by auto
  have d: "distinct (x # y # us @ vs)"
    using chain_distinct [OF Cons.prems(1)] by simp
  have lv: "\<forall>q \<in> set (us @ vs). live w q"
    using chain_live [OF c] by auto
  let ?w = "upd y (\<lambda>e. e\<lparr>prev_entry := entry_addr x\<rparr>) w"
  have step: "set_prev_ptr (entry_addr x) (w, es) = set_prev_ptr (entry_addr y) (?w, es)"
    using x y Cons.prems(2) by (subst set_prev_ptr.simps) (simp add: queue_simps)
  have "chain ?w (anchor_addr y) (y # us @ vs)"
    by (rule chain_cong [OF _ c]) (use y in auto)
  moreover have "\<forall>u \<in> set us. prev_entry (node ?w u) = 0"
    using Cons.prems(2) d lv y by auto
  moreover have "plinked ?w (last (y # us) # vs)"
    by (rule plinked_cong [of w]) (use Cons.prems(3) d lv y in auto)
  ultimately show ?case
    unfolding step using Cons.IH by simp
qed

section \<open>Resolving entries\<close>

text \<open>What \<open>set_result\<close> does to the entry of a live wait queue.\<close>

definition resolved_state :: "Entry \<Rightarrow> u8 \<Rightarrow> u16" where
  "resolved_state e r = (entry_state e OR RESULT_SET) OR ucast r"

definition notified :: "Entry \<Rightarrow> u8 \<Rightarrow> event option \<times> Monitor" where
  "notified e r =
     (if resolved_state e r AND WAKER_SET = WAKER_SET then take_task (monitor e) else (None, monitor e))"

definition resolve :: "u8 \<Rightarrow> usize \<Rightarrow> world \<Rightarrow> world" where
  "resolve r q w =
     upd q (\<lambda>e. e\<lparr>pollable := True, entry_state := resolved_state e r OR RESULT_FINALIZED,
                   monitor := snd (notified e r)\<rparr>)
       (w\<lparr>events := events w @ (case fst (notified (node w q) r) of None \<Rightarrow> [] | Some ev \<Rightarrow> [ev])\<rparr>)"

lemma resolved_state_pollable [simp]: "resolved_state (e\<lparr>pollable := b\<rparr>) r = resolved_state e r"
  by (simp add: resolved_state_def)

lemma take_task_None: "fst (take_task m) = None \<Longrightarrow> snd (take_task m) = m"
  by (auto simp: take_task_def split: Monitor.splits option.splits)

lemma set_result_live [queue_simps]:
  assumes "live w q"
  shows "set_result (entry_addr q) r (w, es) = Some (resolve r q w, es)"
proof -
  let ?e = "node w q"
  let ?e1 = "?e\<lparr>pollable := True, entry_state := resolved_state ?e r\<rparr>"
  obtain ev mon where nt: "notified ?e r = (ev, mon)"
    by (metis surj_pair)
  have off: "offset ?e1 = offset (node w q)"
    by simp
  have l: "live (upd q (\<lambda>_. ?e1) w) q"
    using assms live_offset [OF assms] by (auto simp: live_def upd_def)
  have "set_result (entry_addr q) r (w, es) =
     (case (ev, mon) of
        (Some ev, mon) \<Rightarrow>
          do { s \<leftarrow> update_entry (entry_addr q)
                 (\<lambda>e. e\<lparr>monitor := mon, entry_state := entry_state e OR RESULT_FINALIZED\<rparr>)
                 (upd q (\<lambda>_. ?e1) w, es);
               Some (emit ev s) }
      | (None, _) \<Rightarrow> update_entry (entry_addr q)
                       (\<lambda>e. e\<lparr>entry_state := entry_state e OR RESULT_FINALIZED\<rparr>)
                       (upd q (\<lambda>_. ?e1) w, es))"
    using assms nt
    by (cases "resolved_state ?e r AND WAKER_SET = WAKER_SET")
       (simp_all add: set_result_def update_live read_live write_entry_upd notified_def
          resolved_state_def [symmetric] Let_def split: option.split)
  also have "\<dots> = Some (resolve r q w, es)"
  proof (cases ev)
    case None
    then have "mon = monitor ?e"
      using nt take_task_None [of "monitor ?e"] by (auto simp: notified_def split: if_splits)
    with None nt l show ?thesis
      by (simp add: update_live resolve_def) (rule upd_eqI, simp)
  next
    case (Some x)
    with nt l show ?thesis
      by (simp add: update_live resolve_def emit_def upd_events) (rule upd_eqI, simp)
  qed
  finally show ?thesis .
qed

lemma resolve_simps [simp]:
  "prim_state (resolve r q w) = prim_state w"
  "live w q \<Longrightarrow> live (resolve r q w) q' = live w q'"
  "live w q \<Longrightarrow> live w q' \<Longrightarrow> q' \<noteq> q \<Longrightarrow> node (resolve r q w) q' = node w q'"
  "next_entry_anchor (node (resolve r q w) q) = next_entry_anchor (node w q)"
  "prev_entry (node (resolve r q w) q) = prev_entry (node w q)"
  "opcode (node (resolve r q w) q) = opcode (node w q)"
  "pollable (node (resolve r q w) q)"
  "entry_state (node (resolve r q w) q) = resolved_state (node w q) r OR RESULT_FINALIZED"
  by (simp_all add: resolve_def node_upd)

lemma resolve_links [simp]:
  assumes "live w q" "live w q'"
  shows "next_entry_anchor (node (resolve r q w) q') = next_entry_anchor (node w q')"
    and "prev_entry (node (resolve r q w) q') = prev_entry (node w q')"
    and "opcode (node (resolve r q w) q') = opcode (node w q')"
  using assms by (cases "q' = q"; simp)+

text \<open>The notification that a waiting entry is due: the task that was installed last and announced with
  \<open>WAKER_SET\<close>.\<close>

definition wakeup :: "world \<Rightarrow> usize \<Rightarrow> event list" where
  "wakeup w q =
     (if entry_state (node w q) AND WAKER_SET = WAKER_SET
      then (case fst (take_task (monitor (node w q))) of None \<Rightarrow> [] | Some ev \<Rightarrow> [ev]) else [])"

abbreviation wakeups :: "world \<Rightarrow> usize list \<Rightarrow> event list" where
  "wakeups w qs \<equiv> concat (map (wakeup w) qs)"

lemma take_task_taken: "fst (take_task (snd (take_task m))) = None"
  by (auto simp: take_task_def split: Monitor.splits option.splits)

text \<open>The walks that resolve every entry of a chain, with what their closures do to the captured
  variable.\<close>

definition resolve_visitor :: "u8 \<Rightarrow> ('a \<Rightarrow> 'a) \<Rightarrow> 'a visitor" where
  "resolve_visitor r g entry_ptr next_ptr a s = do { s \<leftarrow> set_result entry_ptr r s; Some (False, g a, s) }"

lemma set_result_closure_visitor: "set_result_closure r = resolve_visitor r (\<lambda>u. u)"
  by (intro ext) (simp add: set_result_closure_def resolve_visitor_def)

lemma resolve_visitor_live:
  "live w q \<Longrightarrow> resolve_visitor r g (entry_addr q) n x (w, es) = Some (False, g x, (resolve r q w, es))"
  by (simp add: resolve_visitor_def set_result_live)

lemma iter_forward_resolve:
  "chain w a qs \<Longrightarrow> p = (if qs = [] then 0 else entry_addr (hd qs)) \<Longrightarrow>
   iter_forward False (resolve_visitor r g) p x (w, es) =
     Some ((g ^^ length qs) x, (fold (resolve r) qs w, es))"
proof (induction qs arbitrary: a p x w)
  case Nil
  then show ?case
    by (simp add: iter_forward.simps)
next
  case (Cons q qs)
  then have q: "live w q" and c: "chain w (next_entry_anchor (node w q)) qs"
    by auto
  have n: "next_entry_ptr (entry_addr q) (w, es) = Some (if qs = [] then 0 else entry_addr (hd qs))"
    using q c by (cases qs) (auto simp: queue_simps)
  have "chain (resolve r q w) (next_entry_anchor (node w q)) qs"
    by (rule chain_cong [OF _ c]) (use q in auto)
  from Cons.IH [OF this refl, of "g x"] q n Cons.prems show ?case
    by (subst iter_forward.simps) (simp add: resolve_visitor_live funpow_swap1)
qed

lemma fold_resolve_simps [simp]:
  "prim_state (fold (resolve r) qs w) = prim_state w"
  by (induction qs arbitrary: w) auto

lemma fold_resolve_frame:
  assumes "\<forall>q \<in> set qs. live w q" and "live w x"
  shows "live (fold (resolve r) qs w) x"
    and "next_entry_anchor (node (fold (resolve r) qs w) x) = next_entry_anchor (node w x)"
    and "prev_entry (node (fold (resolve r) qs w) x) = prev_entry (node w x)"
    and "opcode (node (fold (resolve r) qs w) x) = opcode (node w x)"
    and "x \<notin> set qs \<Longrightarrow> node (fold (resolve r) qs w) x = node w x"
  using assms by (induction qs arbitrary: w) auto

lemma fold_resolve_node:
  assumes "\<forall>q \<in> set qs. live w q" and "distinct qs" and "x \<in> set qs"
  shows "pollable (node (fold (resolve r) qs w) x)"
    and "entry_state (node (fold (resolve r) qs w) x) = resolved_state (node w x) r OR RESULT_FINALIZED"
proof -
  have "node (fold (resolve r) qs w) x = node (resolve r x w) x"
    using assms
  proof (induction qs arbitrary: w)
    case (Cons q qs)
    show ?case
    proof (cases "x = q")
      case True
      with Cons.prems show ?thesis
        by (simp add: fold_resolve_frame(5))
    next
      case False
      with Cons.prems have x: "x \<in> set qs" "live w x" "live w q"
        by auto
      with Cons.IH [of "resolve r q w"] Cons.prems
      have "node (fold (resolve r) qs (resolve r q w)) x = node (resolve r x (resolve r q w)) x"
        by simp
      also have "\<dots> = node (resolve r x w) x"
        using x False by (simp add: resolve_def node_upd)
      finally show ?thesis by simp
    qed
  qed simp
  then show "pollable (node (fold (resolve r) qs w) x)"
    and "entry_state (node (fold (resolve r) qs w) x) = resolved_state (node w x) r OR RESULT_FINALIZED"
    by simp_all
qed

end
