(* ===== verification/Queue_Processing.thy ===== *)
theory Queue_Processing
  imports Queue_Rep
begin

text \<open>
  The parts of a round of \<open>process_wait_queue\<close> (\<open>src/sync_primitive.rs\<close>) on the list of waiting tasks.
  The granting walk computes \<open>granted\<close>, the longest prefix of the queue that fits (\<open>grant_walk_stop\<close>,
  \<open>grant_walk_all\<close>); \<open>find_head\<close> restores the back pointers (\<open>find_head_ok\<close>); a cut detaches the granted
  prefix (\<open>cut_detached\<close>), which other threads leave alone (\<open>detached_rely\<close>) until it is resolved
  (\<open>detached_resolve\<close>).  \<open>rely\<close> is what other threads may do while the queue is locked.
\<close>

section \<open>The granting walk\<close>

definition count_word :: "Opcode list \<Rightarrow> usize" where
  "count_word ops = of_nat (transferred ops)"

lemma acquired_word: "acquired_count opc = of_nat (acquired opc)"
  by (simp add: acquired_def)

lemma count_word_simps [simp]: "count_word [] = 0" "count_word (opc # ops) = acquired_count opc + count_word ops"
  by (simp_all add: acquired_word count_word_def)

lemma unat_small: "n \<le> 126 \<Longrightarrow> unat (of_nat n :: usize) = n"
  by (simp add: unsigned_of_nat take_bit_nat_eq_self)

lemma unat_count_word: "transferred ops \<le> 63 \<Longrightarrow> unat (count_word ops) = transferred ops"
  by (simp add: unat_small count_word_def)

text \<open>The condition of the walk on words is the one on natural numbers.\<close>

lemma grant_condition:
  assumes "h \<le> 63" "opcode_ok opc" "d + t = of_nat h"
  shows "(d + t = 0 \<or> d + t + desired_count opc \<le> most) \<longleftrightarrow> can_grant (unat most) h opc"
proof -
  have h: "unat (d + t) = h"
    using assms(1) by (simp add: assms(3) unat_small)
  have "d + t + desired_count opc = of_nat (h + desired opc)"
    by (simp add: assms(3) desired_def)
  moreover have "h + desired opc \<le> 126"
    using assms(1) desired_le_63 [OF assms(2)] by simp
  ultimately have "unat (d + t + desired_count opc) = h + desired opc"
    using unat_small by metis
  then show ?thesis
    unfolding can_grant_def word_le_nat_alt using h by (metis unat_eq_zero)
qed

abbreviation opcodes :: "world \<Rightarrow> usize list \<Rightarrow> Opcode list" where
  "opcodes w qs \<equiv> map (\<lambda>q. opcode (node w q)) qs"

abbreviation cut :: "usize \<Rightarrow> world \<Rightarrow> world" where
  "cut q w \<equiv> upd q (\<lambda>e. e\<lparr>next_entry_anchor := 0\<rparr>) w"

definition granted_to :: "usize list \<Rightarrow> nat \<Rightarrow> usize \<Rightarrow> usize" where
  "granted_to qs n r = (if n = 0 then r else entry_addr (qs ! (n - 1)))"

lemma granted_to_Cons: "granted_to (q # qs) (Suc n) r = granted_to qs n (entry_addr q)"
  by (cases n) (simp_all add: granted_to_def)

text \<open>The walk meets an entry that does not fit: it becomes the head of what is left.\<close>

lemma grant_walk_stop:
  assumes "bchain w p qs" "h \<le> 63" "unat most \<le> 63" "\<forall>q \<in> set qs. opcode_ok (opcode (node w q))"
    and "data_of state + transferred_count v = of_nat h"
    and "n = granted (unat most) h (opcodes w qs)" and "n < length qs"
  shows "iter_backward (grant_entry most state) p v (w, es) =
    Some (v\<lparr>transferred_count := transferred_count v + count_word (take n (opcodes w qs)),
            resolved_entry := granted_to qs n (resolved_entry v),
            head_entry := entry_addr (qs ! n)\<rparr>, (cut (qs ! n) w, es))"
  using assms
proof (induction qs arbitrary: p h v n)
  case (Cons q qs)
  let ?opc = "opcode (node w q)"
  have q: "live w q" "p = entry_addr q" and b: "bchain w (prev_entry (node w q)) qs"
    using Cons.prems(1) by auto
  have cond: "(data_of state + transferred_count v = 0 \<or>
      data_of state + transferred_count v + desired_count ?opc \<le> most) \<longleftrightarrow> can_grant (unat most) h ?opc"
    using Cons.prems by (intro grant_condition) auto
  show ?case
  proof (cases "can_grant (unat most) h ?opc")
    case False
    then have "n = 0" using Cons.prems by simp
    with False q cond show ?thesis
      by (subst iter_backward.simps)
         (simp add: queue_simps grant_entry_def granted_to_def data_of_def Let_def)
  next
    case True
    let ?v = "v\<lparr>transferred_count := transferred_count v + acquired_count ?opc, resolved_entry := entry_addr q\<rparr>"
    obtain m where m: "n = Suc m" "m = granted (unat most) (h + acquired ?opc) (opcodes w qs)" "m < length qs"
      using True Cons.prems(6,7) by auto
    then have ne: "prev_entry (node w q) \<noteq> 0"
      using b by (cases qs) auto
    have h: "h + acquired ?opc \<le> 63"
      using True Cons.prems acquired_le_desired_nat [of ?opc] acquired_le_63 [of ?opc]
      by (auto simp: can_grant_def)
    have d: "data_of state + transferred_count ?v = of_nat (h + acquired ?opc)"
      using Cons.prems(5) by (simp add: acquired_word add.assoc [symmetric])
    have "iter_backward (grant_entry most state) p v (w, es) =
        iter_backward (grant_entry most state) (prev_entry (node w q)) ?v (w, es)"
      using True q cond ne
      by (subst iter_backward.simps) (simp add: queue_simps grant_entry_def data_of_def Let_def)
    also have "\<dots> = Some (?v\<lparr>transferred_count := transferred_count ?v + count_word (take m (opcodes w qs)),
            resolved_entry := granted_to qs m (resolved_entry ?v),
            head_entry := entry_addr (qs ! m)\<rparr>, (cut (qs ! m) w, es))"
      using Cons.prems m by (intro Cons.IH [OF b h _ _ d]) auto
    finally show ?thesis
      by (simp add: m(1) granted_to_Cons add.assoc)
  qed
qed simp

text \<open>Every entry fits: at the newest one the walk tries to exchange the whole state word.\<close>

definition reset_queue ::
  "usize \<Rightarrow> process_vars \<Rightarrow> Opcode list \<Rightarrow> usize list \<Rightarrow> sys \<Rightarrow> (process_vars \<times> sys) option" where
  "reset_queue state v ops qs s =
     (let v' = v\<lparr>transferred_count := transferred_count v + count_word (butlast ops)\<rparr> in
      case compare_exchange state (data_of state + (transferred_count v + count_word ops)) s of
        (Ok _, s) \<Rightarrow> Some (v'\<lparr>unlocked := True, resolved_entry := entry_addr (last qs)\<rparr>, s)
      | (Err _, s) \<Rightarrow>
          do { s \<leftarrow> update_next_entry_anchor_ptr (entry_addr (last qs)) 0 s;
               Some (v'\<lparr>resolved_entry := granted_to qs (length qs - 1) (resolved_entry v),
                        head_entry := entry_addr (last qs), reset_failed := True\<rparr>, s) })"

lemma grant_walk_all:
  assumes "bchain w p qs" "h \<le> 63" "unat most \<le> 63" "\<forall>q \<in> set qs. opcode_ok (opcode (node w q))"
    and "data_of state + transferred_count v = of_nat h"
    and "granted (unat most) h (opcodes w qs) = length qs" and "qs \<noteq> []"
  shows "iter_backward (grant_entry most state) p v (w, es) =
    reset_queue state v (opcodes w qs) qs (w, es)"
  using assms
proof (induction qs arbitrary: p h v)
  case (Cons q qs)
  let ?opc = "opcode (node w q)"
  have q: "live w q" "p = entry_addr q" and b: "bchain w (prev_entry (node w q)) qs"
    using Cons.prems(1) by auto
  have cond: "(data_of state + transferred_count v = 0 \<or>
      data_of state + transferred_count v + desired_count ?opc \<le> most) \<longleftrightarrow> can_grant (unat most) h ?opc"
    using Cons.prems by (intro grant_condition) auto
  have g: "can_grant (unat most) h ?opc" "granted (unat most) (h + acquired ?opc) (opcodes w qs) = length qs"
    using Cons.prems(6) by (auto split: if_splits)
  show ?case
  proof (cases "qs = []")
    case True
    with b have "prev_entry (node w q) = 0" by simp
    with True q cond g show ?thesis
      by (subst iter_backward.simps)
         (simp add: queue_simps grant_entry_def reset_queue_def granted_to_def data_of_def Let_def add.assoc
           split: prod.split result.split)
  next
    case False
    let ?v = "v\<lparr>transferred_count := transferred_count v + acquired_count ?opc, resolved_entry := entry_addr q\<rparr>"
    have ne: "prev_entry (node w q) \<noteq> 0"
      using b False by (cases qs) auto
    have h: "h + acquired ?opc \<le> 63"
      using g Cons.prems acquired_le_desired_nat [of ?opc] acquired_le_63 [of ?opc]
      by (auto simp: can_grant_def)
    have d: "data_of state + transferred_count ?v = of_nat (h + acquired ?opc)"
      using Cons.prems(5) by (simp add: acquired_word add.assoc [symmetric])
    have "iter_backward (grant_entry most state) p v (w, es) =
        iter_backward (grant_entry most state) (prev_entry (node w q)) ?v (w, es)"
      using g q cond ne
      by (subst iter_backward.simps) (simp add: queue_simps grant_entry_def data_of_def Let_def)
    also have "\<dots> = reset_queue state ?v (opcodes w qs) qs (w, es)"
      using Cons.prems g False by (intro Cons.IH [OF b h _ _ d]) auto
    also have "\<dots> = reset_queue state v (opcodes w (q # qs)) (q # qs) (w, es)"
    proof -
      have "granted_to (q # qs) (length qs) r = granted_to qs (length qs - 1) (entry_addr q)" for r
        using False granted_to_Cons [of q qs "length qs - 1"] by (cases qs) auto
      then show ?thesis
        using False by (auto simp: reset_queue_def add.assoc Let_def split: prod.split result.split)
    qed
    finally show ?thesis .
  qed
qed simp

section \<open>Waiting entries and queues\<close>

definition waiting :: "world \<Rightarrow> usize \<Rightarrow> bool" where
  "waiting w q \<longleftrightarrow> live w q \<and> pollable (node w q) \<and> entry_state (node w q) \<in> {0, WAKER_SET} \<and>
     opcode_ok (opcode (node w q))"

definition has_result :: "u8 \<Rightarrow> world \<Rightarrow> usize \<Rightarrow> bool" where
  "has_result r w q \<longleftrightarrow> live w q \<and> pollable (node w q) \<and>
     entry_state (node w q) AND RESULT_SET = RESULT_SET \<and>
     entry_state (node w q) AND RESULT_FINALIZED = RESULT_FINALIZED \<and>
     ucast (entry_state (node w q) AND 255) = r"

definition queue :: "world \<Rightarrow> usize list \<Rightarrow> bool" where
  "queue w qs \<longleftrightarrow> chain w (addr_of (prim_state w)) (rev qs) \<and> (\<forall>q \<in> set qs. waiting w q)"

lemma waiting_live [dest]: "waiting w q \<Longrightarrow> live w q"
  by (simp add: waiting_def)

lemma entry_bits:
  "bit RESULT_SET n \<longleftrightarrow> n = 8" "bit WAKER_SET n \<longleftrightarrow> n = 9" "bit RESULT_FINALIZED n \<longleftrightarrow> n = 10"
  "bit (255 :: u16) n \<longleftrightarrow> n < 8"
proof -
  show "bit RESULT_SET n \<longleftrightarrow> n = 8" "bit WAKER_SET n \<longleftrightarrow> n = 9" "bit RESULT_FINALIZED n \<longleftrightarrow> n = 10"
    unfolding RESULT_SET_def WAKER_SET_def RESULT_FINALIZED_def bit_push_bit_iff bit_1_iff by auto
  have m: "255 = (mask 8 :: u16)"
    by (simp add: mask_eq_exp_minus_1)
  show "bit (255 :: u16) n \<longleftrightarrow> n < 8"
    unfolding m bit_mask_iff by auto
qed

lemma u16_eq_iff: "(v :: u16) = w \<longleftrightarrow> (\<forall>n. bit v n \<longleftrightarrow> bit w n)"
  by (auto intro: bit_eqI)

lemma u8_eq_iff: "(v :: u8) = w \<longleftrightarrow> (\<forall>n < 8. bit v n \<longleftrightarrow> bit w n)"
  by (auto intro: bit_eqI dest: bit_imp_le_length)

lemma resolved_state_waiting:
  assumes "entry_state e \<in> {0, WAKER_SET}"
  shows "(resolved_state e r OR RESULT_FINALIZED) AND RESULT_FINALIZED = RESULT_FINALIZED"
    and "ucast ((resolved_state e r OR RESULT_FINALIZED) AND 255) = r"
    and "(resolved_state e r OR RESULT_FINALIZED) AND RESULT_SET = RESULT_SET"
proof -
  show "(resolved_state e r OR RESULT_FINALIZED) AND RESULT_SET = RESULT_SET"
    by (auto simp: u16_eq_iff resolved_state_def entry_bits bit_and_iff bit_or_iff)
  show "(resolved_state e r OR RESULT_FINALIZED) AND RESULT_FINALIZED = RESULT_FINALIZED"
    by (auto simp: u16_eq_iff entry_bits bit_and_iff bit_or_iff)
  have "bit (entry_state e) n \<Longrightarrow> 8 \<le> n" for n
    using assms by (auto simp: entry_bits)
  then show "ucast ((resolved_state e r OR RESULT_FINALIZED) AND 255) = r"
    unfolding u8_eq_iff resolved_state_def bit_and_iff bit_or_iff bit_ucast_iff entry_bits by force
qed

lemma waker_flag: "v AND WAKER_SET = WAKER_SET \<longleftrightarrow> bit v 9"
  unfolding u16_eq_iff bit_and_iff entry_bits by blast

lemma resolved_state_flag: "(resolved_state e r OR x) AND WAKER_SET = WAKER_SET \<longleftrightarrow> entry_state e AND WAKER_SET = WAKER_SET"
  if "x = 0 \<or> x = RESULT_FINALIZED"
  using that bit_imp_le_length [of r 9]
  by (auto simp: waker_flag resolved_state_def entry_bits bit_or_iff bit_ucast_iff)

lemma wakeup_same:
  "entry_state (node w' q) = entry_state (node w q) \<Longrightarrow> monitor (node w' q) = monitor (node w q) \<Longrightarrow> wakeup w' q = wakeup w q"
  by (simp add: wakeup_def)

lemma wakeup_prim [simp]: "wakeup (w\<lparr>prim_state := x\<rparr>) = wakeup w"
  by (intro ext wakeup_same) simp_all

lemma resolve_wakeup:
  shows "events (resolve r q w) = events w @ wakeup w q" "wakeup (resolve r q w) q = []"
proof -
  have n: "notified (node w q) r =
      (if entry_state (node w q) AND WAKER_SET = WAKER_SET then take_task (monitor (node w q)) else (None, monitor (node w q)))"
    using resolved_state_flag [of 0 "node w q" r] by (simp add: notified_def)
  show "events (resolve r q w) = events w @ wakeup w q"
    by (auto simp: resolve_def wakeup_def n split: option.split)
  have "monitor (node (resolve r q w) q) = snd (notified (node w q) r)"
    by (simp add: resolve_def node_upd)
  then show "wakeup (resolve r q w) q = []"
    by (simp add: wakeup_def resolved_state_flag n take_task_taken)
qed

lemma fold_resolve_wakeup:
  assumes "\<forall>q \<in> set qs. live w q" "distinct qs"
  shows "events (fold (resolve r) qs w) = events w @ wakeups w qs"
    and "q \<in> set qs \<Longrightarrow> wakeup (fold (resolve r) qs w) q = []"
proof -
  show "events (fold (resolve r) qs w) = events w @ wakeups w qs"
    using assms
  proof (induction qs arbitrary: w)
    case (Cons p qs)
    have "wakeup (resolve r p w) x = wakeup w x" if "x \<in> set qs" for x
    proof (rule wakeup_same)
      have "live w p" "live w x" "x \<noteq> p"
        using that Cons.prems by auto
      then show "entry_state (node (resolve r p w) x) = entry_state (node w x)"
        "monitor (node (resolve r p w) x) = monitor (node w x)"
        by simp_all
    qed
    then have "wakeups (resolve r p w) qs = wakeups w qs"
      by (simp cong: map_cong)
    then show ?case
      using Cons.IH [of "resolve r p w"] Cons.prems by (simp add: resolve_wakeup)
  qed simp
  show "wakeup (fold (resolve r) qs w) q = []" if "q \<in> set qs"
    using assms that
  proof (induction qs arbitrary: w)
    case (Cons p qs)
    show ?case
    proof (cases "p = q")
      case True
      then have "wakeup (fold (resolve r) qs (resolve r p w)) q = wakeup (resolve r p w) q"
        using Cons.prems by (intro wakeup_same) (simp_all add: fold_resolve_frame(5))
      with True show ?thesis
        by (simp add: resolve_wakeup)
    next
      case False
      then show ?thesis
        using Cons by simp
    qed
  qed simp
qed

lemma resolve_has_result: "waiting w q \<Longrightarrow> has_result r (resolve r q w) q"
  by (simp add: has_result_def waiting_def resolved_state_waiting)

lemma fold_resolve_has_result:
  "\<forall>q \<in> set qs. waiting w q \<Longrightarrow> distinct qs \<Longrightarrow> q \<in> set qs \<Longrightarrow> has_result r (fold (resolve r) qs w) q"
  unfolding has_result_def
  by (simp add: fold_resolve_node fold_resolve_frame waiting_def resolved_state_waiting)

lemma fold_resolve_waiting:
  "\<forall>q \<in> set qs. live w q \<Longrightarrow> x \<notin> set qs \<Longrightarrow> waiting w x \<Longrightarrow> waiting (fold (resolve r) qs w) x"
  unfolding waiting_def by (simp add: fold_resolve_frame)

section \<open>Finding the head\<close>

definition in_progress :: "world \<Rightarrow> usize \<Rightarrow> usize list \<Rightarrow> bool" where
  "in_progress w head qs \<longleftrightarrow> locked (prim_state w) \<and> queue w qs \<and> qs \<noteq> [] \<and> prev_entry (node w (last qs)) = 0 \<and>
     (head = 0 \<or>
      (\<exists>xs ys. qs = xs @ ys \<and> xs \<noteq> [] \<and> head = entry_addr (hd xs) \<and> plinked w (rev xs) \<and>
         prev_entry (node w (last xs)) = 0 \<and> (\<forall>q \<in> set ys. prev_entry (node w q) = 0)))"

lemma queue_facts:
  assumes "queue w qs"
  shows "distinct qs" and "q \<in> set qs \<Longrightarrow> waiting w q" and "q \<in> set qs \<Longrightarrow> live w q"
    and "chain w (addr_of (prim_state w)) (rev qs)"
  using assms chain_distinct [of w _ "rev qs"] by (auto simp: queue_def)

text \<open>A walk that left off at \<open>last xs\<close> in an earlier round goes on to the entries that were pushed since.\<close>

lemma set_prev_resumes:
  assumes qu: "queue w (xs @ ys)" "xs \<noteq> []" and pl: "plinked w (rev xs)"
    and p0: "prev_entry (node w (last xs)) = 0" "\<forall>q \<in> set ys. prev_entry (node w q) = 0"
  defines "us \<equiv> rev ys @ [last xs]"
  shows "set_prev_ptr (entry_addr (last (xs @ ys))) (w, es) = Some (link_prevs us w, es)"
    and "plinked (link_prevs us w) (rev (xs @ ys))" and "prev_entry (node (link_prevs us w) (last (xs @ ys))) = 0"
    and "distinct us" "set us \<subseteq> set (xs @ ys)"
proof -
  note live = queue_facts(3) [OF qu(1)] and ch = queue_facts(4) [OF qu(1)] and d = queue_facts(1) [OF qu(1)]
  let ?w = "link_prevs us w"
  have rq: "rev (xs @ ys) = us @ tl (rev xs)" "last us = last xs" "hd us = last (xs @ ys)" "us \<noteq> []"
    using qu(2) by (cases xs rule: rev_cases; cases ys rule: rev_cases; simp add: us_def)+
  then obtain x ts where us: "us = x # ts"
    by (cases us) auto
  have z: "\<forall>u \<in> set us. prev_entry (node w u) = 0"
    using p0 by (auto simp: us_def)
  have lp: "plinked w (last us # tl (rev xs))"
    using pl qu(2) rq(2) by (cases xs rule: rev_cases) auto
  show du: "distinct us" "set us \<subseteq> set (xs @ ys)"
    using d qu(2) by (cases xs rule: rev_cases; auto simp: us_def)+
  have dis: "set us \<inter> set (tl (rev xs)) = {}"
    using d qu(2) by (cases xs rule: rev_cases; auto simp: us_def)
  have lq: "\<forall>q \<in> set us. live w q"
    using live du(2) by auto
  show "set_prev_ptr (entry_addr (last (xs @ ys))) (w, es) = Some (?w, es)"
    using set_prev_ptr_links [of w _ x ts "tl (rev xs)" es] ch z lp rq us by auto
  show "prev_entry (node ?w (last (xs @ ys))) = 0"
    using qu(2) p0 z live [of "last (xs @ ys)"] lq du(1) rq(3) us by (subst link_prevs_simps) auto
  have "plinked ?w us"
    by (rule plinked_link_prevs) (use du lq in auto)
  moreover have "plinked ?w (last us # tl (rev xs))"
  proof (rule plinked_cong [OF lp])
    fix q assume "q \<in> set (tl (last us # tl (rev xs)))"
    then have "q \<notin> set us" "q \<in> set (xs @ ys)"
      using dis qu(2) by (cases xs rule: rev_cases; auto)+
    then show "prev_entry (node ?w q) = prev_entry (node w q)"
      using live lq us by (subst link_prevs_simps) auto
  qed
  ultimately show "plinked ?w (rev (xs @ ys))"
    using rq by (simp add: plinked_append)
qed

lemma find_head_ok:
  assumes "in_progress w head qs"
  obtains us where "distinct us" "set us \<subseteq> set qs"
    and "find_head head (entry_addr (last qs)) (w, es) = Some (entry_addr (hd qs), (link_prevs us w, es))"
    and "bchain (link_prevs us w) (entry_addr (hd qs)) qs"
    and "prev_entry (node (link_prevs us w) (last qs)) = 0"
proof -
  from assms have q: "queue w qs" "qs \<noteq> []" "prev_entry (node w (last qs)) = 0"
    by (auto simp: in_progress_def)
  note live = queue_facts(3) [OF q(1)] and ch = queue_facts(4) [OF q(1)] and d = queue_facts(1) [OF q(1)]
  have bw: "bchain w' (entry_addr (hd qs)) qs" if "plinked w' (rev qs)" "prev_entry (node w' (last qs)) = 0"
    "\<And>q. q \<in> set qs \<Longrightarrow> live w' q" for w'
    using plinked_bchain [of w' "rev qs"] that q(2) by (simp add: hd_rev last_rev)
  show thesis
  proof (cases "head = 0")
    case True
    let ?w = "link_prevs (rev qs) w"
    have "find_head head (entry_addr (last qs)) (w, es) = Some (entry_addr (hd qs), (?w, es))"
      using iter_forward_set_head [OF ch, of 0] q(2) True by (simp add: find_head_def hd_rev last_rev)
    moreover have "plinked ?w (rev qs)"
      by (rule plinked_link_prevs) (use d live in auto)
    moreover have "prev_entry (node ?w (last qs)) = 0"
      using live q d by (cases qs rule: rev_cases) auto
    ultimately show thesis
      using live d by (intro that [of "rev qs"]) (auto intro!: bw)
  next
    case False
    then obtain xs ys where xs: "qs = xs @ ys" "xs \<noteq> []" "head = entry_addr (hd xs)" "plinked w (rev xs)"
      "prev_entry (node w (last xs)) = 0" "\<forall>q \<in> set ys. prev_entry (node w q) = 0"
      using assms unfolding in_progress_def by metis
    note s = set_prev_resumes [OF q(1) [unfolded xs(1)] xs(2,4-6)]
    have "find_head head (entry_addr (last qs)) (w, es) = Some (entry_addr (hd qs), (link_prevs (rev ys @ [last xs]) w, es))"
      using s(1) False xs(1-3) by (simp add: find_head_def)
    moreover have "bchain (link_prevs (rev ys @ [last xs]) w) (entry_addr (hd qs)) qs"
      by (rule bw) (use s(2,3,5) live xs(1) in auto)
    ultimately show thesis
      using s(3-5) xs(1) by (intro that [of "rev ys @ [last xs]"]) simp_all
  qed
qed

section \<open>Interference\<close>

text \<open>Changes of links only.\<close>

definition links_only :: "world \<Rightarrow> world \<Rightarrow> bool" where
  "links_only w w' \<longleftrightarrow> prim_state w' = prim_state w \<and> events w' = events w \<and>
     (\<forall>q. live w q \<longrightarrow> live w' q \<and> entry_state (node w' q) = entry_state (node w q) \<and> monitor (node w' q) = monitor (node w q) \<and>
        pollable (node w' q) = pollable (node w q) \<and> opcode (node w' q) = opcode (node w q))"

lemma links_only_cut: "live w q \<Longrightarrow> links_only w (cut q w)"
  by (simp add: links_only_def)

lemma links_only_link_prevs: "\<forall>q \<in> set us. live w q \<Longrightarrow> links_only w (link_prevs us w)"
  by (simp add: links_only_def)

lemma links_only_keeps:
  assumes "links_only w w'"
  shows "prim_state w' = prim_state w" and "waiting w q \<Longrightarrow> waiting w' q" and "has_result r w q \<Longrightarrow> has_result r w' q"
    and "live w q \<Longrightarrow> live w' q" and "live w q \<Longrightarrow> opcode (node w' q) = opcode (node w q)"
    and "live w q \<Longrightarrow> wakeup w' q = wakeup w q" and "events w' = events w"
  using assms by (auto simp: links_only_def waiting_def has_result_def intro: wakeup_same)

lemma has_result_unique: "has_result a w q \<Longrightarrow> has_result b w q \<Longrightarrow> a = b"
  by (simp add: has_result_def)

lemma waiting_no_result: "waiting w q \<Longrightarrow> \<not> has_result r w q"
proof
  assume "waiting w q" "has_result r w q"
  then have "bit (entry_state (node w q) AND RESULT_FINALIZED) 10" "\<not> bit (entry_state (node w q)) 10"
    by (auto simp: waiting_def has_result_def entry_bits)
  then show False
    by (simp add: bit_and_iff)
qed

text \<open>
  What other threads may do while a thread holds the queue lock: push entries (which were not waiting
  before), give up resources in place, install themselves as the task to notify, and work on entries
  that have a result.  The owners of the entries in \<open>K\<close> leave their results alone.
\<close>

definition rely :: "usize set \<Rightarrow> world \<Rightarrow> world \<Rightarrow> bool" where
  "rely K w w' \<longleftrightarrow>
     (locked (prim_state w) \<longrightarrow>
        locked (prim_state w') \<and> data_of (prim_state w') \<le> data_of (prim_state w) \<and>
        (\<forall>q. waiting w q \<longrightarrow>
           waiting w' q \<and> next_entry_anchor (node w' q) = next_entry_anchor (node w q) \<and>
           prev_entry (node w' q) = prev_entry (node w q) \<and> opcode (node w' q) = opcode (node w q)) \<and>
        (\<forall>q \<in> K. \<forall>r. has_result r w q \<longrightarrow> has_result r w' q) \<and>
        (\<forall>qs. queue w qs \<longrightarrow>
           (\<exists>new. queue w' (qs @ new) \<and> (\<forall>q \<in> set new. prev_entry (node w' q) = 0 \<and> \<not> waiting w q))))"

definition friendly :: "usize set \<Rightarrow> (world \<Rightarrow> world) list \<Rightarrow> bool" where
  "friendly K es \<longleftrightarrow> (\<forall>f \<in> set es. \<forall>w. rely K w (f w))"

lemma rely_refl: "rely K w w"
proof -
  have "queue w qs \<Longrightarrow> \<exists>new. queue w (qs @ new) \<and> (\<forall>q \<in> set new. prev_entry (node w q) = 0 \<and> \<not> waiting w q)" for qs
    by (rule exI [of _ "[]"]) simp
  then show ?thesis by (simp add: rely_def)
qed

lemma friendly_interfere:
  assumes "friendly K es"
  shows "rely K w (fst (interfere (w, es)))" and "friendly K (snd (interfere (w, es)))"
  using assms rely_refl by (cases es; auto simp: friendly_def)+

text \<open>A detached prefix \<open>gs\<close>, granted and not yet resolved, beside the queue \<open>rs\<close>.\<close>

definition detached :: "world \<Rightarrow> usize list \<Rightarrow> usize list \<Rightarrow> bool" where
  "detached w gs rs \<longleftrightarrow> queue w rs \<and> (\<forall>q \<in> set gs. waiting w q) \<and> set gs \<inter> set rs = {} \<and>
     chain w (if gs = [] then 0 else anchor_addr (last gs)) (rev gs)"

lemma queue_nodes: "queue w qs \<Longrightarrow> q \<in> set qs \<Longrightarrow> waiting w q \<and> live w q"
  by (auto simp: queue_def)

lemma queue_cong:
  assumes "queue w qs" "addr_of (prim_state w') = addr_of (prim_state w)"
    and "\<And>q. q \<in> set qs \<Longrightarrow> waiting w' q \<and> next_entry_anchor (node w' q) = next_entry_anchor (node w q)"
  shows "queue w' qs"
proof -
  have "chain w (addr_of (prim_state w)) (rev qs)"
    using assms(1) by (simp add: queue_def)
  then have "chain w' (addr_of (prim_state w)) (rev qs)"
    by (rule chain_cong [rotated]) (use assms(3) in auto)
  with assms show ?thesis by (simp add: queue_def)
qed

lemma queue_addr:
  assumes "queue w qs" "qs \<noteq> []"
  shows "addr_of (prim_state w) = anchor_addr (last qs)"
  using assms by (cases qs rule: rev_cases) (auto simp: queue_def)

lemma detached_rely:
  assumes "detached w gs rs" "locked (prim_state w)" "rely K w w'"
  obtains new where "detached w' gs (rs @ new)" "\<forall>q \<in> set new. prev_entry (node w' q) = 0"
    and "locked (prim_state w')" "data_of (prim_state w') \<le> data_of (prim_state w)"
    and "\<And>q. q \<in> set gs \<union> set rs \<Longrightarrow>
           prev_entry (node w' q) = prev_entry (node w q) \<and> opcode (node w' q) = opcode (node w q)"
    and "\<And>q r. q \<in> K \<Longrightarrow> has_result r w q \<Longrightarrow> has_result r w' q"
proof -
  have q: "queue w rs" and g: "\<And>q. q \<in> set gs \<Longrightarrow> waiting w q"
    and c: "chain w (if gs = [] then 0 else anchor_addr (last gs)) (rev gs)" and d: "set gs \<inter> set rs = {}"
    using assms(1) by (auto simp: detached_def)
  from assms(2,3) have keep: "\<And>q. waiting w q \<Longrightarrow> waiting w' q \<and>
      next_entry_anchor (node w' q) = next_entry_anchor (node w q) \<and>
      prev_entry (node w' q) = prev_entry (node w q) \<and> opcode (node w' q) = opcode (node w q)"
    unfolding rely_def by blast
  obtain new where new: "queue w' (rs @ new)" "\<forall>q \<in> set new. prev_entry (node w' q) = 0 \<and> \<not> waiting w q"
    using assms(2,3) q unfolding rely_def by blast
  have "chain w' (if gs = [] then 0 else anchor_addr (last gs)) (rev gs)"
    by (rule chain_cong [OF _ c]) (use g keep in auto)
  then have "detached w' gs (rs @ new)"
    using new g keep d by (auto simp: detached_def)
  moreover have "q \<in> set gs \<union> set rs \<Longrightarrow> waiting w q" for q
    using g q by (auto simp: queue_def)
  ultimately show thesis
    using that new keep assms(2,3) unfolding rely_def by (metis (no_types, lifting))
qed

text \<open>Cutting the queue at an entry detaches the entries before it.\<close>

lemma chain_suffix: "chain w a (us @ x # vs) \<Longrightarrow> live w x \<and> chain w (next_entry_anchor (node w x)) vs"
  by (induction us arbitrary: a) auto

lemma chain_start: "chain w a vs \<Longrightarrow> a = (if vs = [] then 0 else anchor_addr (hd vs))"
  by (cases vs) auto

lemma chain_cut:
  "chain w a (us @ x # vs) \<Longrightarrow> chain (cut x w) a (us @ [x])"
proof (induction us arbitrary: a)
  case (Cons u us)
  then have "u \<noteq> x"
    using chain_distinct [OF Cons.prems] by auto
  moreover have "live w x"
    using chain_live [OF Cons.prems] by simp
  ultimately show ?case
    using Cons by auto
qed simp

lemma chain_cut_rest:
  assumes "chain w a (us @ x # vs)"
  shows "chain (cut x w) (if vs = [] then 0 else anchor_addr (hd vs)) vs"
proof -
  have x: "live w x" and c: "chain w (next_entry_anchor (node w x)) vs"
    using chain_suffix [OF assms] by auto
  have n: "x \<notin> set vs"
    using chain_distinct [OF assms] by simp
  have "chain (cut x w) (next_entry_anchor (node w x)) vs"
    by (rule chain_cong [OF _ c]) (use x n in auto)
  with chain_start [OF c] show ?thesis by simp
qed

lemma cut_detached:
  assumes "queue w qs" "k < length qs"
  shows "detached (cut (qs ! k) w) (take k qs) (drop k qs)"
proof -
  let ?x = "qs ! k" and ?w = "cut (qs ! k) w"
  have x: "live w ?x"
    using queue_facts(3) [OF assms(1)] assms(2) by simp
  then have wait: "waiting ?w q" if "q \<in> set qs" for q
    using links_only_keeps(2) [OF links_only_cut] queue_facts(2) [OF assms(1)] that by blast
  have qs: "qs = take k qs @ ?x # drop (Suc k) qs" and dk: "drop k qs = ?x # drop (Suc k) qs"
    using assms(2) by (simp_all add: id_take_nth_drop Cons_nth_drop_Suc)
  have "rev qs = rev (drop (Suc k) qs) @ ?x # rev (take k qs)"
    by (subst qs) simp
  with assms(1) have c: "chain w (addr_of (prim_state w)) (rev (drop (Suc k) qs) @ ?x # rev (take k qs))"
    by (simp add: queue_def)
  have "chain ?w (addr_of (prim_state w)) (rev (drop k qs))"
    using chain_cut [OF c] by (simp add: dk)
  moreover have "chain ?w (if take k qs = [] then 0 else anchor_addr (last (take k qs))) (rev (take k qs))"
    using chain_cut_rest [OF c] by (auto simp: hd_rev split: if_splits)
  moreover have "set (take k qs) \<inter> set (drop k qs) = {}"
    by (rule set_take_disj_set_drop_if_distinct [OF queue_facts(1) [OF assms(1)]]) simp
  ultimately show ?thesis
    using wait by (auto simp: detached_def queue_def dest: in_set_takeD in_set_dropD)
qed

text \<open>Resolving the detached entries.\<close>

lemma detached_resolve:
  fixes r :: u8
  assumes "detached w gs rs"
  defines "w' \<equiv> fold (resolve r) (rev gs) w"
  shows "iter_forward False (set_result_closure r) (if gs = [] then 0 else entry_addr (last gs)) () (w, es) =
           Some ((), (w', es))"
    and "prim_state w' = prim_state w" and "queue w' rs"
    and "q \<in> set gs \<Longrightarrow> has_result r w' q" and "has_result x w q \<Longrightarrow> has_result x w' q"
    and "q \<in> set rs \<Longrightarrow> node w' q = node w q"
proof -
  have c: "chain w (if gs = [] then 0 else anchor_addr (last gs)) (rev gs)" and wg: "\<forall>q \<in> set gs. waiting w q"
    and q: "queue w rs" and disj: "set gs \<inter> set rs = {}"
    using assms(1) by (auto simp: detached_def)
  then have lg: "\<forall>q \<in> set (rev gs). live w q" and dg: "distinct gs"
    using chain_distinct [OF c] by auto
  show "iter_forward False (set_result_closure r) (if gs = [] then 0 else entry_addr (last gs)) () (w, es) =
      Some ((), (w', es))"
    unfolding set_result_closure_visitor w'_def
    using iter_forward_resolve [OF c refl, of r "\<lambda>u. u" "()" es] by (auto simp: hd_rev split: if_splits)
  show "prim_state w' = prim_state w"
    by (simp add: w'_def)
  show nd: "node w' q = node w q" if "q \<in> set rs" for q
    unfolding w'_def using that disj queue_facts(3) [OF q that] lg by (intro fold_resolve_frame) auto
  show "queue w' rs"
  proof (rule queue_cong [OF q])
    show "addr_of (prim_state w') = addr_of (prim_state w)"
      by (simp add: w'_def)
    fix q assume "q \<in> set rs"
    then show "waiting w' q \<and> next_entry_anchor (node w' q) = next_entry_anchor (node w q)"
      using nd [of q] fold_resolve_waiting [OF lg, of q r] disj queue_facts(2) [OF q] by (auto simp: w'_def)
  qed
  show "q \<in> set gs \<Longrightarrow> has_result r w' q"
    unfolding w'_def using wg dg by (intro fold_resolve_has_result) auto
  show "has_result x w' q" if "has_result x w q"
  proof -
    have "q \<notin> set gs" "live w q"
      using that wg waiting_no_result by (auto simp: has_result_def)
    then have "node w' q = node w q" "live w' q"
      unfolding w'_def using lg by (auto intro: fold_resolve_frame)
    with that show ?thesis by (simp add: has_result_def)
  qed
qed

end
