(* ===== verification/Process_Queue.thy ===== *)
theory Process_Queue
  imports Queue_Processing
begin

text \<open>
  \<open>process_wait_queue\<close> of \<open>src/sync_primitive.rs\<close> as a whole.  Every round either unlocks the queue
  (\<open>drained_now\<close>) or uses up an action of another thread and leaves a well-formed queue to the next
  round (\<open>retry_round\<close>), so the loop ends (\<open>process_loop_drains\<close>).  \<open>drained\<close> says what the call
  achieves while other threads act, \<open>serviced\<close> what it does exactly when none does.
\<close>

section \<open>One round\<close>

text \<open>What a round does after the granting walk.\<close>

definition end_round :: "usize \<Rightarrow> usize \<Rightarrow> process_vars \<times> sys \<Rightarrow> sys option" where
  "end_round most state = (\<lambda>(v, s).
     case try_unlock (data_of state) v s of (is_unlocked, s) \<Rightarrow>
     case (if is_unlocked then (state, s)
           else (case fetch_add (transferred_count v) s of
                   (prev, s) \<Rightarrow> (prev + transferred_count v, s))) of (state, s) \<Rightarrow>
     do { (u, s) \<leftarrow> iter_forward False (set_result_closure 0) (resolved_entry v) () s;
          if is_unlocked then Some s else process_wait_queue_loop most (head_entry v) state s })"

abbreviation start_vars :: "usize \<Rightarrow> process_vars" where
  "start_vars head \<equiv> \<lparr>head_entry = head, unlocked = False, transferred_count = 0, resolved_entry = 0,
     reset_failed = False\<rparr>"

lemma process_round:
  assumes "in_progress w head qs"
  obtains w1 where "links_only w w1" "queue w1 qs" "bchain w1 (entry_addr (hd qs)) qs"
    and "\<forall>q. live w q \<and> q \<notin> set qs \<longrightarrow> node w1 q = node w q"
    and "process_wait_queue_loop most head (prim_state w) (w, es) =
      do { vs \<leftarrow> iter_backward (grant_entry most (prim_state w)) (entry_addr (hd qs))
                   (start_vars (entry_addr (hd qs))) (w1, es);
           end_round most (prim_state w) vs }"
proof -
  from assms have q: "queue w qs" "qs \<noteq> []"
    by (auto simp: in_progress_def)
  have l: "live w (last qs)"
    using q queue_facts(3) by auto
  have tail: "to_entry_ptr (to_anchor_ptr (prim_state w)) (w, es) = Some (entry_addr (last qs))"
    using queue_addr [OF q] to_entry_live [OF l] by (simp add: to_anchor_ptr_def addr_of_def Let_def)
  obtain us where us: "distinct us" "set us \<subseteq> set qs"
    "find_head head (entry_addr (last qs)) (w, es) = Some (entry_addr (hd qs), (link_prevs us w, es))"
    "bchain (link_prevs us w) (entry_addr (hd qs)) qs"
    using find_head_ok [OF assms] by metis
  let ?w = "link_prevs us w"
  have live: "\<forall>q \<in> set us. live w q"
    using us(2) queue_facts(3) [OF q(1)] by auto
  then have lo: "links_only w ?w"
    by (rule links_only_link_prevs)
  have "queue ?w qs"
    by (rule queue_cong [OF q(1)])
       (use live lo queue_facts [OF q(1)] links_only_keeps(2) [OF lo] in auto)
  moreover have "\<forall>q. live w q \<and> q \<notin> set qs \<longrightarrow> node ?w q = node w q"
  proof (intro allI impI)
    fix q assume "live w q \<and> q \<notin> set qs"
    moreover from this have "q \<notin> set (tl us)"
      using us(2) by (cases us) auto
    ultimately show "node ?w q = node w q"
      using live by simp
  qed
  moreover have "process_wait_queue_loop most head (prim_state w) (w, es) =
      do { vs \<leftarrow> iter_backward (grant_entry most (prim_state w)) (entry_addr (hd qs))
                   (start_vars (entry_addr (hd qs))) (?w, es);
           end_round most (prim_state w) vs }"
    by (subst process_wait_queue_loop.simps)
       (simp add: tail us(3) end_round_def data_of_def case_prod_beta Let_def)
  ultimately show thesis
    using that lo us(4) by blast
qed

lemma bchain_linked:
  assumes "bchain w p qs" "k < length qs"
  shows "plinked w (rev (drop k qs))" and "prev_entry (node w (last qs)) = 0"
proof -
  have "bchain w p qs \<Longrightarrow> k < length qs \<Longrightarrow> \<exists>p'. bchain w p' (drop k qs)" for k
  proof (induction qs arbitrary: p k)
    case (Cons q qs)
    then show ?case by (cases k) auto
  qed simp
  then obtain p' where b: "bchain w p' (drop k qs)"
    using assms by blast
  have ne: "drop k qs \<noteq> []" "last (drop k qs) = last qs"
    using assms(2) by auto
  then obtain ys y where ys: "drop k qs = ys @ [y]"
    by (metis append_butlast_last_id)
  have "plinked w (rev (drop k qs)) \<and> prev_entry (node w y) = 0"
    using b unfolding ys by (cases "ys = []") (auto simp: bchain_snoc)
  moreover have "y = last qs"
    using ys ne by simp
  ultimately show "plinked w (rev (drop k qs))" and "prev_entry (node w (last qs)) = 0"
    by auto
qed

section \<open>The outcome of processing\<close>

definition drained :: "usize set \<Rightarrow> usize \<Rightarrow> world \<Rightarrow> usize list \<Rightarrow> world \<Rightarrow> bool" where
  "drained K most w qs w' \<longleftrightarrow>
     (\<exists>new n. n \<le> length (qs @ new) \<and>
        granted (unat most) (unat (data_of (prim_state w))) (opcodes w qs) \<le> n \<and>
        \<not> locked (prim_state w') \<and>
        queue w' (drop n (qs @ new)) \<and>
        (n < length (qs @ new) \<longrightarrow>
           \<not> can_grant (unat most) (unat (data_of (prim_state w'))) (opcode (node w' ((qs @ new) ! n)))) \<and>
        (\<forall>q \<in> set (take n (qs @ new)) \<inter> K. has_result 0 w' q) \<and>
        (\<forall>q \<in> set (drop n qs). opcode (node w' q) = opcode (node w q)) \<and>
        (\<forall>q \<in> K. \<forall>r. has_result r w q \<longrightarrow> has_result r w' q))"

lemma drained_step:
  assumes "drained K most w2 (drop k qs @ new) w'" and "k \<le> length qs"
    and "granted (unat most) (unat (data_of (prim_state w))) (opcodes w qs) \<le>
         k + granted (unat most) (unat (data_of (prim_state w2))) (opcodes w2 (drop k qs @ new))"
    and "\<And>q. q \<in> set (drop k qs) \<Longrightarrow> opcode (node w2 q) = opcode (node w q)"
    and "\<And>q r. q \<in> K \<Longrightarrow> has_result r w q \<Longrightarrow> has_result r w2 q"
    and "\<And>q. q \<in> set (take k qs) \<Longrightarrow> has_result 0 w2 q"
  shows "drained K most w qs w'"
proof -
  obtain new' n where d: "n \<le> length ((drop k qs @ new) @ new')"
    "granted (unat most) (unat (data_of (prim_state w2))) (opcodes w2 (drop k qs @ new)) \<le> n"
    "\<not> locked (prim_state w')" "queue w' (drop n ((drop k qs @ new) @ new'))"
    "n < length ((drop k qs @ new) @ new') \<Longrightarrow>
       \<not> can_grant (unat most) (unat (data_of (prim_state w'))) (opcode (node w' (((drop k qs @ new) @ new') ! n)))"
    "\<forall>q \<in> set (take n ((drop k qs @ new) @ new')) \<inter> K. has_result 0 w' q"
    "\<forall>q \<in> set (drop n (drop k qs @ new)). opcode (node w' q) = opcode (node w2 q)"
    "\<forall>q \<in> K. \<forall>r. has_result r w2 q \<longrightarrow> has_result r w' q"
    using assms(1) unfolding drained_def by blast
  define all where "all = (drop k qs @ new) @ new'"
  have all: "qs @ new @ new' = take k qs @ all" and k: "length (take k qs) = k"
    using assms(2) by (simp_all add: all_def)
  have parts: "drop (k + n) (qs @ new @ new') = drop n all" "take (k + n) (qs @ new @ new') = take k qs @ take n all"
    "(qs @ new @ new') ! (k + n) = all ! n" "length (qs @ new @ new') = k + length all"
    unfolding all using k by (simp_all add: nth_append)
  have sub: "set (drop (k + n) qs) \<subseteq> set (drop n (drop k qs @ new))" "set (drop (k + n) qs) \<subseteq> set (drop k qs)"
    by (auto simp: add.commute [of k n] simp flip: drop_drop dest: in_set_dropD)
  have "\<forall>q \<in> set (take k qs @ take n all) \<inter> K. has_result 0 w' q"
    using d(6,8) assms(6) unfolding all_def by auto
  moreover have "\<forall>q \<in> set (drop (k + n) qs). opcode (node w' q) = opcode (node w q)"
    using sub d(7) assms(4) by (auto simp: subset_iff)
  moreover have "granted (unat most) (unat (data_of (prim_state w))) (opcodes w qs) \<le> k + n"
    using d(2) assms(3) by (meson add_le_cancel_left order_trans)
  moreover have "k + n < k + length all \<longrightarrow> \<not> can_grant (unat most) (unat (data_of (prim_state w'))) (opcode (node w' (all ! n)))"
    using d(5) unfolding all_def by simp
  moreover have "\<forall>q \<in> K. \<forall>r. has_result r w q \<longrightarrow> has_result r w' q"
    using d(8) assms(5) by blast
  ultimately show ?thesis
    unfolding drained_def using d(1,3,4) unfolding all_def [symmetric]
    by (intro exI [of _ "new @ new'"] exI [of _ "k + n"]) (simp only: parts add_le_cancel_left simp_thms)
qed


lemma granted_to_take:
  "k \<le> length qs \<Longrightarrow> granted_to qs k 0 = (if take k qs = [] then 0 else entry_addr (last (take k qs)))"
  by (cases k) (auto simp: granted_to_def take_Suc_conv_app_nth)

text \<open>A round that has to be repeated: it adds what it granted, resolves the detached entries and leaves
  the rest to the next round.\<close>

lemma in_progressI:
  assumes "queue w (xs @ zs)" "locked (prim_state w)" "xs \<noteq> []" "plinked w (rev xs)" "prev_entry (node w (last xs)) = 0"
    and "\<forall>q \<in> set zs. prev_entry (node w q) = 0"
  shows "in_progress w (entry_addr (hd xs)) (xs @ zs)"
  unfolding in_progress_def
proof (intro conjI)
  show "prev_entry (node w (last (xs @ zs))) = 0"
    using assms(5,6) by (cases "zs = []") (auto simp: last_append)
  show "entry_addr (hd xs) = 0 \<or> (\<exists>xs' ys'. xs @ zs = xs' @ ys' \<and> xs' \<noteq> [] \<and>
      entry_addr (hd xs) = entry_addr (hd xs') \<and> plinked w (rev xs') \<and>
      prev_entry (node w (last xs')) = 0 \<and> (\<forall>q \<in> set ys'. prev_entry (node w q) = 0))"
    using assms(3-6) by blast
qed (use assms(1-3) in auto)

lemma detached_prim:
  assumes "detached w gs rs" "addr_of x = addr_of (prim_state w)"
  shows "detached (w\<lparr>prim_state := x\<rparr>) gs rs"
proof -
  have wt: "waiting (w\<lparr>prim_state := x\<rparr>) q = waiting w q" for q
    by (simp add: waiting_def)
  have "queue (w\<lparr>prim_state := x\<rparr>) rs"
    by (rule queue_cong [of w]) (use assms wt in \<open>auto simp: detached_def queue_def\<close>)
  moreover have "chain (w\<lparr>prim_state := x\<rparr>) (if gs = [] then 0 else anchor_addr (last gs)) (rev gs)"
    by (rule chain_cong [of _ w]) (use assms in \<open>auto simp: detached_def\<close>)
  ultimately show ?thesis
    using assms wt by (simp add: detached_def)
qed

lemma detached_add:
  assumes "detached w gs qs" "unat (data_of (prim_state w)) + unat t \<le> 63"
  shows "detached (w\<lparr>prim_state := prim_state w + t\<rparr>) gs qs"
  by (rule detached_prim [OF assms(1)]) (use add_data_views [OF assms(2)] in simp)

lemma retry_round:
  assumes "detached w gs (xs @ ys)" and "xs \<noteq> []" and "locked (prim_state w)" and "friendly K es"
    and "plinked w (rev xs)" and "prev_entry (node w (last xs)) = 0" and "\<forall>q \<in> set ys. prev_entry (node w q) = 0"
    and "unat (data_of (prim_state w)) + transferred (opcodes w gs) \<le> 63"
    and "transferred_count v = count_word (opcodes w gs)"
    and "resolved_entry v = (if gs = [] then 0 else entry_addr (last gs))" and "head_entry v = entry_addr (hd xs)"
  obtains w' new where
    "(case (case fetch_add (transferred_count v) (w, es) of (prev, s) \<Rightarrow> (prev + transferred_count v, s)) of
        (state, s) \<Rightarrow>
        do { (u, s) \<leftarrow> iter_forward False (set_result_closure 0) (resolved_entry v) () s;
             process_wait_queue_loop most (head_entry v) state s }) =
      process_wait_queue_loop most (entry_addr (hd xs)) (prim_state w') (w', snd (interfere (w, es)))"
    and "in_progress w' (entry_addr (hd xs)) (xs @ ys @ new)"
    and "unat (data_of (prim_state w')) \<le> unat (data_of (prim_state w)) + transferred (opcodes w gs)"
    and "\<And>q. q \<in> set (xs @ ys) \<Longrightarrow> opcode (node w' q) = opcode (node w q)"
    and "\<And>q. q \<in> set gs \<Longrightarrow> has_result 0 w' q"
    and "\<And>q r. q \<in> K \<Longrightarrow> has_result r w q \<Longrightarrow> has_result r w' q"
proof -
  obtain w1 es1 where i: "interfere (w, es) = (w1, es1)"
    by (metis surj_pair)
  obtain new where d1: "detached w1 gs ((xs @ ys) @ new)" and new: "\<forall>q \<in> set new. prev_entry (node w1 q) = 0"
    and l1: "locked (prim_state w1)" and dl: "data_of (prim_state w1) \<le> data_of (prim_state w)"
    and keep: "\<And>q. q \<in> set gs \<union> set (xs @ ys) \<Longrightarrow>
           prev_entry (node w1 q) = prev_entry (node w q) \<and> opcode (node w1 q) = opcode (node w q)"
    and res: "\<And>q r. q \<in> K \<Longrightarrow> has_result r w q \<Longrightarrow> has_result r w1 q"
    using detached_rely [OF assms(1,3), of K w1] friendly_interfere(1) [OF assms(4), of w] i by (metis fst_conv)
  define t where "t = count_word (opcodes w gs)"
  define w2 where "w2 = w1\<lparr>prim_state := prim_state w1 + t\<rparr>"
  define w' where "w' = fold (resolve 0) (rev gs) w2"
  have tr: "unat t = transferred (opcodes w gs)" and dl': "unat (data_of (prim_state w1)) \<le> unat (data_of (prim_state w))"
    using assms(8) dl by (simp_all add: t_def unat_count_word word_le_nat_alt)
  then have no: "unat (data_of (prim_state w1)) + unat t \<le> 63"
    using assms(8) by simp
  note add = add_data_views [OF no]
  note r = detached_resolve [OF detached_add [OF d1 no, folded w2_def], where r = 0, folded w'_def]
  have nd: "node w' q = node w1 q" if "q \<in> set ((xs @ ys) @ new)" for q
    using r(6) [OF that] by (simp add: w2_def)
  have pw: "prev_entry (node w' q) = prev_entry (node w q)" if "q \<in> set (xs @ ys)" for q
    using that nd [of q] keep [of q] by auto
  have pl: "plinked w' (rev xs)"
    by (rule plinked_cong [OF assms(5)]) (metis Un_iff list.set_sel(2) pw rev.simps(1) set_append set_rev tl_Nil)
  show thesis
  proof (rule that)
    show "(case (case fetch_add (transferred_count v) (w, es) of (prev, s) \<Rightarrow> (prev + transferred_count v, s)) of
        (state, s) \<Rightarrow>
        do { (u, s) \<leftarrow> iter_forward False (set_result_closure 0) (resolved_entry v) () s;
             process_wait_queue_loop most (head_entry v) state s }) =
      process_wait_queue_loop most (entry_addr (hd xs)) (prim_state w') (w', snd (interfere (w, es)))"
      using r(1) [of es1] r(2) assms(9-11) i by (simp add: fetch_add_def t_def [symmetric] w2_def)
    have "\<forall>q \<in> set (ys @ new). prev_entry (node w' q) = 0"
      using pw nd new assms(7) by (metis Un_iff set_append)
    then show "in_progress w' (entry_addr (hd xs)) (xs @ ys @ new)"
      using in_progressI [of w' xs "ys @ new"] pl pw assms(2,6) r(2,3) l1 add by (simp add: w2_def)
    have "unat (data_of (prim_state w')) = unat (data_of (prim_state w1)) + unat t"
      using r(2) add(3) no unat_plus_if' [of "data_of (prim_state w1)" t] by (simp add: w2_def)
    then show "unat (data_of (prim_state w')) \<le> unat (data_of (prim_state w)) + transferred (opcodes w gs)"
      using dl' tr by simp
    show "opcode (node w' q) = opcode (node w q)" if "q \<in> set (xs @ ys)" for q
      using that nd [of q] keep [of q] by auto
    show "has_result 0 w' q" if "q \<in> set gs" for q
      using r(4) that .
    show "has_result r w' q" if "q \<in> K" "has_result r w q" for q r
      using that res r(5) by (simp add: has_result_def w2_def)
  qed
qed

text \<open>A round that unlocks the queue.\<close>

lemma drained_now:
  assumes "detached w2 (take n (qs @ new)) (drop n (qs @ new))" and "n \<le> length (qs @ new)"
    and "granted (unat most) (unat (data_of (prim_state w))) (opcodes w qs) \<le> n"
    and "\<not> locked (prim_state w2)"
    and "n < length (qs @ new) \<Longrightarrow>
      \<not> can_grant (unat most) (unat (data_of (prim_state w2))) (opcode (node w2 ((qs @ new) ! n)))"
    and "\<And>q. q \<in> set (drop n qs) \<Longrightarrow> opcode (node w2 q) = opcode (node w q)"
    and "\<And>q r. q \<in> K \<Longrightarrow> has_result r w q \<Longrightarrow> has_result r w2 q"
  shows "drained K most w qs (fold (resolve 0) (rev (take n (qs @ new))) w2)"
proof -
  note r = detached_resolve [OF assms(1), where r = 0]
  have nd: "node (fold (resolve 0) (rev (take n (qs @ new))) w2) q = node w2 q" if "q \<in> set (drop n (qs @ new))" for q
    using r(6) that by blast
  have n: "(qs @ new) ! n \<in> set (drop n (qs @ new))" if "n < length (qs @ new)"
    using that by (metis Cons_nth_drop_Suc list.set_intros(1))
  show ?thesis
    unfolding drained_def
  proof (rule exI [of _ new], rule exI [of _ n], intro conjI)
    show "n < length (qs @ new) \<longrightarrow>
      \<not> can_grant (unat most) (unat (data_of (prim_state (fold (resolve 0) (rev (take n (qs @ new))) w2))))
          (opcode (node (fold (resolve 0) (rev (take n (qs @ new))) w2) ((qs @ new) ! n)))"
      using n nd r(2) assms(5) by simp
    show "\<forall>q \<in> set (take n (qs @ new)) \<inter> K. has_result 0 (fold (resolve 0) (rev (take n (qs @ new))) w2) q"
      using r(4) by blast
    show "\<forall>q \<in> set (drop n qs). opcode (node (fold (resolve 0) (rev (take n (qs @ new))) w2) q) = opcode (node w q)"
      using nd assms(6) by simp
    show "\<forall>q \<in> K. \<forall>r. has_result r w q \<longrightarrow> has_result r (fold (resolve 0) (rev (take n (qs @ new))) w2) q"
      using r(5) assms(7) by blast
  qed (use assms r(2,3) in auto)
qed

definition round_ok ::
  "usize set \<Rightarrow> usize \<Rightarrow> world \<Rightarrow> usize list \<Rightarrow> env \<Rightarrow> sys option \<Rightarrow> bool" where
  "round_ok K most w qs es out \<longleftrightarrow>
     (\<exists>w' es'. out = Some (w', es') \<and> drained K most w qs w') \<or>
     (\<exists>w2 es2 head k new. length es2 < length es \<and> friendly K es2 \<and>
        out = process_wait_queue_loop most head (prim_state w2) (w2, es2) \<and>
        in_progress w2 head (drop k qs @ new) \<and>
        (\<forall>w'. drained K most w2 (drop k qs @ new) w' \<longrightarrow> drained K most w qs w'))"

lemma interfere_shrinks: "interfere (w, es) = (w', es') \<Longrightarrow> w' \<noteq> w \<Longrightarrow> length es' < length es"
  by (cases es) auto

lemma interfere_le: "length (snd (interfere (w, es))) \<le> length es"
  by (cases es) auto

lemma unat_add_data:
  "unat (data_of state) + transferred ops \<le> 63 \<Longrightarrow>
   unat (data_of state + count_word ops) = unat (data_of state) + transferred ops"
  using unat_small [of "unat (data_of state) + transferred ops"] by (simp add: count_word_def)

text \<open>The granting walk stopped at an entry: nobody interfered, or the next round goes on from there.\<close>

lemma stop_unlocks:
  assumes gr: "n = granted (unat most) (unat (data_of (prim_state w))) (opcodes w qs)" "n < length qs"
    and b: "unat (data_of (prim_state w)) + transferred (take n (opcodes w qs)) \<le> 63"
    and ng: "\<not> can_grant (unat most) (unat (data_of (prim_state w)) + transferred (take n (opcodes w qs))) (opcode (node w (qs ! n)))"
    and i: "interfere (cut (qs ! n) w, es) = (w3, es3)" and d3: "detached w3 (take n qs) (drop n qs @ new)"
    and opc: "\<And>q. q \<in> set qs \<Longrightarrow> opcode (node w3 q) = opcode (node w q)"
    and res': "\<And>q r. q \<in> K \<Longrightarrow> has_result r w q \<Longrightarrow> has_result r w3 q"
    and True: "data_of (prim_state w3) = data_of (prim_state w)"
  shows "round_ok K most w qs es
    (end_round most (prim_state w)
      ((start_vars h)\<lparr>transferred_count := count_word (take n (opcodes w qs)),
         resolved_entry := granted_to qs n 0, head_entry := entry_addr (qs ! n)\<rparr>, (cut (qs ! n) w, es)))"
    (is "round_ok K most w qs es (end_round most _ (?v, _))")
proof -
  let ?d = "unat (data_of (prim_state w))" and ?ops = "take n (opcodes w qs)" and ?w1 = "cut (qs ! n) w"
  define x where "x = (prim_state w3 AND ADDR_MASK) OR (data_of (prim_state w) + count_word ?ops)"
  define w4 where "w4 = w3\<lparr>prim_state := x\<rparr>"
  have "data_of (prim_state w) + count_word ?ops \<le> DATA_MASK"
    using b unat_add_data [OF b] by (simp add: DATA_MASK_eq word_le_nat_alt)
  note xv = replace_data_views [OF this, of "prim_state w3", folded x_def]
  have d4: "detached w4 (take n (qs @ new)) (drop n (qs @ new))"
    unfolding w4_def using detached_prim [OF d3, of x] xv gr(2) by simp
  have "drained K most w qs (fold (resolve 0) (rev (take n (qs @ new))) w4)"
  proof (rule drained_now [OF d4])
    show "\<not> can_grant (unat most) (unat (data_of (prim_state w4))) (opcode (node w4 ((qs @ new) ! n)))"
      using ng opc [of "qs ! n"] xv unat_add_data [OF b] gr(2) by (simp add: w4_def nth_append)
    show "has_result r w4 q" if "q \<in> K" "has_result r w q" for q r
      using res' [OF that] by (simp add: w4_def has_result_def)
  qed (use gr xv opc in \<open>auto simp: w4_def dest: in_set_dropD\<close>)
  moreover have "end_round most (prim_state w) (?v, (?w1, es)) = Some (fold (resolve 0) (rev (take n (qs @ new))) w4, es3)"
  proof -
    have "fetch_update (unlock_closure (data_of (prim_state w)) (count_word ?ops)) (?w1, es) =
        (Ok (prim_state w3), (w4, es3))"
      using True i by (simp add: fetch_update_def unlock_closure_def w4_def x_def data_of_def Let_def)
    moreover have "granted_to qs n 0 = (if take n (qs @ new) = [] then 0 else entry_addr (last (take n (qs @ new))))"
      using granted_to_take [of n qs] gr(2) by simp
    then have "iter_forward False (set_result_closure 0) (granted_to qs n 0) () (w4, es3) =
        Some ((), (fold (resolve 0) (rev (take n (qs @ new))) w4, es3))"
      using detached_resolve(1) [OF d4, where r = 0 and es = es3] by (simp only:)
    ultimately show ?thesis
      by (simp add: end_round_def try_unlock_def)
  qed
  ultimately show ?thesis
    unfolding round_ok_def by blast
qed

lemma stop_retries:
  assumes qu: "queue w qs" "bchain w p qs" and fr: "friendly K es3"
    and gr: "n = granted (unat most) (unat (data_of (prim_state w))) (opcodes w qs)" "n < length qs"
    and b: "unat (data_of (prim_state w)) + transferred (take n (opcodes w qs)) \<le> 63"
    and i: "interfere (cut (qs ! n) w, es) = (w3, es3)" and d3: "detached w3 (take n qs) (drop n qs @ new)"
    and new: "\<forall>q \<in> set new. prev_entry (node w3 q) = 0" and l3: "locked (prim_state w3)"
    and dl: "data_of (prim_state w3) \<le> data_of (prim_state w)"
    and prevs: "\<And>q. q \<in> set (drop n qs) \<Longrightarrow> prev_entry (node w3 q) = prev_entry (node w q)"
    and opc: "\<And>q. q \<in> set qs \<Longrightarrow> opcode (node w3 q) = opcode (node w q)"
    and res': "\<And>q r. q \<in> K \<Longrightarrow> has_result r w q \<Longrightarrow> has_result r w3 q"
    and False: "data_of (prim_state w3) \<noteq> data_of (prim_state w)"
  shows "round_ok K most w qs es
    (end_round most (prim_state w)
      ((start_vars h)\<lparr>transferred_count := count_word (take n (opcodes w qs)),
         resolved_entry := granted_to qs n 0, head_entry := entry_addr (qs ! n)\<rparr>, (cut (qs ! n) w, es)))"
    (is "round_ok K most w qs es (end_round most _ (?v, _))")
proof -
  let ?d = "unat (data_of (prim_state w))" and ?ops = "take n (opcodes w qs)" and ?w1 = "cut (qs ! n) w"
  have "w3 \<noteq> ?w1"
    using False by auto
  then have lt: "length es3 < length es"
    by (rule interfere_shrinks [OF i])
  have opg: "opcodes w3 (take n qs) = ?ops"
    using opc by (auto simp: take_map dest: in_set_takeD)
  have dn: "drop n qs \<noteq> []" "hd (drop n qs) = qs ! n" "last (drop n qs) = last qs"
    using gr(2) by (auto simp: hd_drop_conv_nth)
  have pl: "plinked w3 (rev (drop n qs))" and p0: "prev_entry (node w3 (last (drop n qs))) = 0"
  proof -
    have "set (tl (rev (drop n qs))) \<subseteq> set (drop n qs)"
      using set_rev [of "drop n qs"] by (cases "rev (drop n qs)") auto
    then show "plinked w3 (rev (drop n qs))"
      by (intro plinked_cong [OF bchain_linked(1) [OF qu(2) gr(2)]] prevs) blast
    show "prev_entry (node w3 (last (drop n qs))) = 0"
      using bchain_linked(2) [OF qu(2) gr(2)] prevs dn by (metis last_in_set)
  qed
  have b3: "unat (data_of (prim_state w3)) + transferred (opcodes w3 (take n qs)) \<le> 63"
    using b dl opg by (simp add: word_le_nat_alt)
  obtain w' new' where rr:
    "(case (case fetch_add (transferred_count ?v) (w3, es3) of (prev, s) \<Rightarrow> (prev + transferred_count ?v, s)) of
      (state, s) \<Rightarrow>
      do { (u, s) \<leftarrow> iter_forward False (set_result_closure 0) (resolved_entry ?v) () s;
           process_wait_queue_loop most (head_entry ?v) state s }) =
     process_wait_queue_loop most (entry_addr (hd (drop n qs))) (prim_state w') (w', snd (interfere (w3, es3)))"
    "in_progress w' (entry_addr (hd (drop n qs))) (drop n qs @ new @ new')"
    "\<And>q. q \<in> set (drop n qs @ new) \<Longrightarrow> opcode (node w' q) = opcode (node w3 q)"
    "\<And>q. q \<in> set (take n qs) \<Longrightarrow> has_result 0 w' q"
    "\<And>q r. q \<in> K \<Longrightarrow> has_result r w3 q \<Longrightarrow> has_result r w' q"
  proof (rule retry_round [OF d3 dn(1) l3 fr pl p0 new b3, of ?v most])
    show "resolved_entry ?v = (if take n qs = [] then 0 else entry_addr (last (take n qs)))"
      using granted_to_take [of n qs] gr(2) by simp
  qed (use opg dn in auto)
  have "fetch_update (unlock_closure (data_of (prim_state w)) (count_word ?ops)) (?w1, es) =
      (Err (prim_state w3), (w3, es3))"
    using False i by (simp add: fetch_update_def unlock_closure_def data_of_def Let_def)
  then have "end_round most (prim_state w) (?v, (?w1, es)) =
    process_wait_queue_loop most (entry_addr (hd (drop n qs))) (prim_state w') (w', snd (interfere (w3, es3)))"
    using rr(1) by (simp add: end_round_def try_unlock_def)
  moreover have "drained K most w qs z" if "drained K most w' (drop n qs @ new @ new') z" for z
  proof (rule drained_step [OF that])
    show "opcode (node w' q) = opcode (node w q)" if "q \<in> set (drop n qs)" for q
      using rr(3) [of q] opc [of q] that in_set_dropD [OF that] by simp
    show "has_result r w' q" if "q \<in> K" "has_result r w q" for q r
      using that res' rr(5) by blast
    show "has_result 0 w' q" if "q \<in> set (take n qs)" for q
      using that by (rule rr(4))
  qed (use gr in auto)
  moreover have "length (snd (interfere (w3, es3))) < length es" "friendly K (snd (interfere (w3, es3)))"
    using lt interfere_le [of w3 es3] friendly_interfere(2) [OF fr] by auto
  ultimately show ?thesis
    unfolding round_ok_def using rr(2) by blast
qed

lemma stop_round:
  assumes "queue w qs" "bchain w p qs" "locked (prim_state w)" "friendly K es" "unat most \<le> 63"
    and "n = granted (unat most) (unat (data_of (prim_state w))) (opcodes w qs)" and "n < length qs"
  shows "round_ok K most w qs es
    (end_round most (prim_state w)
      ((start_vars h)\<lparr>transferred_count := count_word (take n (opcodes w qs)),
         resolved_entry := granted_to qs n 0, head_entry := entry_addr (qs ! n)\<rparr>, (cut (qs ! n) w, es)))"
    (is "round_ok K most w qs es (end_round most _ (?v, _))")
proof -
  let ?d = "unat (data_of (prim_state w))" and ?ops = "take n (opcodes w qs)" and ?w1 = "cut (qs ! n) w"
  have ok: "\<forall>opc \<in> set (opcodes w qs). opcode_ok opc"
    using queue_facts(2) [OF assms(1)] by (auto simp: waiting_def)
  have b: "?d + transferred ?ops \<le> 63"
    using granted_bound [OF unat_data_of_le [of "prim_state w"] assms(5) ok] assms(6) by simp
  have ng: "\<not> can_grant (unat most) (?d + transferred ?ops) (opcode (node w (qs ! n)))"
    using granted_maximal [of "unat most" ?d "opcodes w qs"] assms(6,7) by simp
  have lx: "live w (qs ! n)"
    using queue_facts(3) [OF assms(1)] assms(7) by simp
  note lo = links_only_keeps [OF links_only_cut [OF lx]]
  obtain w3 es3 where i: "interfere (?w1, es) = (w3, es3)"
    by (metis surj_pair)
  have f3: "friendly K es3" and rel: "rely K ?w1 w3"
    using friendly_interfere [OF assms(4), of ?w1] i by auto
  obtain new where d3: "detached w3 (take n qs) (drop n qs @ new)" and new: "\<forall>q \<in> set new. prev_entry (node w3 q) = 0"
    and l3: "locked (prim_state w3)" and dl: "data_of (prim_state w3) \<le> data_of (prim_state w)"
    and keep: "\<And>q. q \<in> set (take n qs) \<union> set (drop n qs) \<Longrightarrow>
           prev_entry (node w3 q) = prev_entry (node ?w1 q) \<and> opcode (node w3 q) = opcode (node ?w1 q)"
    and res: "\<And>q r. q \<in> K \<Longrightarrow> has_result r ?w1 q \<Longrightarrow> has_result r w3 q"
    using detached_rely [OF cut_detached [OF assms(1,7)] _ rel] assms(3) by (metis lo(1))
  have opc: "opcode (node w3 q) = opcode (node w q)" if "q \<in> set qs" for q
    using keep [of q] lo(5) queue_facts(3) [OF assms(1) that] that by (metis Un_iff append_take_drop_id set_append)
  have res': "has_result r w3 q" if "q \<in> K" "has_result r w q" for q r
    using that res lo(3) by blast
  have prevs: "prev_entry (node w3 q) = prev_entry (node w q)" if "q \<in> set (drop n qs)" for q
  proof -
    have "live w q"
      using queue_facts(3) [OF assms(1)] that by (meson in_set_dropD)
    then show ?thesis
      using keep [of q] that lx by (simp split: if_splits)
  qed
  show ?thesis
  proof (cases "data_of (prim_state w3) = data_of (prim_state w)")
    case True
    show ?thesis
      by (rule stop_unlocks [OF assms(6,7) b ng i d3 opc res' True])
  next
    case False
    show ?thesis
      by (rule stop_retries [OF assms(1,2) f3 assms(6,7) b i d3 new l3 dl prevs opc res' False])
  qed
qed

lemma queue_same_word:
  assumes "queue w qs" "qs \<noteq> []" "queue w (qs @ new)"
  shows "new = []"
proof (rule ccontr)
  assume "new \<noteq> []"
  then have l: "last (qs @ new) = last new" "last new \<in> set new"
    by auto
  have "anchor_addr (last qs) = anchor_addr (last new)"
    using queue_addr [OF assms(1,2)] queue_addr [OF assms(3)] assms(2) l by simp
  moreover have "live w (last qs)" "live w (last new)"
    using queue_facts(3) [OF assms(3)] assms(2) l by auto
  ultimately have "last qs = last new"
    by simp
  then show False
    using queue_facts(1) [OF assms(3)] assms(2) l by (metis disjoint_iff distinct_append last_in_set)
qed

text \<open>The walk granted all: the queue was reset, or new tasks have come.\<close>

lemma all_unlocks:
  assumes qu: "queue w qs" "qs \<noteq> []" and gr: "granted (unat most) (unat (data_of (prim_state w))) (opcodes w qs) = length qs"
    and b: "unat (data_of (prim_state w)) + transferred (opcodes w qs) \<le> 63"
    and i: "interfere (w, es) = (w3, es3)" and q3: "queue w3 (qs @ new)"
    and res: "\<And>q r. q \<in> K \<Longrightarrow> has_result r w q \<Longrightarrow> has_result r w3 q"
    and lk: "locked (prim_state w)" and rel: "rely K w w3" and True: "prim_state w3 = prim_state w"
  shows "round_ok K most w qs es
    (do { vs \<leftarrow> reset_queue (prim_state w) (start_vars h) (opcodes w qs) qs (w, es);
          end_round most (prim_state w) vs })"
proof -
  let ?d = "unat (data_of (prim_state w))" and ?ops = "opcodes w qs" and ?k = "length qs - 1"
  define x where "x = data_of (prim_state w) + count_word ?ops"
  define w4 where "w4 = w3\<lparr>prim_state := x\<rparr>"
  have "x \<le> DATA_MASK"
    using b unat_add_data [OF b] by (simp add: x_def DATA_MASK_eq word_le_nat_alt)
  note xv = small_views [OF this]
  have nn: "new = []"
  proof (rule queue_same_word [OF _ qu(2) q3])
    have "waiting w3 q \<and> next_entry_anchor (node w3 q) = next_entry_anchor (node w q)" if "q \<in> set qs" for q
      using rel lk queue_facts(2) [OF qu(1) that] unfolding rely_def by blast
    then show "queue w3 qs"
      by (intro queue_cong [OF qu(1)]) (simp_all add: True)
  qed
  have d4: "detached w4 (take (length qs) (qs @ [])) (drop (length qs) (qs @ []))"
  proof -
    have wt: "waiting w4 q" if "q \<in> set qs" for q
      using queue_facts(2) [OF q3] that by (simp add: w4_def waiting_def)
    have "chain w3 (anchor_addr (last qs)) (rev qs)"
      using queue_facts(4) [OF q3] queue_addr [OF q3] qu(2) by (simp add: nn)
    then have "chain w4 (anchor_addr (last qs)) (rev qs)"
      by (rule chain_cong [rotated]) (simp add: w4_def)
    then show ?thesis
      using wt xv qu(2) by (simp add: detached_def queue_def w4_def)
  qed
  have "drained K most w qs (fold (resolve 0) (rev (take (length qs) (qs @ []))) w4)"
  proof (rule drained_now [OF d4])
    show "has_result r w4 q" if "q \<in> K" "has_result r w q" for q r
      using res [OF that] by (simp add: w4_def has_result_def)
  qed (use gr xv in \<open>auto simp: w4_def\<close>)
  moreover have "(do { vs \<leftarrow> reset_queue (prim_state w) (start_vars h) ?ops qs (w, es);
      end_round most (prim_state w) vs }) = Some (fold (resolve 0) (rev qs) w4, es3)"
    using detached_resolve(1) [OF d4, where r = 0 and es = es3] True i qu(2)
    by (simp add: reset_queue_def compare_exchange_def end_round_def try_unlock_def w4_def x_def)
  ultimately show ?thesis
    unfolding round_ok_def by auto
qed

lemma all_retries:
  assumes qu: "queue w qs" "qs \<noteq> []" and gr: "granted (unat most) (unat (data_of (prim_state w))) (opcodes w qs) = length qs"
    and b: "unat (data_of (prim_state w)) + transferred (opcodes w qs) \<le> 63"
    and i: "interfere (w, es) = (w3, es3)" and q3: "queue w3 (qs @ new)"
    and res: "\<And>q r. q \<in> K \<Longrightarrow> has_result r w q \<Longrightarrow> has_result r w3 q"
    and bc: "bchain w p qs" and f3: "friendly K es3" and l3: "locked (prim_state w3)"
    and new: "\<forall>q \<in> set new. prev_entry (node w3 q) = 0" and dl: "data_of (prim_state w3) \<le> data_of (prim_state w)"
    and keep: "\<And>q. q \<in> set qs \<Longrightarrow>
           prev_entry (node w3 q) = prev_entry (node w q) \<and> opcode (node w3 q) = opcode (node w q)"
    and False: "prim_state w3 \<noteq> prim_state w"
  shows "round_ok K most w qs es
    (do { vs \<leftarrow> reset_queue (prim_state w) (start_vars h) (opcodes w qs) qs (w, es);
          end_round most (prim_state w) vs })"
proof -
  let ?d = "unat (data_of (prim_state w))" and ?ops = "opcodes w qs" and ?k = "length qs - 1"
  have nk: "(qs @ new) ! ?k = last qs" "take ?k (qs @ new) = butlast qs" "drop ?k (qs @ new) = last qs # new"
    using qu(2) by (cases qs rule: rev_cases; simp add: nth_append)+
  have lt: "length es3 < length es"
    using interfere_shrinks [OF i] False by auto
  let ?x = "last qs" and ?w4 = "cut (last qs) w3"
  let ?v = "(start_vars h)\<lparr>transferred_count := count_word (butlast ?ops),
    resolved_entry := granted_to qs ?k 0, head_entry := entry_addr ?x, reset_failed := True\<rparr>"
  have lx: "live w3 ?x"
    using queue_facts(3) [OF q3] qu(2) by simp
  note lo = links_only_keeps [OF links_only_cut [OF lx]]
  have "?k < length (qs @ new)"
    using qu(2) by (cases qs) auto
  then have d4: "detached ?w4 (butlast qs) ([?x] @ new)"
    using cut_detached [OF q3, of ?k] nk by simp
  have opc: "opcode (node ?w4 q) = opcode (node w q)" if "q \<in> set qs" for q
    using keep [OF that] lo(5) [of q] queue_facts(3) [OF q3, of q] that by simp
  have opg: "opcodes ?w4 (butlast qs) = butlast ?ops"
    using opc by (auto simp: map_butlast [symmetric] dest: in_set_butlastD)
  have ops: "?ops = butlast ?ops @ [opcode (node w ?x)]"
    using qu(2) by (cases qs rule: rev_cases) simp_all
  then have tb: "transferred ?ops = transferred (butlast ?ops) + acquired (opcode (node w ?x))"
    using transferred_simps(3) [of "butlast ?ops" "[opcode (node w ?x)]"] by simp
  have p4: "prev_entry (node ?w4 q) = prev_entry (node w3 q)" if "q \<in> set (qs @ new)" for q
    using queue_facts(3) [OF q3 that] lx by simp
  have "prev_entry (node w3 ?x) = 0"
    using bchain_linked(2) [OF bc, of 0] keep [of ?x] qu(2) by simp
  then have px: "prev_entry (node ?w4 (last [?x])) = 0"
    using p4 [of ?x] qu(2) by simp
  have pn: "\<forall>q \<in> set new. prev_entry (node ?w4 q) = 0"
    using p4 new by (metis Un_iff set_append)
  have b4: "unat (data_of (prim_state ?w4)) + transferred (opcodes ?w4 (butlast qs)) \<le> 63"
    using b dl tb unfolding opg by (simp add: word_le_nat_alt)
  have gt: "granted_to qs ?k 0 = (if butlast qs = [] then 0 else entry_addr (last (butlast qs)))"
    using granted_to_take [of ?k qs] by (simp add: butlast_conv_take)
  obtain w' new' where rr:
    "(case (case fetch_add (transferred_count ?v) (?w4, es3) of (prev, s) \<Rightarrow> (prev + transferred_count ?v, s)) of
      (state, s) \<Rightarrow>
      do { (u, s) \<leftarrow> iter_forward False (set_result_closure 0) (resolved_entry ?v) () s;
           process_wait_queue_loop most (head_entry ?v) state s }) =
     process_wait_queue_loop most (entry_addr (hd [?x])) (prim_state w') (w', snd (interfere (?w4, es3)))"
    "in_progress w' (entry_addr (hd [?x])) ([?x] @ new @ new')"
    "unat (data_of (prim_state w')) \<le> unat (data_of (prim_state ?w4)) + transferred (opcodes ?w4 (butlast qs))"
    "\<And>q. q \<in> set ([?x] @ new) \<Longrightarrow> opcode (node w' q) = opcode (node ?w4 q)"
    "\<And>q. q \<in> set (butlast qs) \<Longrightarrow> has_result 0 w' q"
    "\<And>q r. q \<in> K \<Longrightarrow> has_result r ?w4 q \<Longrightarrow> has_result r w' q"
    by (rule retry_round [OF d4 _ _ f3 _ px pn b4, of ?v most]) (use l3 gt opg in auto)
  have "(do { vs \<leftarrow> reset_queue (prim_state w) (start_vars h) ?ops qs (w, es);
      end_round most (prim_state w) vs }) =
    process_wait_queue_loop most (entry_addr (hd [?x])) (prim_state w') (w', snd (interfere (?w4, es3)))"
    using rr(1) False i lx
    by (simp add: reset_queue_def compare_exchange_def end_round_def try_unlock_def fields_live)
  moreover have "drained K most w qs z" if "drained K most w' (drop ?k qs @ new @ new') z" for z
  proof (rule drained_step [OF that])
    have "can_grant (unat most) (?d + transferred (butlast ?ops)) (opcode (node w ?x))"
      using granted_prefix [of ?k "unat most" ?d ?ops] qu(2) gr
      by (simp add: butlast_conv_take last_conv_nth)
    moreover have "unat (data_of (prim_state w')) \<le> ?d + transferred (butlast ?ops)"
      using rr(3) dl unfolding opg by (simp add: word_le_nat_alt)
    ultimately have "can_grant (unat most) (unat (data_of (prim_state w'))) (opcode (node w' ?x))"
      using rr(4) [of ?x] opc [of ?x] qu(2) by (auto simp: can_grant_def)
    then show "granted (unat most) ?d ?ops \<le>
        ?k + granted (unat most) (unat (data_of (prim_state w'))) (opcodes w' (drop ?k qs @ new @ new'))"
      using qu(2) gr by (cases qs rule: rev_cases) auto
    show "opcode (node w' q) = opcode (node w q)" if "q \<in> set (drop ?k qs)" for q
      using that rr(4) [of ?x] opc [of ?x] qu(2) by (cases qs rule: rev_cases) auto
    show "has_result 0 w' q" if "q \<in> set (take ?k qs)" for q
      using that rr(5) by (simp add: butlast_conv_take)
    show "has_result r w' q" if "q \<in> K" "has_result r w q" for q r
      using that res rr(6) lo(3) by blast
  qed simp
  moreover have "length (snd (interfere (?w4, es3))) < length es" "friendly K (snd (interfere (?w4, es3)))"
    using lt interfere_le [of ?w4 es3] friendly_interfere(2) [OF f3] by auto
  moreover have "[?x] @ new @ new' = drop ?k qs @ new @ new'"
    using qu(2) by (cases qs rule: rev_cases) auto
  ultimately show ?thesis
    unfolding round_ok_def using rr(2) by metis
qed

lemma all_round:
  assumes "queue w qs" "bchain w p qs" "locked (prim_state w)" "friendly K es" "unat most \<le> 63" "qs \<noteq> []"
    and "granted (unat most) (unat (data_of (prim_state w))) (opcodes w qs) = length qs"
  shows "round_ok K most w qs es
    (do { vs \<leftarrow> reset_queue (prim_state w) (start_vars h) (opcodes w qs) qs (w, es);
          end_round most (prim_state w) vs })"
proof -
  let ?d = "unat (data_of (prim_state w))" and ?ops = "opcodes w qs" and ?k = "length qs - 1"
  have ok: "\<forall>opc \<in> set ?ops. opcode_ok opc"
    using queue_facts(2) [OF assms(1)] by (auto simp: waiting_def)
  have b: "?d + transferred ?ops \<le> 63"
    using granted_bound [OF unat_data_of_le [of "prim_state w"] assms(5) ok] assms(7) by simp
  obtain w3 es3 where i: "interfere (w, es) = (w3, es3)"
    by (metis surj_pair)
  have f3: "friendly K es3" and rel: "rely K w w3"
    using friendly_interfere [OF assms(4), of w] i by auto
  have "detached w [] qs"
    using assms(1) by (simp add: detached_def)
  from detached_rely [OF this assms(3) rel]
  obtain new where d3: "detached w3 [] (qs @ new)" and new: "\<forall>q \<in> set new. prev_entry (node w3 q) = 0"
    and l3: "locked (prim_state w3)" and dl: "data_of (prim_state w3) \<le> data_of (prim_state w)"
    and keep: "\<And>q. q \<in> set qs \<Longrightarrow>
           prev_entry (node w3 q) = prev_entry (node w q) \<and> opcode (node w3 q) = opcode (node w q)"
    and res: "\<And>q r. q \<in> K \<Longrightarrow> has_result r w q \<Longrightarrow> has_result r w3 q"
    by auto
  have q3: "queue w3 (qs @ new)"
    using d3 by (simp add: detached_def)
  show ?thesis
  proof (cases "prim_state w3 = prim_state w")
    case True
    show ?thesis
      by (rule all_unlocks [OF assms(1,6,7) b i q3 res assms(3) rel True])
  next
    case False
    show ?thesis
      by (rule all_retries [OF assms(1,6,7) b i q3 res assms(2) f3 l3 new dl keep False])
  qed
qed

section \<open>Processing under interference\<close>

lemma round_step:
  assumes "in_progress w head qs" "unat most \<le> 63" "friendly K es"
  shows "round_ok K most w qs es (process_wait_queue_loop most head (prim_state w) (w, es))"
proof -
  from assms(1) have q: "qs \<noteq> []" "locked (prim_state w)" "queue w qs"
    by (auto simp: in_progress_def)
  obtain w1 where w1: "links_only w w1" "queue w1 qs" "bchain w1 (entry_addr (hd qs)) qs"
    "process_wait_queue_loop most head (prim_state w) (w, es) =
      do { vs \<leftarrow> iter_backward (grant_entry most (prim_state w)) (entry_addr (hd qs))
                   (start_vars (entry_addr (hd qs))) (w1, es);
           end_round most (prim_state w) vs }"
    using process_round [OF assms(1)] by metis
  note lo = links_only_keeps [OF w1(1)]
  have ops: "opcodes w1 qs = opcodes w qs"
    using lo(5) queue_facts(3) [OF q(3)] by simp
  have ok: "\<forall>q \<in> set qs. opcode_ok (opcode (node w1 q))"
    using queue_facts(2) [OF w1(2)] by (simp add: waiting_def)
  let ?n = "granted (unat most) (unat (data_of (prim_state w1))) (opcodes w1 qs)"
  have r: "round_ok K most w1 qs es (process_wait_queue_loop most head (prim_state w) (w, es))"
  proof (cases "?n < length qs")
    case True
    have "iter_backward (grant_entry most (prim_state w)) (entry_addr (hd qs)) (start_vars (entry_addr (hd qs))) (w1, es) =
      Some ((start_vars (entry_addr (hd qs)))\<lparr>transferred_count := count_word (take ?n (opcodes w1 qs)),
            resolved_entry := granted_to qs ?n 0, head_entry := entry_addr (qs ! ?n)\<rparr>, (cut (qs ! ?n) w1, es))"
      using grant_walk_stop [OF w1(3) unat_data_of_le [of "prim_state w"] assms(2) ok,
          where v = "start_vars (entry_addr (hd qs))" and n = ?n and es = es and state = "prim_state w"] True lo(1)
      by simp
    then show ?thesis
      using stop_round [OF w1(2,3) _ assms(3,2) refl True] q(2) lo(1) w1(4) by simp
  next
    case False
    then have n: "?n = length qs"
      using granted_le [of "unat most" "unat (data_of (prim_state w1))" "opcodes w1 qs"] by simp
    have "iter_backward (grant_entry most (prim_state w)) (entry_addr (hd qs)) (start_vars (entry_addr (hd qs))) (w1, es) =
      reset_queue (prim_state w) (start_vars (entry_addr (hd qs))) (opcodes w1 qs) qs (w1, es)"
      using grant_walk_all [OF w1(3) unat_data_of_le [of "prim_state w"] assms(2) ok,
          where v = "start_vars (entry_addr (hd qs))" and es = es and state = "prim_state w"] n q(1) lo(1)
      by simp
    then show ?thesis
      using all_round [OF w1(2,3) _ assms(3,2) q(1) n] q(2) lo(1) w1(4) by simp
  qed
  have "drained K most w qs z" if "drained K most w1 qs z" for z
  proof (rule drained_step [of _ _ w1 0 _ "[]"])
    show "granted (unat most) (unat (data_of (prim_state w))) (opcodes w qs) \<le>
        0 + granted (unat most) (unat (data_of (prim_state w1))) (opcodes w1 (drop 0 qs @ []))"
      unfolding drop_0 append_Nil2 ops lo(1) by simp
  qed (use that lo queue_facts(3) [OF q(3)] in auto)
  with r show ?thesis
    unfolding round_ok_def by blast
qed

lemma process_loop_drains:
  assumes "in_progress w head qs" "unat most \<le> 63" "friendly K es"
  shows "\<exists>w' es'. process_wait_queue_loop most head (prim_state w) (w, es) = Some (w', es') \<and>
           drained K most w qs w'"
  using assms(1,3)
proof (induction "length es" arbitrary: w head qs es rule: less_induct)
  case less
  from round_step [OF less.prems(1) assms(2) less.prems(2)]
  consider "\<exists>w' es'. process_wait_queue_loop most head (prim_state w) (w, es) = Some (w', es') \<and> drained K most w qs w'"
    | w2 es2 head' k new where "length es2 < length es" "friendly K es2"
      "process_wait_queue_loop most head (prim_state w) (w, es) =
         process_wait_queue_loop most head' (prim_state w2) (w2, es2)"
      "in_progress w2 head' (drop k qs @ new)"
      "\<forall>w'. drained K most w2 (drop k qs @ new) w' \<longrightarrow> drained K most w qs w'"
    unfolding round_ok_def by blast
  then show ?case
  proof cases
    case 2
    with less.hyps [OF 2(1) 2(4) 2(2)] show ?thesis by metis
  qed
qed


section \<open>Processing alone\<close>

lemma fold_resolve_others:
  "detached w gs rs \<Longrightarrow> live w q \<Longrightarrow> q \<notin> set gs \<Longrightarrow>
   live (fold (resolve r) (rev gs) w) q \<and> node (fold (resolve r) (rev gs) w) q = node w q"
  unfolding detached_def using fold_resolve_frame(1,5) [of "rev gs" w q r] by auto

text \<open>The whole effect of \<open>process_wait_queue\<close> when no other thread acts: the granted prefix gets the
  result 0, their resources are added to the data field, the rest stays queued and nothing else changes.\<close>

definition serviced :: "usize \<Rightarrow> world \<Rightarrow> usize list \<Rightarrow> world \<Rightarrow> bool" where
  "serviced most w qs w' \<longleftrightarrow>
     (let n = granted (unat most) (unat (data_of (prim_state w))) (opcodes w qs) in
      \<not> locked (prim_state w') \<and> queue w' (drop n qs) \<and>
      (drop n qs \<noteq> [] \<longrightarrow> prev_entry (node w' (last qs)) = prev_entry (node w (last qs))) \<and>
      data_of (prim_state w') = data_of (prim_state w) + count_word (take n (opcodes w qs)) \<and>
      (\<forall>q \<in> set (take n qs). has_result 0 w' q) \<and>
      (\<forall>q \<in> set qs. opcode (node w' q) = opcode (node w q)) \<and>
      (\<forall>q. live w q \<longrightarrow> q \<notin> set qs \<longrightarrow> live w' q \<and> node w' q = node w q) \<and>
      events w' = events w @ wakeups w (rev (take n qs)) \<and>
      (\<forall>q \<in> set (take n qs). wakeup w' q = []) \<and> (\<forall>q \<in> set (drop n qs). wakeup w' q = wakeup w q))"

lemma servicedI:
  assumes "detached w2 (take n qs) (drop n qs)" "n = granted (unat most) (unat (data_of (prim_state w))) (opcodes w qs)"
    and "\<not> locked (prim_state w2)" "data_of (prim_state w2) = data_of (prim_state w) + count_word (take n (opcodes w qs))"
    and "\<And>q. q \<in> set qs \<Longrightarrow> live w2 q \<and> opcode (node w2 q) = opcode (node w q)"
    and "\<And>q. live w q \<Longrightarrow> q \<notin> set qs \<Longrightarrow> live w2 q \<and> node w2 q = node w q"
    and "drop n qs \<noteq> [] \<Longrightarrow> prev_entry (node w2 (last qs)) = prev_entry (node w (last qs))"
    and "events w2 = events w" "\<And>q. q \<in> set qs \<Longrightarrow> wakeup w2 q = wakeup w q"
  shows "serviced most w qs (fold (resolve 0) (rev (take n qs)) w2)"
proof -
  note r = detached_resolve [OF assms(1), where r = 0]
  have lg: "\<forall>q \<in> set (rev (take n qs)). live w2 q"
    using assms(5) by (auto dest: in_set_takeD)
  have opc: "opcode (node (fold (resolve 0) (rev (take n qs)) w2) q) = opcode (node w q)" if "q \<in> set qs" for q
    using fold_resolve_frame(4) [OF lg, of q] assms(5) [OF that] by simp
  have others: "live (fold (resolve 0) (rev (take n qs)) w2) q \<and> node (fold (resolve 0) (rev (take n qs)) w2) q = node w q"
    if "live w q" "q \<notin> set qs" for q
    using fold_resolve_others [OF assms(1), of q] assms(6) [OF that] that by (metis in_set_takeD)
  have "prev_entry (node (fold (resolve 0) (rev (take n qs)) w2) (last qs)) = prev_entry (node w (last qs))"
    if "drop n qs \<noteq> []"
  proof -
    have "last qs \<in> set (drop n qs)"
      using that by (metis last_drop last_in_set drop_eq_Nil2 linorder_not_le)
    then show ?thesis
      using r(6) [of "last qs"] assms(7) that by simp
  qed
  moreover have "wakeups w2 (rev (take n qs)) = wakeups w (rev (take n qs))"
    by (auto intro!: arg_cong [of _ _ concat] assms(9) dest: in_set_takeD)
  moreover have "wakeup (fold (resolve 0) (rev (take n qs)) w2) q = wakeup w q" if "q \<in> set (drop n qs)" for q
    using r(6) [OF that] assms(9) [OF in_set_dropD [OF that]] wakeup_same [of "fold (resolve 0) (rev (take n qs)) w2" q w2] by simp
  moreover have "distinct (rev (take n qs))"
    using assms(1) by (auto simp: detached_def dest: chain_distinct)
  note fold_resolve_wakeup [OF lg this, where r = 0]
  ultimately show ?thesis
    unfolding serviced_def Let_def assms(2) [symmetric]
    using r(2,3,4) opc others assms(3,4,8) by auto
qed

text \<open>The list is linked in both directions and the round goes on from its head.\<close>

definition linked_up :: "usize \<Rightarrow> world \<Rightarrow> usize list \<Rightarrow> world \<Rightarrow> bool" where
  "linked_up most w qs w1 \<longleftrightarrow> links_only w w1 \<and> queue w1 qs \<and> bchain w1 (entry_addr (hd qs)) qs \<and>
     (\<forall>q. live w q \<and> q \<notin> set qs \<longrightarrow> node w1 q = node w q) \<and>
     process_wait_queue most (prim_state w) (w, []) =
       do { vs \<leftarrow> iter_backward (grant_entry most (prim_state w)) (entry_addr (hd qs)) (start_vars (entry_addr (hd qs))) (w1, []);
            end_round most (prim_state w) vs }"

lemma linked_up_facts:
  assumes "linked_up most w qs w1" "queue w qs"
  shows "q \<in> set qs \<Longrightarrow> live w1 q \<and> opcode (node w1 q) = opcode (node w q)" and "opcodes w1 qs = opcodes w qs"
    and "\<forall>q \<in> set qs. opcode_ok (opcode (node w1 q))" and "\<forall>opc \<in> set (opcodes w qs). opcode_ok opc"
    and "prim_state w1 = prim_state w"
proof -
  have w1: "links_only w w1" "queue w1 qs"
    using assms(1) by (simp_all add: linked_up_def)
  note lo = links_only_keeps [OF w1(1)]
  have live: "live w1 q \<and> opcode (node w1 q) = opcode (node w q)" if "q \<in> set qs" for q
    using lo(4,5) queue_facts(3) [OF assms(2) that] by auto
  then show "q \<in> set qs \<Longrightarrow> live w1 q \<and> opcode (node w1 q) = opcode (node w q)" and "opcodes w1 qs = opcodes w qs"
    by simp_all
  show ok: "\<forall>q \<in> set qs. opcode_ok (opcode (node w1 q))"
    using queue_facts(2) [OF w1(2)] by (simp add: waiting_def)
  then show "\<forall>opc \<in> set (opcodes w qs). opcode_ok opc"
    using live by auto
  show "prim_state w1 = prim_state w"
    by (rule lo(1))
qed

lemma alone_stops:
  assumes li: "linked_up most w qs w1" and qu: "queue w qs" "qs \<noteq> []" "prev_entry (node w (last qs)) = 0" and mo: "unat most \<le> 63"
    and n_def: "n = granted (unat most) (unat (data_of (prim_state w))) (opcodes w qs)" and lt: "n < length qs"
    and x_def: "x = data_of (prim_state w) + count_word (take n (opcodes w qs))" and small: "x \<le> DATA_MASK"
  shows "\<exists>w'. process_wait_queue most (prim_state w) (w, []) = Some (w', []) \<and> serviced most w qs w'"
proof -
  note f = linked_up_facts [OF li qu(1)]
  have w1: "queue w1 qs" "bchain w1 (entry_addr (hd qs)) qs" "\<forall>q. live w q \<and> q \<notin> set qs \<longrightarrow> node w1 q = node w q" and lo: "links_only w w1"
    using li by (simp_all add: linked_up_def)
  define w2 where "w2 = (cut (qs ! n) w1)\<lparr>prim_state := (prim_state w AND ADDR_MASK) OR x\<rparr>"
  note xv = replace_data_views [OF small, of "prim_state w"]
  have lx: "live w1 (qs ! n)"
    using f(1) lt by simp
  have d: "detached w2 (take n qs) (drop n qs)"
    unfolding w2_def using detached_prim [OF cut_detached [OF w1(1) lt]] xv f(5) by simp
  have "iter_backward (grant_entry most (prim_state w)) (entry_addr (hd qs)) (start_vars (entry_addr (hd qs))) (w1, []) =
    Some ((start_vars (entry_addr (hd qs)))\<lparr>transferred_count := count_word (take n (opcodes w qs)),
          resolved_entry := granted_to qs n 0, head_entry := entry_addr (qs ! n)\<rparr>, (cut (qs ! n) w1, []))"
    using grant_walk_stop [OF w1(2) unat_data_of_le [of "prim_state w"] mo f(3),
        where v = "start_vars (entry_addr (hd qs))" and n = n and es = "[]" and state = "prim_state w"] lt f(2)
    by (simp add: n_def)
  moreover have "fetch_update (unlock_closure (data_of (prim_state w)) (count_word (take n (opcodes w qs))))
      (cut (qs ! n) w1, []) = (Ok (prim_state w), (w2, []))"
    using f(5) by (simp add: atomics unlock_closure_def w2_def x_def data_of_def Let_def)
  ultimately have "process_wait_queue most (prim_state w) (w, []) = Some (fold (resolve 0) (rev (take n qs)) w2, [])"
    using detached_resolve(1) [OF d, where r = 0 and es = "[]"] granted_to_take [of n qs] lt li
    by (simp add: linked_up_def end_round_def try_unlock_def del: take_eq_Nil)
  moreover have "serviced most w qs (fold (resolve 0) (rev (take n qs)) w2)"
  proof (rule servicedI [OF d n_def])
    show "live w2 q \<and> opcode (node w2 q) = opcode (node w q)" if "q \<in> set qs" for q
      using f(1) [OF that] lx by (auto simp: w2_def)
    show "live w2 q \<and> node w2 q = node w q" if "live w q" "q \<notin> set qs" for q
      using w1(3) that links_only_keeps(4) [OF lo, of q] lx lt by (auto simp: w2_def)
    show "prev_entry (node w2 (last qs)) = prev_entry (node w (last qs))"
      using bchain_linked(2) [OF w1(2), of 0] qu(2,3) lx f(1) [of "last qs"] by (auto simp: w2_def)
    show "wakeup w2 q = wakeup w q" if "q \<in> set qs" for q
      using links_only_keeps(6) [OF lo, of q] links_only_keeps(6) [OF links_only_cut [OF lx], of q] f(1) [OF that]
        queue_facts(3) [OF qu(1) that] by (simp add: w2_def)
    show "events w2 = events w"
      using links_only_keeps(7) [OF lo] links_only_keeps(7) [OF links_only_cut [OF lx]] by (simp add: w2_def)
  qed (use xv in \<open>simp_all add: w2_def x_def\<close>)
  ultimately show ?thesis by blast
qed

lemma alone_all:
  assumes li: "linked_up most w qs w1" and qu: "queue w qs" "qs \<noteq> []" and mo: "unat most \<le> 63"
    and n: "length qs = granted (unat most) (unat (data_of (prim_state w))) (opcodes w qs)"
    and x_def: "x = data_of (prim_state w) + count_word (opcodes w qs)" and small: "x \<le> DATA_MASK"
  shows "\<exists>w'. process_wait_queue most (prim_state w) (w, []) = Some (w', []) \<and> serviced most w qs w'"
proof -
  note f = linked_up_facts [OF li qu(1)]
  have w1: "queue w1 qs" "bchain w1 (entry_addr (hd qs)) qs" "\<forall>q. live w q \<and> q \<notin> set qs \<longrightarrow> node w1 q = node w q" and lo: "links_only w w1"
    using li by (simp_all add: linked_up_def)
  define w2 where "w2 = w1\<lparr>prim_state := x\<rparr>"
  note xv = small_views [OF small]
  have "chain w1 (anchor_addr (last qs)) (rev qs)"
    using queue_facts(4) [OF w1(1)] queue_addr [OF w1(1) qu(2)] by simp
  then have "chain w2 (anchor_addr (last qs)) (rev qs)"
    by (rule chain_cong [rotated]) (simp add: w2_def)
  moreover have "waiting w2 q" if "q \<in> set qs" for q
    using queue_facts(2) [OF w1(1) that] by (simp add: w2_def waiting_def)
  ultimately have d: "detached w2 qs []"
    using xv qu(2) by (simp add: detached_def queue_def w2_def)
  have "iter_backward (grant_entry most (prim_state w)) (entry_addr (hd qs)) (start_vars (entry_addr (hd qs))) (w1, []) =
    reset_queue (prim_state w) (start_vars (entry_addr (hd qs))) (opcodes w qs) qs (w1, [])"
    using grant_walk_all [OF w1(2) unat_data_of_le [of "prim_state w"] mo f(3),
        where v = "start_vars (entry_addr (hd qs))" and es = "[]" and state = "prim_state w"] n f(2) qu(2)
    by simp
  then have "process_wait_queue most (prim_state w) (w, []) = Some (fold (resolve 0) (rev qs) w2, [])"
    using detached_resolve(1) [OF d, where r = 0 and es = "[]"] li f(5) qu(2)
    by (simp add: linked_up_def reset_queue_def atomics end_round_def try_unlock_def w2_def x_def)
  moreover have "serviced most w qs (fold (resolve 0) (rev (take (length qs) qs)) w2)"
    by (rule servicedI [of _ "length qs", OF _ n]) (use d xv f(1) w1(3) links_only_keeps(4,6,7) [OF lo] queue_facts(3) [OF qu(1)] in \<open>auto simp: w2_def x_def\<close>)
  ultimately show ?thesis by auto
qed

lemma process_alone:
  assumes "locked (prim_state w)" "queue w qs" "qs \<noteq> []" "prev_entry (node w (last qs)) = 0" "unat most \<le> 63"
  shows "\<exists>w'. process_wait_queue most (prim_state w) (w, []) = Some (w', []) \<and> serviced most w qs w'"
proof -
  have "in_progress w 0 qs"
    using assms by (simp add: in_progress_def)
  then obtain w1 where li: "linked_up most w qs w1"
    using process_round [where es = "[]"] unfolding process_wait_queue_def linked_up_def by metis
  let ?n = "granted (unat most) (unat (data_of (prim_state w))) (opcodes w qs)"
  let ?x = "data_of (prim_state w) + count_word (take ?n (opcodes w qs))"
  have b: "unat (data_of (prim_state w)) + transferred (take ?n (opcodes w qs)) \<le> 63"
    by (rule granted_bound [OF unat_data_of_le assms(5) linked_up_facts(4) [OF li assms(2)]])
  then have small: "?x \<le> DATA_MASK"
    using unat_add_data [OF b] by (simp add: DATA_MASK_eq word_le_nat_alt)
  show ?thesis
  proof (cases "?n < length qs")
    case True
    then show ?thesis
      using alone_stops [OF li assms(2-5) refl _ refl small] by blast
  next
    case False
    then have n: "length qs = ?n"
      using granted_le [of "unat most" "unat (data_of (prim_state w))" "opcodes w qs"] by simp
    have "take ?n (opcodes w qs) = opcodes w qs"
      by (simp flip: n)
    with alone_all [OF li assms(2,3,5) n refl] small show ?thesis
      by simp
  qed
qed

end
