(* ===== verification/Resource_Spec.thy ===== *)
theory Resource_Spec
  imports Process_Queue
begin

text \<open>
  What the shared operations of \<open>src/sync_primitive.rs\<close> promise to the primitives.  The abstract resource
  is a number of units in use and a line of waiting tasks; \<open>represents\<close> relates it to the state word and
  the linked wait queue.  The locale \<open>sync_primitive\<close> stands for the trait: its lemmas say that releasing
  takes effect at one moment and hands resources over in line order while other threads act
  (\<open>release_released\<close>), and refines the abstract release when none does (\<open>release_refines\<close>).
\<close>

section \<open>Well-formed primitives\<close>

definition well_formed :: "world \<Rightarrow> usize list \<Rightarrow> bool" where
  "well_formed w qs \<longleftrightarrow> queue w qs \<and> (qs \<noteq> [] \<longrightarrow> prev_entry (node w (last qs)) = 0)"

definition env_ok :: "usize set \<Rightarrow> env \<Rightarrow> bool" where
  "env_ok K es \<longleftrightarrow> friendly K es \<and>
     (\<forall>f \<in> set es. \<forall>w qs. well_formed w qs \<longrightarrow> (\<exists>qs'. well_formed (f w) qs'))"

definition acts :: "sys \<Rightarrow> sys \<Rightarrow> bool" where
  "acts s s' \<longleftrightarrow> (\<exists>k. (interfere ^^ k) s = s')"

definition release_effect ::
  "usize set \<Rightarrow> usize \<Rightarrow> Opcode \<Rightarrow> world \<Rightarrow> env \<Rightarrow> usize list \<Rightarrow> (bool \<times> sys) option \<Rightarrow> bool" where
  "release_effect K most opc w es qs out \<longleftrightarrow>
     (if \<not> can_release opc (prim_state w) then out = Some (False, (w, es))
      else if qs = [] \<or> locked (prim_state w) then
        out = Some (True, (w\<lparr>prim_state := prim_state w - acquired_count opc\<rparr>, es))
      else
        (\<exists>w' es'. out = Some (True, (w', es')) \<and>
           drained K most (w\<lparr>prim_state := (prim_state w OR LOCKED_FLAG) - acquired_count opc\<rparr>) qs w'))"

definition released ::
  "usize set \<Rightarrow> usize \<Rightarrow> Opcode \<Rightarrow> sys \<Rightarrow> (bool \<times> sys) option \<Rightarrow> bool" where
  "released K most opc s out \<longleftrightarrow>
     (\<exists>w es qs. acts s (w, es) \<and> well_formed w qs \<and> release_effect K most opc w es qs out)"

lemma acts_refl [simp]: "acts s s"
  unfolding acts_def by (rule exI [of _ 0]) simp

lemma acts_interfere: "acts (interfere s) s' \<Longrightarrow> acts s s'"
  unfolding acts_def by (metis funpow_Suc_right o_apply)

lemma env_ok_interfere:
  assumes "env_ok K es" "well_formed w qs"
  obtains w' es' qs' where "interfere (w, es) = (w', es')" "env_ok K es'" "well_formed w' qs'"
  using assms by (cases es) (auto simp: env_ok_def friendly_def)

lemma released_later: "released K most opc (interfere s) out \<Longrightarrow> released K most opc s out"
  unfolding released_def using acts_interfere by blast

lemma queue_prim:
  assumes "queue w qs" "addr_of x = addr_of (prim_state w)"
  shows "queue (w\<lparr>prim_state := x\<rparr>) qs"
  by (rule queue_cong [OF assms(1)]) (use assms queue_facts(2) [OF assms(1)] in \<open>auto simp: waiting_def\<close>)

lemma well_formed_prim:
  "well_formed w qs \<Longrightarrow> addr_of x = addr_of (prim_state w) \<Longrightarrow> well_formed (w\<lparr>prim_state := x\<rparr>) qs"
  by (simp add: well_formed_def queue_prim)

lemma queue_empty_iff: "queue w qs \<Longrightarrow> addr_of (prim_state w) = 0 \<longleftrightarrow> qs = []"
  by (cases qs rule: rev_cases) (auto simp: queue_def)

lemma locked_release_views:
  assumes "can_release opc state"
  defines "x \<equiv> (state OR LOCKED_FLAG) - acquired_count opc"
  shows "addr_of x = addr_of state" "locked x" "data_of x = data_of state - acquired_count opc"
proof -
  have "can_release opc (state OR LOCKED_FLAG)"
    using assms(1) can_release_data [of "state OR LOCKED_FLAG" state] by (simp add: or_locked_views)
  then show "addr_of x = addr_of state" "locked x" "data_of x = data_of state - acquired_count opc"
    by (simp_all add: x_def release_views or_locked_views)
qed

lemma release_loop_unfold:
  "release_loop most state opc s =
     (if \<not> can_release opc state then Some (False, s)
      else if addr_of state = 0 \<or> locked state then
        (case compare_exchange state (state - acquired_count opc) s of
           (Ok _, s) \<Rightarrow> Some (True, s)
         | (Err new_state, s) \<Rightarrow> release_loop most new_state opc s)
      else
        (case compare_exchange state ((state OR LOCKED_FLAG) - acquired_count opc) s of
           (Ok _, s) \<Rightarrow> do { s \<leftarrow> process_wait_queue most ((state OR LOCKED_FLAG) - acquired_count opc) s; Some (True, s) }
         | (Err new_state, s) \<Rightarrow> release_loop most new_state opc s))"
  by (subst release_loop.simps) (simp add: addr_of_def locked_def Let_def)

section \<open>The interface of the primitives\<close>

text \<open>The trait \<open>SyncPrimitive\<close>: what the shared operations guarantee for every primitive whose
  \<open>max_shared_owners\<close> fits the data field.\<close>

locale sync_primitive =
  fixes most :: usize
  assumes most_le: "unat most \<le> 63"
begin

lemma process_drains:
  assumes "well_formed w qs" "qs \<noteq> []" "locked (prim_state w)" "friendly K es"
  shows "\<exists>w' es'. process_wait_queue most (prim_state w) (w, es) = Some (w', es') \<and> drained K most w qs w'"
proof -
  have "in_progress w 0 qs"
    using assms by (simp add: in_progress_def well_formed_def)
  from process_loop_drains [OF this most_le assms(4)] show ?thesis
    by (simp add: process_wait_queue_def)
qed

text \<open>The exchange of the state word succeeds.\<close>

lemma release_here:
  assumes wf: "well_formed w1 qs1" and fr: "friendly K es1" and i: "interfere s = (w1, es1)" and can: "can_release opc (prim_state w1)"
  shows "released K most opc s (release_loop most (prim_state w1) opc s)"
proof -
  let ?state = "prim_state w1"
  let ?x = "(?state OR LOCKED_FLAG) - acquired_count opc"
  let ?w2 = "w1\<lparr>prim_state := ?x\<rparr>"
  have a1: "acts s (w1, es1)"
    using acts_interfere [of s] i by simp
  have mt: "addr_of ?state = 0 \<longleftrightarrow> qs1 = []"
    using wf queue_empty_iff by (auto simp: well_formed_def)
  show ?thesis
  proof (cases "qs1 = [] \<or> locked ?state")
    case True
    then have "release_loop most ?state opc s = Some (True, (w1\<lparr>prim_state := ?state - acquired_count opc\<rparr>, es1))"
      using i can mt by (subst release_loop_unfold) (auto simp: compare_exchange_def)
    then show ?thesis
      using a1 wf can True unfolding released_def
      by (intro exI [of _ w1] exI [of _ es1] exI [of _ qs1]) (simp add: release_effect_def)
  next
    case False
    note v = locked_release_views [OF can]
    have "well_formed ?w2 qs1"
      using well_formed_prim [OF wf] v(1) by simp
    then obtain w' es' where p: "process_wait_queue most ?x (?w2, es1) = Some (w', es')" "drained K most ?w2 qs1 w'"
      using process_drains [of ?w2 qs1 K es1] False v(2) fr by auto
    have "release_loop most ?state opc s = Some (True, (w', es'))"
      using False can i mt p(1) by (subst release_loop_unfold) (simp add: compare_exchange_def)
    then show ?thesis
      using a1 wf p(2) False can unfolding released_def
      by (intro exI [of _ w1] exI [of _ es1] exI [of _ qs1]) (simp add: release_effect_def)
  qed
qed

lemma release_released:
  "well_formed w qs \<Longrightarrow> env_ok K es \<Longrightarrow> state = prim_state w \<Longrightarrow>
   released K most opc (w, es) (release_loop most state opc (w, es))"
proof (induction "length es" arbitrary: w es qs state rule: less_induct)
  case less
  obtain w1 es1 qs1 where i: "interfere (w, es) = (w1, es1)" "env_ok K es1" "well_formed w1 qs1"
    using env_ok_interfere [OF less.prems(2,1)] by metis
  consider "\<not> can_release opc state" | "can_release opc state" "prim_state w1 = state" | "can_release opc state" "prim_state w1 \<noteq> state"
    by blast
  then show ?case
  proof cases
    case 1
    then show ?thesis
      using less.prems unfolding released_def
      by (intro exI [of _ w] exI [of _ es] exI [of _ qs]) (simp add: release_loop_unfold release_effect_def)
  next
    case 2
    then show ?thesis
      using release_here [OF i(3) _ i(1), of K opc] i(2) by (auto simp: env_ok_def)
  next
    case 3
    then have "release_loop most state opc (w, es) = release_loop most (prim_state w1) opc (w1, es1)"
      using i(1) by (subst release_loop_unfold) (simp add: compare_exchange_def)
    moreover have "length es1 < length es"
      using interfere_shrinks [OF i(1)] 3 less.prems(3) by auto
    from less.hyps [OF this i(3,2) refl]
    have "released K most opc (w, es) (release_loop most (prim_state w1) opc (w1, es1))"
      using released_later [of K most opc "(w, es)"] i(1) by simp
    ultimately show ?thesis
      by simp
  qed
qed

text \<open>After a first access that did not release, the loop goes on with the value it saw.\<close>

lemma release_slow:
  assumes "interfere (w, es) = (w1, es1)" "well_formed w1 qs" "env_ok K es1"
  shows "released K most opc (w, es) (release_loop most (prim_state w1) opc (w1, es1))"
  using released_later [of K most opc "(w, es)"] release_released [OF assms(2,3) refl] assms(1) by simp

end

lemma released_fast:
  assumes "interfere s = (w, es)" "well_formed w qs" "can_release opc (prim_state w)" "addr_of (prim_state w) = 0"
    and "x = prim_state w - acquired_count opc"
  shows "released K most opc s (Some (True, (w\<lparr>prim_state := x\<rparr>, es)))"
proof -
  have "qs = []"
    using assms(2,4) queue_empty_iff by (auto simp: well_formed_def)
  moreover have "acts s (w, es)"
    using acts_interfere [of s] assms(1) by simp
  ultimately show ?thesis
    using assms unfolding released_def
    by (intro exI [of _ w] exI [of _ es] exI [of _ qs]) (simp add: release_effect_def)
qed

text \<open>Taking all entries off the queue at once.\<close>

lemma reset_detached:
  assumes "queue w qs" "addr_of x = 0"
  shows "detached (w\<lparr>prim_state := x\<rparr>) qs []"
proof -
  have "chain w (if qs = [] then 0 else anchor_addr (last qs)) (rev qs)"
    using queue_facts(4) [OF assms(1)] queue_addr [OF assms(1)] by (cases "qs = []") auto
  then have "chain (w\<lparr>prim_state := x\<rparr>) (if qs = [] then 0 else anchor_addr (last qs)) (rev qs)"
    by (rule chain_cong [rotated]) simp
  then show ?thesis
    using queue_facts(2) [OF assms(1)] assms(2) by (auto simp: detached_def queue_def waiting_def)
qed

text \<open>The walks that count the entries they resolve.\<close>

lemma count_up: "((\<lambda>n. n + 1) ^^ k) (m :: usize) = m + of_nat k"
  by (induction k) (simp_all add: algebra_simps)

section \<open>The abstract resource\<close>

record resource =
  in_use :: nat
  line :: "(usize \<times> Opcode) list"

definition grant :: "nat \<Rightarrow> resource \<Rightarrow> resource" where
  "grant limit r =
     (let ops = map snd (line r); n = granted limit (in_use r) ops in
      r\<lparr>in_use := in_use r + transferred (take n ops), line := drop n (line r)\<rparr>)"

fun releasable :: "Opcode \<Rightarrow> nat \<Rightarrow> bool" where
  "releasable Exclusive n \<longleftrightarrow> n = 63"
| "releasable Shared n \<longleftrightarrow> 1 \<le> n \<and> n \<noteq> 63"
| "releasable (Semaphore count) n \<longleftrightarrow> unat count \<le> n"
| "releasable _ n \<longleftrightarrow> True"

definition spec_release :: "nat \<Rightarrow> Opcode \<Rightarrow> resource \<Rightarrow> bool \<times> resource" where
  "spec_release limit opc r =
     (if releasable opc (in_use r) then (True, grant limit (r\<lparr>in_use := in_use r - acquired opc\<rparr>))
      else (False, r))"

definition blocked :: "nat \<Rightarrow> resource \<Rightarrow> bool" where
  "blocked limit r \<longleftrightarrow> (line r \<noteq> [] \<longrightarrow> \<not> can_grant limit (in_use r) (snd (hd (line r))))"

lemma grant_blocked: "blocked limit (grant limit r)"
proof -
  let ?ops = "map snd (line r)"
  let ?n = "granted limit (in_use r) ?ops"
  have "\<not> can_grant limit (in_use r + transferred (take ?n ?ops)) (?ops ! ?n)" if "?n < length (line r)"
    using granted_maximal [of limit "in_use r" ?ops] that by simp
  then show ?thesis
    by (auto simp: blocked_def grant_def Let_def hd_drop_conv_nth)
qed

lemma can_release_nat: "can_release opc state = releasable opc (unat (data_of state))"
proof -
  have e: "unat (state AND DATA_MASK) = unat (data_of state)"
    by (simp add: data_of_def)
  have "unat (data_of state) = 63 \<longleftrightarrow> data_of state = DATA_MASK"
    by (simp add: DATA_MASK_eq word_unat_eq_iff)
  moreover have "(1 \<le> data_of state) = (1 \<le> unat (data_of state))"
    by (simp add: word_le_nat_alt)
  ultimately show ?thesis
    by (cases opc) (auto simp: data_of_def [symmetric] word_le_nat_alt Let_def)
qed

section \<open>Representation\<close>

definition represents :: "world \<Rightarrow> resource \<Rightarrow> bool" where
  "represents w r \<longleftrightarrow> \<not> locked (prim_state w) \<and> unat (data_of (prim_state w)) = in_use r \<and>
     well_formed w (map fst (line r)) \<and> opcodes w (map fst (line r)) = map snd (line r)"

definition unchanged :: "usize set \<Rightarrow> world \<Rightarrow> world \<Rightarrow> bool" where
  "unchanged A w w' \<longleftrightarrow> (\<forall>q. live w q \<longrightarrow> q \<notin> A \<longrightarrow> live w' q \<and> node w' q = node w q)"

definition served :: "resource \<Rightarrow> resource \<Rightarrow> world \<Rightarrow> bool" where
  "served r r' w' \<longleftrightarrow>
     (\<forall>(q, opc) \<in> set (line r) - set (line r'). has_result 0 w' q \<and> opcode (node w' q) = opc)"

text \<open>Exactly the tasks that were served are notified, each once, the ones that queued up last first; those that
  still wait stay due for their notification.\<close>

definition woken_up :: "resource \<Rightarrow> resource \<Rightarrow> world \<Rightarrow> world \<Rightarrow> bool" where
  "woken_up r r' w w' \<longleftrightarrow>
     (let qs = map fst (take (length (line r) - length (line r')) (line r)) in
      events w' = events w @ wakeups w (rev qs) \<and> (\<forall>q \<in> set qs. wakeup w' q = []) \<and>
      (\<forall>q \<in> set (map fst (line r')). wakeup w' q = wakeup w q))"

lemma woken_up_same: "events w' = events w \<Longrightarrow> (\<And>q. wakeup w' q = wakeup w q) \<Longrightarrow> woken_up r r w w'"
  by (simp add: woken_up_def)

lemma process_grants:
  assumes "locked (prim_state w)" "well_formed w (map fst (line r))" "line r \<noteq> []"
    and "opcodes w (map fst (line r)) = map snd (line r)" "unat (data_of (prim_state w)) = in_use r"
    and "unat most \<le> 63"
  shows "\<exists>w'. process_wait_queue most (prim_state w) (w, []) = Some (w', []) \<and>
     represents w' (grant (unat most) r) \<and> served r (grant (unat most) r) w' \<and>
     unchanged (set (map fst (line r))) w w' \<and> woken_up r (grant (unat most) r) w w'"
proof -
  let ?qs = "map fst (line r)" and ?ops = "map snd (line r)"
  let ?n = "granted (unat most) (in_use r) ?ops"
  have wf: "queue w ?qs" "prev_entry (node w (last ?qs)) = 0"
    using assms(2,3) by (auto simp: well_formed_def)
  obtain w' where p: "process_wait_queue most (prim_state w) (w, []) = Some (w', [])" and s: "serviced most w ?qs w'"
    using process_alone [OF assms(1) wf(1) _ wf(2) assms(6)] assms(3) by auto
  have ok: "\<forall>opc \<in> set ?ops. opcode_ok opc"
    using queue_facts(2) [OF wf(1)] unfolding assms(4) [symmetric] by (auto simp: waiting_def)
  have b: "unat (data_of (prim_state w)) + transferred (take ?n ?ops) \<le> 63"
    using granted_bound [OF _ assms(6) ok, of "in_use r"] unat_data_of_le [of "prim_state w"] assms(5) by simp
  note sv = s [unfolded serviced_def Let_def assms(4,5)]
  have "represents w' (grant (unat most) r)"
  proof -
    have "unat (data_of (prim_state w')) = in_use r + transferred (take ?n ?ops)"
      using sv unat_add_data [OF b] assms(5) by simp
    moreover have "opcodes w' (map fst (drop ?n (line r))) = map snd (drop ?n (line r))"
    proof -
      have "opcodes w' (map fst (line r)) = opcodes w (map fst (line r))"
        using sv by simp
      then show ?thesis
        using assms(4) by (metis drop_map)
    qed
    moreover have "well_formed w' (map fst (drop ?n (line r)))"
      using sv wf(2) assms(3) by (auto simp: well_formed_def drop_map last_map)
    ultimately show ?thesis
      using sv by (simp add: represents_def grant_def Let_def)
  qed
  moreover have "served r (grant (unat most) r) w'"
  proof -
    have "has_result 0 w' q \<and> opcode (node w' q) = opc" if "(q, opc) \<in> set (take ?n (line r))" for q opc
    proof -
      have "opcodes w' ?qs = ?ops"
        using sv assms(4) by simp
      then have "opcode (node w' q) = opc"
        using that by (auto simp: map_eq_conv dest!: in_set_takeD)
      moreover have "q \<in> set (take ?n ?qs)"
        using that unfolding take_map by force
      ultimately show ?thesis
        using sv by blast
    qed
    moreover have "set (line r) = set (take ?n (line r)) \<union> set (drop ?n (line r))"
      by (metis append_take_drop_id set_append)
    ultimately show ?thesis
      by (auto simp: served_def grant_def Let_def)
  qed
  moreover have "unchanged (set ?qs) w w'"
    using sv by (simp add: unchanged_def)
  moreover have "woken_up r (grant (unat most) r) w w'"
    using sv granted_le [of "unat most" "in_use r" ?ops]
    by (simp add: woken_up_def grant_def Let_def take_map drop_map del: set_map)
  ultimately show ?thesis
    using p by blast
qed

context sync_primitive
begin

lemma release_refines:
  assumes "represents w r"
  shows "\<exists>w'. release_loop most (prim_state w) opc (w, []) = Some (fst (spec_release (unat most) opc r), (w', [])) \<and>
     represents w' (snd (spec_release (unat most) opc r)) \<and> served r (snd (spec_release (unat most) opc r)) w' \<and>
     unchanged (set (map fst (line r))) w w' \<and> woken_up r (snd (spec_release (unat most) opc r)) w w'"
proof (cases "can_release opc (prim_state w)")
  case False
  then have "\<not> releasable opc (in_use r)"
    using assms by (simp add: can_release_nat represents_def)
  with False assms show ?thesis
    by (subst release_loop_unfold) (simp add: spec_release_def served_def unchanged_def woken_up_same)
next
  case True
  let ?r1 = "r\<lparr>in_use := in_use r - acquired opc\<rparr>" and ?d = "data_of (prim_state w) - acquired_count opc"
  have rel: "releasable opc (in_use r)"
    using True assms by (simp add: can_release_nat represents_def)
  have d: "unat ?d = in_use r - acquired opc"
    using can_release_imp_le [OF True] assms by (simp add: represents_def acquired_def unat_sub)
  have mt: "addr_of (prim_state w) = 0 \<longleftrightarrow> line r = []"
    using assms queue_empty_iff [of w "map fst (line r)"] by (auto simp: represents_def well_formed_def)
  show ?thesis
  proof (cases "line r = []")
    case True
    let ?w = "w\<lparr>prim_state := prim_state w - acquired_count opc\<rparr>"
    note v = release_views [OF \<open>can_release opc (prim_state w)\<close>]
    have "represents ?w ?r1"
      using assms v d well_formed_prim [of w "[]"] True by (auto simp: represents_def)
    moreover have "grant (unat most) ?r1 = ?r1"
      using True by (simp add: grant_def)
    ultimately show ?thesis
      using True mt rel \<open>can_release opc (prim_state w)\<close>
      by (subst release_loop_unfold) (simp add: atomics spec_release_def served_def unchanged_def woken_up_def)
  next
    case False
    let ?x = "(prim_state w OR LOCKED_FLAG) - acquired_count opc"
    let ?w = "w\<lparr>prim_state := ?x\<rparr>"
    note v = locked_release_views [OF True]
    have wf: "well_formed ?w (map fst (line ?r1))" "opcodes ?w (map fst (line ?r1)) = map snd (line ?r1)"
      using assms v(1) by (auto simp: represents_def intro: well_formed_prim)
    obtain w' where p: "process_wait_queue most ?x (?w, []) = Some (w', [])"
      "represents w' (grant (unat most) ?r1)" "served ?r1 (grant (unat most) ?r1) w'"
      "unchanged (set (map fst (line r))) ?w w'" "woken_up ?r1 (grant (unat most) ?r1) ?w w'"
      using process_grants [of ?w ?r1 most] v d wf False most_le by auto
    have "unchanged (set (map fst (line r))) w w'"
      using p(4) by (simp add: unchanged_def)
    moreover have "release_loop most (prim_state w) opc (w, []) = Some (True, (w', []))"
      using p(1) True False mt assms by (subst release_loop_unfold) (simp add: atomics represents_def)
    ultimately show ?thesis
      using p(2,3,5) rel by (auto simp: spec_release_def served_def woken_up_def)
  qed
qed

end

section \<open>Pushing an entry\<close>

definition fresh_entry :: "world \<Rightarrow> usize \<Rightarrow> bool" where
  "fresh_entry w q \<longleftrightarrow> live w q \<and> \<not> pollable (node w q) \<and> entry_state (node w q) \<in> {0, WAKER_SET} \<and>
     opcode_ok (opcode (node w q)) \<and> prev_entry (node w q) = 0"

definition pushed :: "usize \<Rightarrow> usize \<Rightarrow> world \<Rightarrow> world" where
  "pushed q x w =
     upd q (\<lambda>e. e\<lparr>next_entry_anchor := addr_of (prim_state w), pollable := True\<rparr>) (w\<lparr>prim_state := x\<rparr>)"

lemma upd_prim: "(upd q f w)\<lparr>prim_state := x\<rparr> = upd q f (w\<lparr>prim_state := x\<rparr>)"
  by (simp add: upd_def node_def)

lemma fresh_not_queued: "queue w qs \<Longrightarrow> fresh_entry w q \<Longrightarrow> q \<notin> set qs"
  using queue_facts(2) by (auto simp: fresh_entry_def waiting_def)

lemma push_well_formed:
  assumes "queue w qs" "fresh_entry w q" "addr_of x = anchor_addr q"
  shows "well_formed (pushed q x w) (qs @ [q])" "waiting (pushed q x w) q" "prim_state (pushed q x w) = x"
    "opcode (node (pushed q x w) q) = opcode (node w q)" "unchanged {q} w (pushed q x w)"
proof -
  let ?w = "pushed q x w"
  have l: "live w q" and n: "q \<notin> set qs"
    using assms(1,2) fresh_not_queued by (auto simp: fresh_entry_def)
  have nd: "live ?w q' \<and> node ?w q' = node w q'" if "live w q'" "q' \<noteq> q" for q'
    using that l by (simp add: pushed_def)
  then show u: "unchanged {q} w ?w"
    by (simp add: unchanged_def)
  show wq: "waiting ?w q" "prim_state ?w = x" "opcode (node ?w q) = opcode (node w q)"
    using assms(2) l by (auto simp: waiting_def fresh_entry_def pushed_def)
  have "chain ?w (addr_of (prim_state w)) (rev qs)"
  proof (rule chain_cong [OF _ queue_facts(4) [OF assms(1)]])
    fix q' assume "q' \<in> set (rev qs)" "live w q'"
    moreover from this have "q' \<noteq> q"
      using n by auto
    ultimately show "live ?w q' \<and> next_entry_anchor (node ?w q') = next_entry_anchor (node w q')"
      using nd by simp
  qed
  moreover have "next_entry_anchor (node ?w q) = addr_of (prim_state w)" "prev_entry (node ?w q) = 0"
    using l assms(2) by (auto simp: pushed_def fresh_entry_def)
  moreover have "waiting ?w q'" if "q' \<in> set qs" for q'
  proof -
    have "q' \<noteq> q" "waiting w q'"
      using that n queue_facts(2) [OF assms(1) that] by auto
    then show ?thesis
      using nd [of q'] by (simp add: waiting_def)
  qed
  ultimately show "well_formed ?w (qs @ [q])"
    using wq assms(3) by (auto simp: well_formed_def queue_def)
qed

lemma try_push_alone:
  assumes "live w q"
  shows "try_push_wait_queue_entry q (prim_state w) (w, []) =
    Some (True, (pushed q ((prim_state w AND NOT ADDR_MASK) OR anchor_addr q) w, []))"
proof -
  have "to_anchor_ptr (prim_state w) = addr_of (prim_state w)"
    by (simp add: to_anchor_ptr_def addr_of_def Let_def)
  then show ?thesis
    using assms
    by (simp add: try_push_wait_queue_entry_def queue_simps atomics upd_prim pushed_def Let_def)
qed

text \<open>Setting the result of an entry that nobody else has seen.\<close>

lemma resolve_fresh: "fresh_entry w q \<Longrightarrow> has_result r (resolve r q w) q"
  by (simp add: has_result_def fresh_entry_def resolved_state_waiting)

lemma has_result_unchanged: "unchanged A w w' \<Longrightarrow> has_result r w q \<Longrightarrow> q \<notin> A \<Longrightarrow> has_result r w' q"
  by (simp add: unchanged_def has_result_def)

lemma unchanged_resolve: "live w q \<Longrightarrow> unchanged {q} w (resolve r q w)"
  by (simp add: unchanged_def)

text \<open>\<open>construct\<close> makes a fresh entry in a wait queue that has none, or whose entry was consumed.\<close>

definition blank :: "world \<Rightarrow> usize \<Rightarrow> bool" where
  "blank w q \<longleftrightarrow> wq_ok q \<and> anchors w (anchor_addr q) = Some 0 \<and> entries w (entry_addr q) = None"

lemma construct_blank:
  assumes "blank w q" "opcode_ok opc"
  shows "\<exists>w'. construct q prim kind opc is_sync (w, es) = Some (w', es) \<and> fresh_entry w' q \<and>
    prim_state w' = prim_state w \<and> opcode (node w' q) = opc \<and> entry_state (node w' q) = 0 \<and>
    monitor (node w' q) = (if is_sync then Sync None else Async None) \<and> unchanged {} w w'"
proof -
  obtain a off where ao: "anchor_ptr q = (a, off)"
    by (metis surj_pair)
  let ?e = "\<lparr>next_entry_anchor = 0, prev_entry = 0, opcode = opc, entry_state = 0, pollable = False,
                monitor = (if is_sync then Sync None else Async None), drop_callback = kind, prim_addr = prim,
                offset = ucast (entry_addr q - q)\<rparr>"
  let ?w = "w\<lparr>anchors := (anchors w)(a \<mapsto> - 1 - off), entries := (entries w)(entry_addr q \<mapsto> ?e)\<rparr>"
  have b: "wq_ok q" "anchors w a = Some 0" "entries w (entry_addr q) = None" "anchor_addr q = a"
    using assms(1) ao by (auto simp: blank_def anchor_addr_def)
  have nz: "- 1 - off \<noteq> 0"
    using anchor_word_nonzero [OF b(1)] ao by simp
  have te: "to_entry_ptr a (w\<lparr>anchors := (anchors w)(a \<mapsto> - 1 - off)\<rparr>, es) = Some (entry_addr q)"
    using nz anchor_to_entry [of q] b(4) ao by (simp add: to_entry_ptr_def)
  have "construct q prim kind opc is_sync (w, es) = Some (?w, es)"
    unfolding construct_def ao using b(2) te by (simp add: write_entry_def)
  moreover have "live ?w q"
    using b(1,4) ao by (simp add: live_def entry_offset_def)
  moreover have "node ?w q = ?e"
    by (simp add: node_def)
  moreover have "unchanged {} w ?w"
    unfolding unchanged_def
  proof (intro allI impI)
    fix q' assume l: "live w q'"
    have "anchor_addr q' \<noteq> a"
    proof
      assume "anchor_addr q' = a"
      with l b(2) anchor_word_nonzero [of q'] show False
        by (auto simp: live_def)
    qed
    moreover have "entry_addr q' \<noteq> entry_addr q"
      using live_entry [OF l] b(3) by auto
    ultimately show "live ?w q' \<and> node ?w q' = node w q'"
      using l by (simp add: live_def node_def)
  qed
  ultimately show ?thesis
    using assms(2) by (intro exI [of _ ?w]) (simp add: fresh_entry_def)
qed

section \<open>What other threads do to a locked queue\<close>

text \<open>The steps that the operations of other threads take while the queue is locked: the release in
  place of \<open>release_loop\<close> and the exchange of \<open>try_push_wait_queue_entry\<close>.\<close>

definition release_action :: "Opcode \<Rightarrow> world \<Rightarrow> world" where
  "release_action opc w =
     (if can_release opc (prim_state w) \<and> locked (prim_state w)
      then w\<lparr>prim_state := prim_state w - acquired_count opc\<rparr> else w)"

definition push_action :: "usize \<Rightarrow> world \<Rightarrow> world" where
  "push_action q w =
     (if fresh_entry w q then pushed q ((prim_state w AND NOT ADDR_MASK) OR anchor_addr q) w else w)"

lemma release_action_is_release:
  "locked (prim_state w) \<Longrightarrow> can_release opc (prim_state w) \<Longrightarrow>
   release_loop most (prim_state w) opc (w, []) = Some (True, (release_action opc w, []))"
  by (subst release_loop_unfold) (simp add: release_action_def atomics)

lemma push_action_is_push:
  "fresh_entry w q \<Longrightarrow> try_push_wait_queue_entry q (prim_state w) (w, []) = Some (True, (push_action q w, []))"
  by (simp add: push_action_def try_push_alone fresh_entry_def)

lemma rely_release_action: "rely K w (release_action opc w)"
proof (cases "can_release opc (prim_state w) \<and> locked (prim_state w)")
  case True
  let ?w = "w\<lparr>prim_state := prim_state w - acquired_count opc\<rparr>"
  note v = release_views [OF conjunct1 [OF True]]
  have "data_of (prim_state w) - acquired_count opc \<le> data_of (prim_state w)"
    using can_release_imp_le [OF conjunct1 [OF True]] by (simp add: word_sub_le)
  moreover have "\<exists>new. queue ?w (qs @ new) \<and> (\<forall>q \<in> set new. prev_entry (node ?w q) = 0 \<and> \<not> waiting w q)" if "queue w qs" for qs
    using queue_prim [OF that, of "prim_state w - acquired_count opc"] v(1) by (intro exI [of _ "[]"]) simp
  ultimately show ?thesis
    using True v by (simp add: rely_def release_action_def waiting_def has_result_def)
next
  case False
  then show ?thesis
    using rely_refl by (auto simp: release_action_def)
qed

lemma rely_push_action: "rely K w (push_action q w)"
proof (cases "fresh_entry w q")
  case True
  define x where "x = (prim_state w AND NOT ADDR_MASK) OR anchor_addr q"
  let ?w = "pushed q x w"
  have l: "live w q" and aq: "addr_of (anchor_addr q) = anchor_addr q"
    using True by (auto simp: fresh_entry_def)
  note v = replace_addr_views [OF aq, of "prim_state w", folded x_def]
  have nw: "\<not> waiting w q" and nh: "\<not> has_result r w q" for r
    using True by (auto simp: fresh_entry_def waiting_def has_result_def)
  have nd: "live ?w p \<and> node ?w p = node w p" if "live w p" "p \<noteq> q" for p
    using that l by (simp add: pushed_def)
  have "waiting ?w p \<and> node ?w p = node w p" if "waiting w p" for p
  proof -
    have "p \<noteq> q" "live w p"
      using that nw by auto
    with nd [of p] that show ?thesis
      by (simp add: waiting_def)
  qed
  moreover have "has_result r ?w p" if "has_result r w p" for p r
  proof -
    have "p \<noteq> q" "live w p"
      using that nh by (auto simp: has_result_def)
    with nd [of p] that show ?thesis
      by (simp add: has_result_def)
  qed
  moreover have "\<exists>new. queue ?w (qs @ new) \<and> (\<forall>p \<in> set new. prev_entry (node ?w p) = 0 \<and> \<not> waiting w p)" if "queue w qs" for qs
  proof (intro exI [of _ "[q]"] conjI)
    show "queue ?w (qs @ [q])"
      using push_well_formed(1) [OF that True v(1)] by (simp add: well_formed_def)
    show "\<forall>p \<in> set [q]. prev_entry (node ?w p) = 0 \<and> \<not> waiting w p"
      using push_well_formed(1) [OF that True v(1)] nw by (simp add: well_formed_def)
  qed
  ultimately show ?thesis
    using True v by (simp add: rely_def push_action_def x_def [symmetric]) (simp add: pushed_def)
next
  case False
  then show ?thesis
    using rely_refl by (simp add: push_action_def)
qed

lemma well_formed_release_action: "well_formed w qs \<Longrightarrow> well_formed (release_action opc w) qs"
  by (auto simp: release_action_def release_views intro: well_formed_prim)

lemma well_formed_push_action: "well_formed w qs \<Longrightarrow> \<exists>qs'. well_formed (push_action q w) qs'"
proof (cases "fresh_entry w q")
  case True
  then have aq: "addr_of (anchor_addr q) = anchor_addr q"
    by (auto simp: fresh_entry_def)
  assume "well_formed w qs"
  then have "queue w qs"
    by (simp add: well_formed_def)
  from push_well_formed(1) [OF this True replace_addr_views(1) [OF aq]] True show ?thesis
    by (auto simp: push_action_def)
qed (auto simp: push_action_def)

lemma env_ok_actions:
  assumes "\<And>f. f \<in> set es \<Longrightarrow> (\<exists>opc. f = release_action opc) \<or> (\<exists>q. f = push_action q)"
  shows "env_ok K es" and "friendly K es"
proof -
  show fr: "friendly K es"
    unfolding friendly_def using assms rely_release_action rely_push_action by metis
  have "\<exists>qs'. well_formed (f w) qs'" if "f \<in> set es" "well_formed w qs" for f w qs
    using assms [OF that(1)] well_formed_release_action [OF that(2)] well_formed_push_action [OF that(2)] by metis
  then show "env_ok K es"
    using fr by (auto simp: env_ok_def)
qed

section \<open>A small instance\<close>

text \<open>A primitive with the given data field and one task waiting in the queue, whose wait queue is at
  address 128: the theorems are instantiated with it.\<close>

definition one_waiter :: "usize \<Rightarrow> Opcode \<Rightarrow> Monitor \<Rightarrow> world" where
  "one_waiter data opc mon =
     \<lparr>prim_state = 128 + data, anchors = [128 \<mapsto> - 1],
      entries = [192 \<mapsto>
        \<lparr>next_entry_anchor = 0, prev_entry = 0, opcode = opc, entry_state = 0, pollable = True, monitor = mon,
         drop_callback = Lock_drop, prim_addr = 0, offset = 64\<rparr>],
      events = []\<rparr>"

section \<open>The guarantees of the shared operations\<close>

text \<open>C3: \<open>process_wait_queue\<close>, called on a locked, well-formed, non-empty queue while other threads push
  entries, release in place and poll (\<open>friendly\<close>), returns.  When it does, the queue is unlocked; the
  tasks that were queued, followed by those that arrived in the meantime, have been served in line
  order, at least as many as fitted at the start; each of them has the result 0 (unless its owner has
  already taken it); and the task now at the head of the line does not fit, so no wake-up is lost.\<close>

theorem process_wait_queue_drains:
  assumes "unat most \<le> 63" "well_formed w qs" "qs \<noteq> []" "locked (prim_state w)" "friendly K es"
  shows "\<exists>w' es'. process_wait_queue most (prim_state w) (w, es) = Some (w', es') \<and> drained K most w qs w'"
  using sync_primitive.process_drains [OF sync_primitive.intro [OF assms(1)]] assms(2-5) .

theorem process_wait_queue_drains_witness:
  "\<exists>w' es'. process_wait_queue 62 193 (one_waiter 65 Exclusive (Sync None), [release_action Shared]) = Some (w', es') \<and>
     drained UNIV 62 (one_waiter 65 Exclusive (Sync None)) [128] w'"
proof -
  let ?w = "one_waiter 65 Exclusive (Sync None)"
  have "unat (62 :: usize) \<le> 63" "[128] \<noteq> ([] :: usize list)" "prim_state ?w = 193" "locked (prim_state ?w)"
    by (simp_all add: one_waiter_def locked_def LOCKED_FLAG_eq)
  moreover have "well_formed ?w [128]"
    by code_simp
  moreover have "friendly UNIV [release_action Shared]"
    by (rule env_ok_actions(2)) auto
  ultimately show ?thesis
    using process_wait_queue_drains [of 62 ?w "[128]" UNIV "[release_action Shared]"] by simp
qed

text \<open>C4: when no other thread acts, \<open>release_loop\<close> on the concrete state word and linked queue is exactly
  the abstract release: it reports whether the resource could be released, the longest prefix of the
  line that fits is granted, its tasks have the result 0, the rest keeps waiting in order, and no
  other entry changes.\<close>

theorem release_loop_refines:
  assumes "unat most \<le> 63" "represents w r"
  shows "\<exists>w'. release_loop most (prim_state w) opc (w, []) = Some (fst (spec_release (unat most) opc r), (w', [])) \<and>
     represents w' (snd (spec_release (unat most) opc r)) \<and> served r (snd (spec_release (unat most) opc r)) w' \<and>
     unchanged (set (map fst (line r))) w w'"
  using sync_primitive.release_refines [OF sync_primitive.intro [OF assms(1)] assms(2)] by blast

theorem release_loop_refines_witness:
  "\<exists>w'. release_loop 62 191 Exclusive (one_waiter 63 Shared (Sync None), []) =
     Some (fst (spec_release 62 Exclusive \<lparr>in_use = 63, line = [(128, Shared)]\<rparr>), (w', [])) \<and>
     represents w' (snd (spec_release 62 Exclusive \<lparr>in_use = 63, line = [(128, Shared)]\<rparr>))"
proof -
  let ?w = "one_waiter 63 Shared (Sync None)" and ?r = "\<lparr>in_use = 63, line = [(128, Shared)]\<rparr>"
  have "represents ?w ?r"
    by code_simp
  moreover have "unat (62 :: usize) = 62" "prim_state ?w = 191"
    by (simp_all add: one_waiter_def)
  ultimately show ?thesis
    using release_loop_refines [of 62 ?w ?r Exclusive] by auto
qed

text \<open>C5: \<open>release_loop\<close> takes effect at one moment while other threads act: at that moment it finds the
  resource not held and changes nothing, or gives it back in place because nobody waits or another
  thread is processing the queue, or gives it back, locks the queue and serves the line.\<close>

theorem release_loop_atomic:
  assumes "unat most \<le> 63" "well_formed w qs" "env_ok K es"
  shows "released K most opc (w, es) (release_loop most (prim_state w) opc (w, es))"
  using sync_primitive.release_released [OF sync_primitive.intro [OF assms(1)] assms(2,3) refl] .

theorem release_loop_atomic_witness:
  "released UNIV 63 (Semaphore 1) (one_waiter 63 (Semaphore 2) (Sync None), [release_action (Semaphore 2)])
     (release_loop 63 191 (Semaphore 1) (one_waiter 63 (Semaphore 2) (Sync None), [release_action (Semaphore 2)]))"
proof -
  let ?w = "one_waiter 63 (Semaphore 2) (Sync None)"
  have "unat (63 :: usize) \<le> 63" "prim_state ?w = 191"
    by (simp_all add: one_waiter_def)
  moreover have "well_formed ?w [128]"
    by code_simp
  moreover have "env_ok UNIV [release_action (Semaphore 2)]"
    by (rule env_ok_actions(1)) auto
  ultimately show ?thesis
    using release_loop_atomic [of 63 ?w "[128]" UNIV "[release_action (Semaphore 2)]" "Semaphore 1"] by simp
qed

end
