(* ===== verification/Entry_Protocol.thy ===== *)
theory Entry_Protocol
  imports Resource_Spec
begin

text \<open>
  The handshake inside one wait queue entry (\<open>src/wait_queue.rs\<close>), access by access: the thread that runs
  \<open>Entry::set_result\<close> and the task that runs \<open>Entry::poll_result_sync\<close> or \<open>poll_result_async\<close> interleave
  freely, the weak exchanges may fail spuriously and sleeping tasks may wake up spuriously.  A step is one
  access to the entry; \<open>P_sleep\<close> is \<open>park\<close> or returning \<open>Pending\<close> without a scheduled wake-up, \<open>P_again\<close> is
  \<open>yield_now\<close> or \<open>wake_by_ref\<close>.  The other theories use \<open>set_result\<close> as one operation, which is the
  run of the setter's steps.
\<close>

section \<open>The steps\<close>

text \<open>What the two threads share: the state, the flag \<open>pollable\<close> and the cell of the monitor, which is not
  atomic.  \<open>token\<close> stands for the unpark token of the thread or the scheduled wake-up of the task, which
  live outside of the entry.\<close>

record slot =
  slot_state :: u16
  slot_pollable :: bool
  slot_task :: "task option"

datatype setter_pc =
    S_pollable | S_load | S_exchange u16 | S_take | S_finalize "task option" | S_notify task | S_done

datatype poller_pc =
    P_try | P_load | P_try_again | P_clear u16 | P_install | P_flag | P_sleep | P_again
  | P_zero u8 | P_unpoll u8 | P_done u8

record protocol =
  setter :: setter_pc
  poller :: poller_pc
  slot :: slot
  token :: bool

fun setter_step :: "u8 \<Rightarrow> bool \<Rightarrow> setter_pc \<Rightarrow> slot \<Rightarrow> setter_pc \<times> slot" where
  "setter_step r spurious S_pollable e = (S_load, e\<lparr>slot_pollable := True\<rparr>)"
| "setter_step r spurious S_load e = (S_exchange (slot_state e), e)"
| "setter_step r spurious (S_exchange state) e =
     (if slot_state e = state \<and> \<not> spurious then
        (let next_state = (state OR RESULT_SET) OR ucast r in
         (if next_state AND WAKER_SET = WAKER_SET then S_take else S_finalize None,
          e\<lparr>slot_state := next_state\<rparr>))
      else (S_exchange (slot_state e), e))"
| "setter_step r spurious S_take e = (S_finalize (slot_task e), e\<lparr>slot_task := None\<rparr>)"
| "setter_step r spurious (S_finalize task) e =
     (case task of None \<Rightarrow> S_done | Some t \<Rightarrow> S_notify t, e\<lparr>slot_state := slot_state e OR RESULT_FINALIZED\<rparr>)"
| "setter_step r spurious (S_notify t) e = (S_done, e)"
| "setter_step r spurious S_done e = (S_done, e)"

fun poller_step :: "task \<Rightarrow> bool \<Rightarrow> poller_pc \<Rightarrow> slot \<Rightarrow> poller_pc \<times> slot" where
  "poller_step t spurious P_try e =
     (if slot_state e AND RESULT_FINALIZED = RESULT_FINALIZED
      then (P_zero (ucast (slot_state e AND (push_bit 8 1 - 1))), e) else (P_load, e))"
| "poller_step t spurious P_load e =
     (if slot_state e AND RESULT_SET = RESULT_SET then (P_try_again, e)
      else if slot_state e AND WAKER_SET = WAKER_SET then (P_clear (slot_state e), e)
      else (P_install, e))"
| "poller_step t spurious P_try_again e =
     (if slot_state e AND RESULT_FINALIZED = RESULT_FINALIZED
      then (P_zero (ucast (slot_state e AND (push_bit 8 1 - 1))), e) else (P_again, e))"
| "poller_step t spurious (P_clear state) e =
     (if slot_state e = state \<and> \<not> spurious then (P_install, e\<lparr>slot_state := state AND NOT WAKER_SET\<rparr>)
      else (P_again, e))"
| "poller_step t spurious P_install e = (P_flag, e\<lparr>slot_task := Some t\<rparr>)"
| "poller_step t spurious P_flag e =
     (if slot_state e AND RESULT_SET = RESULT_SET then P_again else P_sleep,
      e\<lparr>slot_state := slot_state e OR WAKER_SET\<rparr>)"
| "poller_step t spurious P_sleep e = (if spurious then P_try else P_sleep, e)"
| "poller_step t spurious P_again e = (P_try, e)"
| "poller_step t spurious (P_zero result) e = (P_unpoll result, e\<lparr>slot_state := 0\<rparr>)"
| "poller_step t spurious (P_unpoll result) e = (P_done result, e\<lparr>slot_pollable := False\<rparr>)"
| "poller_step t spurious (P_done result) e = (P_done result, e)"

definition setter_moves :: "u8 \<Rightarrow> bool \<Rightarrow> protocol \<Rightarrow> protocol" where
  "setter_moves r spurious c =
     (case setter_step r spurious (setter c) (slot c) of (pc, e) \<Rightarrow>
        c\<lparr>setter := pc, slot := e, token := token c \<or> (case setter c of S_notify _ \<Rightarrow> True | _ \<Rightarrow> False)\<rparr>)"

definition poller_moves :: "task \<Rightarrow> bool \<Rightarrow> protocol \<Rightarrow> protocol" where
  "poller_moves t spurious c =
     (if poller c = P_sleep \<and> token c then c\<lparr>poller := P_try, token := False\<rparr>
      else (case poller_step t spurious (poller c) (slot c) of (pc, e) \<Rightarrow> c\<lparr>poller := pc, slot := e\<rparr>))"

inductive protocol_step :: "u8 \<Rightarrow> task \<Rightarrow> protocol \<Rightarrow> protocol \<Rightarrow> bool" for r t where
  setter: "protocol_step r t c (setter_moves r spurious c)"
| poller: "protocol_step r t c (poller_moves t spurious c)"

definition protocol_start :: "bool \<Rightarrow> protocol" where
  "protocol_start b =
     \<lparr>setter = S_pollable, poller = P_try,
      slot = \<lparr>slot_state = 0, slot_pollable = b, slot_task = None\<rparr>, token = False\<rparr>"

section \<open>The states of the state field\<close>

definition result_word :: "u8 \<Rightarrow> bool \<Rightarrow> bool \<Rightarrow> u16" where
  "result_word r waker fin =
     RESULT_SET OR ucast r OR (if waker then WAKER_SET else 0) OR (if fin then RESULT_FINALIZED else 0)"

lemma bit_result_word:
  "bit (result_word r waker fin) n \<longleftrightarrow> n = 8 \<or> n < 8 \<and> bit r n \<or> waker \<and> n = 9 \<or> fin \<and> n = 10"
proof -
  have "n < 8" if "bit r n"
    using that bit_imp_le_length [of r n] by simp
  then show ?thesis
    by (auto simp: result_word_def bit_or_iff bit_ucast_iff entry_bits split: if_splits)
qed

lemma flags_alone [simp]:
  "0 AND RESULT_SET \<noteq> RESULT_SET" "0 AND WAKER_SET \<noteq> WAKER_SET" "0 AND RESULT_FINALIZED \<noteq> RESULT_FINALIZED"
  "WAKER_SET AND RESULT_SET \<noteq> RESULT_SET" "WAKER_SET AND RESULT_FINALIZED \<noteq> RESULT_FINALIZED"
  "WAKER_SET \<noteq> 0" "0 \<noteq> WAKER_SET" "RESULT_SET \<noteq> 0" "RESULT_FINALIZED \<noteq> 0"
  by (simp_all add: RESULT_SET_def WAKER_SET_def RESULT_FINALIZED_def)

lemma bit_ucast_u8: "bit (ucast (r :: u8) :: u16) n \<longleftrightarrow> n < 8 \<and> bit r n"
  using bit_imp_le_length [of r n] by (auto simp: bit_ucast_iff)

lemma result_word_simps [simp]:
  "result_word r k f AND RESULT_SET = RESULT_SET"
  "result_word r k f AND WAKER_SET = WAKER_SET \<longleftrightarrow> k"
  "result_word r k f AND RESULT_FINALIZED = RESULT_FINALIZED \<longleftrightarrow> f"
  "RESULT_SET OR ucast r = result_word r False False"
  "(WAKER_SET OR RESULT_SET) OR ucast r = result_word r True False"
  "result_word r k f OR WAKER_SET = result_word r True f"
  "result_word r k f OR RESULT_FINALIZED = result_word r k True"
  by (auto simp: u16_eq_iff bit_and_iff bit_or_iff bit_result_word entry_bits bit_ucast_u8)

lemma result_word_low [simp]:
  "ucast (result_word r k f AND 255) = r" "ucast (result_word r k f AND (push_bit 8 1 - 1)) = r"
proof -
  show "ucast (result_word r k f AND 255) = r"
    unfolding u8_eq_iff bit_ucast_iff bit_and_iff bit_result_word entry_bits by auto
  then show "ucast (result_word r k f AND (push_bit 8 1 - 1)) = r"
    by simp
qed

lemma result_word_neq [simp]: "result_word r k f \<noteq> 0" "result_word r k f \<noteq> WAKER_SET"
  "0 \<noteq> result_word r k f" "WAKER_SET \<noteq> result_word r k f"
  using result_word_simps(1) [of r k f] flags_alone(1,4) by metis+

section \<open>The invariant\<close>

definition before :: "task \<Rightarrow> protocol \<Rightarrow> bool" where
  "before t c \<longleftrightarrow> slot_state (slot c) \<in> {0, WAKER_SET} \<and>
     (slot_state (slot c) = WAKER_SET \<longrightarrow> slot_task (slot c) = Some t) \<and>
     (case poller c of
        P_try \<Rightarrow> True | P_load \<Rightarrow> True | P_again \<Rightarrow> True
      | P_clear state \<Rightarrow> state = WAKER_SET
      | P_install \<Rightarrow> slot_state (slot c) = 0
      | P_flag \<Rightarrow> slot_state (slot c) = 0 \<and> slot_task (slot c) = Some t
      | P_sleep \<Rightarrow> slot_state (slot c) = WAKER_SET
      | _ \<Rightarrow> False)"

definition owed :: "u8 \<Rightarrow> bool \<Rightarrow> protocol \<Rightarrow> bool" where
  "owed r installing c \<longleftrightarrow> (\<exists>k. slot_state (slot c) = result_word r k False) \<and>
     (case poller c of
        P_try \<Rightarrow> True | P_load \<Rightarrow> True | P_again \<Rightarrow> True | P_try_again \<Rightarrow> True
      | P_clear state \<Rightarrow> state = WAKER_SET
      | P_install \<Rightarrow> installing | P_flag \<Rightarrow> installing
      | P_sleep \<Rightarrow> \<not> installing
      | _ \<Rightarrow> False)"

definition delivered :: "u8 \<Rightarrow> bool \<Rightarrow> protocol \<Rightarrow> bool" where
  "delivered r asleep c \<longleftrightarrow>
     (case poller c of
        P_unpoll result \<Rightarrow> result = r \<and> slot_state (slot c) = 0
      | P_done result \<Rightarrow> result = r \<and> slot_state (slot c) = 0 \<and> \<not> slot_pollable (slot c)
      | pc \<Rightarrow> (\<exists>k. slot_state (slot c) = result_word r k True) \<and>
          (case pc of P_zero result \<Rightarrow> result = r | P_clear state \<Rightarrow> state = WAKER_SET | P_sleep \<Rightarrow> asleep | _ \<Rightarrow> True))"

definition protocol_inv :: "u8 \<Rightarrow> task \<Rightarrow> protocol \<Rightarrow> bool" where
  "protocol_inv r t c \<longleftrightarrow>
     (case setter c of
        S_pollable \<Rightarrow> before t c
      | S_load \<Rightarrow> before t c
      | S_exchange state \<Rightarrow> before t c \<and> state \<in> {0, WAKER_SET}
      | S_take \<Rightarrow> owed r False c \<and> slot_task (slot c) = Some t
      | S_finalize None \<Rightarrow> owed r True c
      | S_finalize (Some t') \<Rightarrow> owed r False c \<and> t' = t
      | S_notify t' \<Rightarrow> delivered r True c \<and> t' = t
      | S_done \<Rightarrow> delivered r (token c) c)"

lemmas protocol_defs = protocol_inv_def before_def owed_def delivered_def

lemma setter_keeps: "protocol_inv r t c \<Longrightarrow> protocol_inv r t (setter_moves r spurious c)"
  by (cases "setter c"; cases "poller c")
     (auto simp: protocol_defs setter_moves_def Let_def split: option.splits)

lemma poller_keeps: "protocol_inv r t c \<Longrightarrow> protocol_inv r t (poller_moves t spurious c)"
  by (cases "setter c"; cases "poller c")
     (auto simp: protocol_defs poller_moves_def split: option.splits)

definition protocol_reachable :: "u8 \<Rightarrow> task \<Rightarrow> protocol \<Rightarrow> bool" where
  "protocol_reachable r t c \<longleftrightarrow> (\<exists>b. (protocol_step r t)\<^sup>*\<^sup>* (protocol_start b) c)"

lemma protocol_inv_start: "protocol_inv r t (protocol_start b)"
  by (simp add: protocol_defs protocol_start_def)

lemma protocol_inv_reachable: "protocol_reachable r t c \<Longrightarrow> protocol_inv r t c"
proof -
  have "protocol_inv r t c'" if "(protocol_step r t)\<^sup>*\<^sup>* (protocol_start b) c'" for b c'
    using that
  proof (induction rule: rtranclp_induct)
    case (step y z)
    then show ?case
      by (cases rule: protocol_step.cases [OF step(2)]) (auto simp: setter_keeps poller_keeps)
  qed (rule protocol_inv_start)
  then show "protocol_reachable r t c \<Longrightarrow> protocol_inv r t c"
    by (auto simp: protocol_reachable_def)
qed

section \<open>Progress\<close>

fun setter_left :: "setter_pc \<Rightarrow> nat" where
  "setter_left S_pollable = 6"
| "setter_left S_load = 5"
| "setter_left (S_exchange _) = 4"
| "setter_left S_take = 3"
| "setter_left (S_finalize task) = (case task of None \<Rightarrow> 1 | Some _ \<Rightarrow> 2)"
| "setter_left (S_notify _) = 1"
| "setter_left S_done = 0"

definition setter_rank :: "protocol \<Rightarrow> nat" where
  "setter_rank c = setter_left (setter c) + (case setter c of S_exchange x \<Rightarrow> if x = slot_state (slot c) then 0 else 1 | _ \<Rightarrow> 0)"

lemma setter_advances: "setter c = S_done \<or> setter_rank (setter_moves r False c) < setter_rank c"
  by (cases "setter c") (auto simp: setter_rank_def setter_moves_def Let_def split: option.splits)

lemma setter_finishes:
  assumes "setter_rank c \<le> n"
  shows "setter ((setter_moves r False ^^ n) c) = S_done"
  using assms
proof (induction n arbitrary: c)
  case 0
  then show ?case
    by (cases "setter c") (auto simp: setter_rank_def split: option.splits)
next
  case (Suc n)
  have "setter_rank (setter_moves r False c) \<le> n"
    using setter_advances [of c r] Suc.prems by (auto simp: setter_rank_def setter_moves_def)
  from Suc.IH [OF this] show ?case
    by (simp add: funpow_Suc_right del: funpow.simps)
qed

fun poller_left :: "poller_pc \<Rightarrow> nat" where
  "poller_left (P_done _) = 0"
| "poller_left (P_unpoll _) = 1"
| "poller_left (P_zero _) = 2"
| "poller_left P_try = 3"
| "poller_left P_try_again = 3"
| "poller_left P_again = 4"
| "poller_left P_load = 4"
| "poller_left P_sleep = 4"
| "poller_left P_flag = 5"
| "poller_left (P_clear _) = 5"
| "poller_left P_install = 6"

lemma poller_advances:
  assumes "protocol_inv r t c" "setter c = S_done"
  shows "poller c = P_done r \<or> poller_left (poller (poller_moves t spurious c)) < poller_left (poller c)"
    and "setter (poller_moves t spurious c) = S_done"
  using assms by (cases "poller c"; auto simp: protocol_defs poller_moves_def split: prod.splits)+

lemma poller_done_stays: "poller c = P_done r \<Longrightarrow> poller (fold (poller_moves t) flags c) = P_done r"
  by (induction flags arbitrary: c) (simp_all add: poller_moves_def)

lemma poller_finishes:
  assumes "protocol_inv r t c" "setter c = S_done" "poller_left (poller c) \<le> length flags"
  shows "poller (fold (poller_moves t) flags c) = P_done r"
  using assms
proof (induction flags arbitrary: c)
  case Nil
  then show ?case
    by (cases "poller c") (auto simp: protocol_defs)
next
  case (Cons f flags)
  note a = poller_advances [OF Cons.prems(1,2), of f]
  show ?case
  proof (cases "poller c = P_done r")
    case True
    then show ?thesis
      by (rule poller_done_stays)
  next
    case False
    then have "poller_left (poller (poller_moves t f c)) \<le> length flags"
      using a(1) Cons.prems(3) by auto
    from Cons.IH [OF poller_keeps [OF Cons.prems(1)] a(2) this] show ?thesis
      by simp
  qed
qed

lemma setter_iterates: "protocol_inv r t c \<Longrightarrow> protocol_inv r t ((setter_moves r False ^^ n) c)"
  by (induction n) (simp_all add: setter_keeps)

lemma setter_rank_le: "setter_rank c \<le> 6"
  by (cases "setter c") (auto simp: setter_rank_def split: option.splits)

lemma poller_left_le: "poller_left pc \<le> 6"
  by (cases pc) auto

section \<open>The composed operation\<close>

fun task_of :: "Monitor \<Rightarrow> task option" where
  "task_of (Async t) = t"
| "task_of (Sync t) = t"

definition slot_of :: "Entry \<Rightarrow> slot" where
  "slot_of e = \<lparr>slot_state = entry_state e, slot_pollable = pollable e, slot_task = task_of (monitor e)\<rparr>"

lemma setter_alone:
  assumes "setter c = S_pollable" "slot c = slot_of e"
  shows "slot ((setter_moves r False ^^ 6) c) =
      slot_of (e\<lparr>pollable := True, entry_state := resolved_state e r OR RESULT_FINALIZED, monitor := snd (notified e r)\<rparr>)"
    and "token ((setter_moves r False ^^ 6) c) \<longleftrightarrow> token c \<or> fst (notified e r) \<noteq> None"
  using assms
  by (auto simp: eval_nat_numeral setter_moves_def slot_of_def notified_def resolved_state_def take_task_def Let_def
      split: option.splits Monitor.splits)

section \<open>Guarantees\<close>

text \<open>C8: whatever the interleaving of the thread that sets the result and the task that polls, with spurious
  failures of the weak exchanges and spurious wake-ups: the two never access the cell of the monitor at the
  same time; the task gets exactly the result that was set; once it has it, the setter does not touch the
  entry any more, so its memory can be reused; and a task that sleeps after the setter is done has been
  notified.\<close>

theorem entry_protocol_safe:
  assumes "protocol_reachable r t c"
  shows "\<not> (setter c = S_take \<and> poller c = P_install) \<and>
    (\<forall>result. poller c = P_done result \<longrightarrow> result = r \<and> (setter c = S_done \<or> (\<exists>t'. setter c = S_notify t'))) \<and>
    (setter c = S_done \<and> poller c = P_sleep \<longrightarrow> token c)"
  using protocol_inv_reachable [OF assms]
  by (cases "setter c"; cases "poller c") (auto simp: protocol_defs split: option.splits)

text \<open>C9: from every state of the protocol the setter needs at most six undisturbed steps to finish, and after
  that the task needs at most six steps to return the result, whatever spurious failures and wake-ups it
  meets.\<close>

theorem entry_protocol_progress:
  assumes "protocol_reachable r t c" "length flags = 6"
  shows "setter ((setter_moves r False ^^ 6) c) = S_done \<and>
    poller (fold (poller_moves t) flags ((setter_moves r False ^^ 6) c)) = P_done r"
proof -
  have s: "setter ((setter_moves r False ^^ 6) c) = S_done"
    by (rule setter_finishes [OF setter_rank_le])
  moreover have "protocol_inv r t ((setter_moves r False ^^ 6) c)"
    by (rule setter_iterates [OF protocol_inv_reachable [OF assms(1)]])
  ultimately show ?thesis
    using poller_finishes [of r t _ flags] poller_left_le assms(2) by simp
qed

text \<open>The one-step \<open>set_result\<close> that the other theories use is the undisturbed run of the setter's steps.\<close>

lemma set_result_is_protocol:
  assumes "live w q" "setter c = S_pollable" "slot c = slot_of (node w q)" "\<not> token c"
  shows "\<exists>w'. set_result (entry_addr q) r (w, es) = Some (w', es) \<and>
    slot ((setter_moves r False ^^ 6) c) = slot_of (node w' q) \<and>
    (token ((setter_moves r False ^^ 6) c) \<longleftrightarrow> events w' \<noteq> events w)"
proof -
  have "node (resolve r q w) q = (node w q)\<lparr>pollable := True,
      entry_state := resolved_state (node w q) r OR RESULT_FINALIZED, monitor := snd (notified (node w q) r)\<rparr>"
    using assms(1) by (simp add: resolve_def node_upd)
  moreover have "events (resolve r q w) \<noteq> events w \<longleftrightarrow> fst (notified (node w q) r) \<noteq> None"
    by (auto simp: resolve_def upd_def split: option.splits)
  ultimately show ?thesis
    using set_result_live [OF assms(1)] setter_alone [OF assms(2,3), of r] assms(4) by auto
qed

section \<open>A run\<close>

lemma start_reachable: "protocol_reachable r t (protocol_start b)"
  unfolding protocol_reachable_def by blast

lemma setter_reachable: "protocol_reachable r t c \<Longrightarrow> protocol_reachable r t (setter_moves r spurious c)"
  unfolding protocol_reachable_def by (meson protocol_step.setter rtranclp.rtrancl_into_rtrancl)

lemma poller_reachable: "protocol_reachable r t c \<Longrightarrow> protocol_reachable r t (poller_moves t spurious c)"
  unfolding protocol_reachable_def by (meson protocol_step.poller rtranclp.rtrancl_into_rtrancl)

text \<open>The task goes to sleep before the setter starts.\<close>

definition asleep :: protocol where
  "asleep = (poller_moves 7 False ^^ 4) (protocol_start True)"

lemma asleep_reachable: "protocol_reachable r 7 ((setter_moves r False ^^ n) asleep)"
proof -
  have "protocol_reachable r 7 ((poller_moves 7 False ^^ n) (protocol_start True))" for n
    by (induction n) (simp_all add: start_reachable poller_reachable)
  then show ?thesis
    by (induction n) (simp_all add: asleep_def setter_reachable)
qed

theorem entry_protocol_safe_witness:
  "poller ((setter_moves 0 False ^^ 6) asleep) = P_sleep \<and> token ((setter_moves 0 False ^^ 6) asleep)"
proof -
  have "poller ((setter_moves 0 False ^^ 6) asleep) = P_sleep" "setter ((setter_moves 0 False ^^ 6) asleep) = S_done"
    by (simp_all add: asleep_def protocol_start_def eval_nat_numeral setter_moves_def poller_moves_def Let_def)
  then show ?thesis
    using entry_protocol_safe [OF asleep_reachable [of 0 6]] by blast
qed

theorem entry_protocol_progress_witness:
  "poller (fold (poller_moves 7) [True, False, True, False, True, False] ((setter_moves 3 False ^^ 6) asleep)) = P_done 3"
proof -
  have "protocol_reachable 3 7 asleep"
    using asleep_reachable [of 3 0] by simp
  then show ?thesis
    using entry_protocol_progress [of 3 7 asleep "[True, False, True, False, True, False]"] by simp
qed

end
