(* ===== verification/Cancelled_Waits.thy ===== *)
theory Cancelled_Waits
  imports Resource_Spec
begin

text \<open>
  Cancellation: what happens when a future or pager is dropped before its result was taken
  (\<open>Drop for WaitQueue\<close> in \<open>src/wait_queue.rs\<close>, \<open>remove_wait_queue_entry\<close> and
  \<open>force_remove_wait_queue_entry\<close> in \<open>src/sync_primitive.rs\<close>).  A task that still waits leaves the line
  (\<open>spec_cancel\<close>); a task that was granted the resource gives it back (\<open>spec_release\<close>).  Both run without
  interference here.
\<close>

section \<open>Finding the entry to remove\<close>

lemma iter_forward_remove:
  "chain w a (us @ q # vs) \<Longrightarrow>
   iter_forward True (remove_entry state (entry_addr q)) (entry_addr (hd (us @ [q]))) res (w, es) =
     do { (stop, res, s) \<leftarrow> remove_entry state (entry_addr q) (entry_addr q)
            (if vs = [] then 0 else entry_addr (hd vs)) res (link_prevs (us @ q # take 1 vs) w, es);
          Some (res, s) }"
proof (induction us arbitrary: a w)
  case Nil
  then have q: "live w q" and c: "chain w (next_entry_anchor (node w q)) vs"
    by auto
  show ?case
  proof (cases vs)
    case Nil
    with q c show ?thesis
      by (subst iter_forward.simps) (simp add: queue_simps remove_entry_def case_prod_beta cong: if_cong)
  next
    case (Cons v vs')
    with c have v: "live w v" "next_entry_anchor (node w q) = anchor_addr v"
      by auto
    with q Cons show ?thesis
      by (subst iter_forward.simps) (simp add: queue_simps remove_entry_def case_prod_beta cong: if_cong)
  qed
next
  case (Cons u us)
  let ?y = "hd (us @ [q])"
  have u: "live w u" and c: "chain w (next_entry_anchor (node w u)) (us @ q # vs)"
    using Cons.prems by auto
  have "us @ q # vs = ?y # tl (us @ q # vs)"
    by (cases us) auto
  with c have y: "live w ?y" "next_entry_anchor (node w u) = anchor_addr ?y"
    by (metis chain.simps(2))+
  have ne: "u \<noteq> q"
    using chain_distinct [OF Cons.prems] by auto
  have lq: "live w q"
    using chain_live [OF Cons.prems] by simp
  let ?w = "upd ?y (\<lambda>e. e\<lparr>prev_entry := entry_addr u\<rparr>) w"
  have "chain ?w (next_entry_anchor (node w u)) (us @ q # vs)"
    by (rule chain_cong [OF _ c]) (use y in auto)
  note IH = Cons.IH [OF this]
  have lp: "link_prevs ((u # us) @ q # take 1 vs) w = link_prevs (us @ q # take 1 vs) ?w"
    by (cases us) simp_all
  have "iter_forward True (remove_entry state (entry_addr q)) (entry_addr u) res (w, es) =
      iter_forward True (remove_entry state (entry_addr q)) (entry_addr ?y) res (?w, es)"
    using u y ne lq by (subst iter_forward.simps) (simp add: queue_simps remove_entry_def)
  with IH lp show ?case
    by simp
qed

lemma chain_bypass:
  "chain w a (us @ q # vs) \<Longrightarrow> us \<noteq> [] \<Longrightarrow>
   chain (upd (last us) (\<lambda>e. e\<lparr>next_entry_anchor := next_entry_anchor (node w q)\<rparr>) w) a (us @ vs)"
proof (induction us arbitrary: a)
  case (Cons u us)
  let ?f = "\<lambda>e. e\<lparr>next_entry_anchor := next_entry_anchor (node w q)\<rparr>"
  have u: "live w u" "a = anchor_addr u" and c: "chain w (next_entry_anchor (node w u)) (us @ q # vs)"
    using Cons.prems(1) by auto
  show ?case
  proof (cases "us = []")
    case True
    have cv: "chain w (next_entry_anchor (node w q)) vs"
      using c True by auto
    have "u \<notin> set vs"
      using chain_distinct [OF Cons.prems(1)] by auto
    then have "chain (upd u ?f w) (next_entry_anchor (node w q)) vs"
      by (intro chain_cong [OF _ cv]) (use u in auto)
    with True u show ?thesis
      by simp
  next
    case False
    then have "u \<noteq> last us" "live w (last us)"
      using chain_distinct [OF Cons.prems(1)] chain_live [OF Cons.prems(1)] by auto
    with Cons.IH [OF c False] u False show ?thesis
      by auto
  qed
qed simp

section \<open>Removing it\<close>

text \<open>The entries keep everything but their links, and entries outside the queue keep their links too.\<close>

definition relinked :: "usize list \<Rightarrow> world \<Rightarrow> world \<Rightarrow> bool" where
  "relinked qs w w' \<longleftrightarrow>
     (\<forall>p. live w p \<longrightarrow> live w' p \<and> opcode (node w' p) = opcode (node w p) \<and>
        entry_state (node w' p) = entry_state (node w p) \<and> pollable (node w' p) = pollable (node w p)) \<and>
     (\<forall>p. live w p \<longrightarrow> p \<notin> set qs \<longrightarrow> node w' p = node w p)"

lemma relinked_waiting: "relinked qs w w' \<Longrightarrow> waiting w p \<Longrightarrow> waiting w' p"
  by (auto simp: relinked_def waiting_def)

lemma relinked_prim: "relinked qs w w' \<Longrightarrow> relinked qs w (w'\<lparr>prim_state := x\<rparr>)"
  by (simp add: relinked_def)

lemma relinked_link:
  assumes "relinked qs w w'" "live w q" "q \<in> set qs"
    and "\<And>e. offset (f e) = offset e" "\<And>e. opcode (f e) = opcode e" "\<And>e. entry_state (f e) = entry_state e"
      "\<And>e. pollable (f e) = pollable e"
  shows "relinked qs w (upd q f w')"
proof -
  have l: "live w' q"
    using assms(1,2) by (simp add: relinked_def)
  have nd: "node (upd q f w') p = (if p = q then f (node w' q) else node w' p)" if "live w p" for p
    using that assms(1) l by (auto simp: relinked_def)
  show ?thesis
    using assms l nd unfolding relinked_def by (auto split: if_splits)
qed

lemma relinked_link_prevs:
  assumes "\<forall>p \<in> set us. live w p" "set us \<subseteq> set qs"
  shows "relinked qs w (link_prevs us w)"
proof -
  have "p \<notin> set (tl us)" if "p \<notin> set qs" for p
    using that assms(2) by (cases us) auto
  then show ?thesis
    using assms(1) by (simp add: relinked_def)
qed

definition removed_from :: "world \<Rightarrow> usize list \<Rightarrow> usize list \<Rightarrow> world \<Rightarrow> bool" where
  "removed_from w qs rest w' \<longleftrightarrow> well_formed w' rest \<and> (locked (prim_state w') \<longleftrightarrow> rest \<noteq> []) \<and>
     data_of (prim_state w') = data_of (prim_state w) \<and> relinked qs w w'"

lemma removed_fromI:
  assumes "queue w qs" "set rest \<subseteq> set qs" "relinked qs w w'" "chain w' (addr_of (prim_state w')) (rev rest)"
    and "rest \<noteq> [] \<Longrightarrow> prev_entry (node w' (last rest)) = 0" "locked (prim_state w') \<longleftrightarrow> rest \<noteq> []"
    and "data_of (prim_state w') = data_of (prim_state w)"
  shows "removed_from w qs rest w'"
  using assms relinked_waiting [OF assms(3)] queue_facts(2) [OF assms(1)]
  by (auto simp: removed_from_def well_formed_def queue_def)

text \<open>The walk from the newest entry to \<open>q\<close> has set the backward links: \<open>us\<close> are newer than \<open>q\<close>, \<open>vs\<close> older, both from
  new to old.\<close>

definition walked :: "world \<Rightarrow> usize list \<Rightarrow> usize list \<Rightarrow> usize \<Rightarrow> usize list \<Rightarrow> world \<Rightarrow> bool" where
  "walked w qs us q vs W \<longleftrightarrow> well_formed w qs \<and> locked (prim_state w) \<and> rev qs = us @ q # vs \<and>
     W = link_prevs (us @ q # take 1 vs) w"

lemma walked_before:
  assumes "walked w qs us q vs W"
  shows "queue w qs" "prev_entry (node w (last qs)) = 0" "locked (prim_state w)" "rev qs = us @ q # vs"
    "chain w (addr_of (prim_state w)) (us @ q # vs)" "distinct (us @ q # vs)" "set qs = set (us @ q # vs)"
    "p \<in> set (us @ q # vs) \<Longrightarrow> live w p" "\<forall>p \<in> set (us @ q # take 1 vs). live w p" "hd (us @ [q]) = last qs"
proof -
  show qu: "queue w qs" and rq: "rev qs = us @ q # vs" and "locked (prim_state w)"
    using assms by (auto simp: walked_def well_formed_def)
  then have ne: "qs \<noteq> []"
    by auto
  then show "prev_entry (node w (last qs)) = 0"
    using assms by (simp add: walked_def well_formed_def)
  show c: "chain w (addr_of (prim_state w)) (us @ q # vs)"
    using queue_facts(4) [OF qu] rq by simp
  then show "distinct (us @ q # vs)" "p \<in> set (us @ q # vs) \<Longrightarrow> live w p" "\<forall>p \<in> set (us @ q # take 1 vs). live w p"
    using chain_distinct chain_live by (blast, blast, auto dest: in_set_takeD)
  show "set qs = set (us @ q # vs)"
    using rq by (metis set_rev)
  have "hd (us @ [q]) = hd (rev qs)"
    unfolding rq by (cases us) simp_all
  then show "hd (us @ [q]) = last qs"
    using ne by (simp add: hd_rev)
qed

lemma walked_after:
  assumes "walked w qs us q vs W"
  shows "relinked qs w W" "prim_state W = prim_state w" "live w p \<Longrightarrow> next_entry_anchor (node W p) = next_entry_anchor (node w p)"
    "p \<in> set (us @ q # vs) \<Longrightarrow> live W p" "chain W (addr_of (prim_state w)) (us @ q # vs)"
proof -
  note b = walked_before [OF assms]
  have W: "W = link_prevs (us @ q # take 1 vs) w"
    using assms by (simp add: walked_def)
  show r: "relinked qs w W"
    unfolding W by (rule relinked_link_prevs [OF b(9)]) (use b(7) in \<open>auto dest: in_set_takeD\<close>)
  show "prim_state W = prim_state w"
    using b(9) by (simp add: W)
  have n: "live w p \<Longrightarrow> next_entry_anchor (node W p) = next_entry_anchor (node w p)" for p
    using b(9) by (simp add: W)
  then show "live w p \<Longrightarrow> next_entry_anchor (node W p) = next_entry_anchor (node w p)" .
  show "p \<in> set (us @ q # vs) \<Longrightarrow> live W p"
    using b(8) [of p] r by (simp add: relinked_def)
  show "chain W (addr_of (prim_state w)) (us @ q # vs)"
    by (rule chain_cong [OF _ b(5)]) (use r n in \<open>auto simp: relinked_def\<close>)
qed

lemma walked_run:
  assumes "walked w qs us q vs W"
  shows "remove_wait_queue_entry (prim_state w) (entry_addr q) (w, []) =
      do { (stop, res, s) \<leftarrow> remove_entry (prim_state w) (entry_addr q) (entry_addr q)
             (if vs = [] then 0 else entry_addr (hd vs)) (Ok (prim_state w, False)) (W, []);
           case res of Ok out \<Rightarrow> Some (out, s)
           | Err new_state \<Rightarrow> remove_wait_queue_entry_loop res new_state (entry_addr q) s }"
proof -
  note b = walked_before [OF assms]
  have ne: "qs \<noteq> []"
    using b(4) by auto
  have tail: "to_entry_ptr (to_anchor_ptr (prim_state w)) (w, []) = Some (entry_addr (hd (us @ [q])))"
    using queue_addr [OF b(1) ne] to_entry_live [OF queue_facts(3) [OF b(1) last_in_set [OF ne]]] b(10)
    by (simp add: to_anchor_ptr_def addr_of_def Let_def)
  have W: "link_prevs (us @ q # take 1 vs) w = W"
    using assms by (simp add: walked_def)
  show ?thesis
    unfolding remove_wait_queue_entry_def
    by (subst remove_wait_queue_entry_loop.simps)
       (simp only: tail iter_forward_remove [OF b(5)] W Option.bind.simps Option.bind_assoc case_prod_beta' fst_conv snd_conv)
qed

text \<open>An entry that is not the newest is unlinked by its newer neighbour.\<close>

lemma remove_older:
  assumes wk: "walked w qs us q vs W" and us: "us \<noteq> []"
  shows "\<exists>w'. remove_wait_queue_entry (prim_state w) (entry_addr q) (w, []) = Some ((prim_state w', True), (w', [])) \<and>
    removed_from w qs (rev vs @ rev us) w'"
proof -
  note b = walked_before [OF wk] and a = walked_after [OF wk]
  let ?l = "last us" and ?s = "prim_state w"
  define W1 where "W1 = (if vs = [] then W else upd (hd vs) (\<lambda>e. e\<lparr>prev_entry := entry_addr ?l\<rparr>) W)"
  define W2 where "W2 = upd ?l (\<lambda>e. e\<lparr>next_entry_anchor := next_entry_anchor (node w q)\<rparr>) W1"
  have W: "W = link_prevs (us @ q # take 1 vs) w"
    using wk by (simp add: walked_def)
  have lq: "live W q" "next_entry_anchor (node W q) = next_entry_anchor (node w q)"
    using a(3,4) b(8) by auto
  have hv: "live W (hd vs)" "hd vs \<in> set qs" "hd vs \<noteq> q" "live w (hd vs)" if "vs \<noteq> []"
    using that a(4) b(6,7,8) by auto
  have "plinked W (us @ q # take 1 vs)"
    unfolding W by (rule plinked_link_prevs) (use b(6,9) in \<open>auto dest: in_set_takeD\<close>)
  then have pq: "prev_entry (node W q) = entry_addr ?l"
    using us plinked_append [of us W "q # take 1 vs"] by simp
  have ll: "live W ?l" "?l \<in> set qs" "live w ?l"
    using a(4) b(7,8) us by auto
  have r1: "relinked qs w W1"
    using relinked_link [OF a(1) hv(4,2)] a(1) by (cases "vs = []") (simp_all add: W1_def)
  have l1: "live W1 ?l" "live W1 q" "prim_state W1 = ?s"
    using r1 b(8) us a(2) by (auto simp: relinked_def W1_def)
  have n1: "next_entry_anchor (node W1 p) = next_entry_anchor (node W p)" if "live W p" for p
    using that hv by (auto simp: W1_def)
  have r2: "relinked qs w W2"
    unfolding W2_def using r1 ll us by (intro relinked_link) auto
  have "remove_wait_queue_entry ?s (entry_addr q) (w, []) = Some ((?s, True), (W2, []))"
    unfolding walked_run [OF wk] remove_entry_def using lq pq ll l1 hv n1 [OF lq(1)]
    by (auto simp: queue_simps W2_def W1_def)
  moreover have "chain W2 (addr_of ?s) (us @ vs)"
  proof -
    have "chain W1 (addr_of ?s) (us @ q # vs)"
      by (rule chain_cong [OF _ a(5)]) (use r1 n1 a(4) b(8) in \<open>auto simp: relinked_def\<close>)
    from chain_bypass [OF this us] n1 [OF lq(1)] lq(2) show ?thesis
      by (simp add: W2_def)
  qed
  moreover have "prev_entry (node W2 (last (rev vs @ rev us))) = 0"
  proof -
    have nl: "last (rev vs @ rev us) = hd us" "hd us = last qs"
      using us b(10) by (auto simp: last_rev)
    have hu: "hd us \<in> set us" "live W (hd us)" "live w (hd us)"
      using us a(4) b(8) by auto
    have "hd us \<notin> set (tl (us @ q # take 1 vs))"
      using b(6) us by (cases us) (auto dest: in_set_takeD)
    then have "node W (hd us) = node w (hd us)"
      unfolding W using b(9) hu by (intro link_prevs_simps(4)) auto
    moreover have "prev_entry (node W2 (hd us)) = prev_entry (node W (hd us))"
      using hu hv l1 ll b(6) by (auto simp: W2_def W1_def)
    ultimately show ?thesis
      using b(2) nl by simp
  qed
  moreover have "set (rev vs @ rev us) \<subseteq> set qs"
    using b(7) by auto
  ultimately show ?thesis
    using r2 us l1 b(3)
    by (intro exI [of _ W2] conjI removed_fromI [OF b(1)]) (auto simp: W2_def)
qed

text \<open>The newest entry is unlinked by an exchange of the state word.\<close>

lemma remove_newest:
  assumes wk: "walked w qs [] q vs W"
  shows "\<exists>w'. remove_wait_queue_entry (prim_state w) (entry_addr q) (w, []) = Some ((prim_state w', True), (w', [])) \<and>
    removed_from w qs (rev vs) w'"
proof -
  note b = walked_before [OF wk] and a = walked_after [OF wk] and run = walked_run [OF wk]
  let ?s = "prim_state w"
  have lq: "live W q"
    using a(4) by simp
  have "q \<notin> set (tl ([] @ q # take 1 vs))"
    using b(6) by (auto dest: in_set_takeD)
  then have "node W q = node w q"
    using wk b(8,9) by (simp add: walked_def link_prevs_simps(4))
  then have pq: "prev_entry (node W q) = 0"
    using b(2,10) by simp
  have rest: "set (rev vs) \<subseteq> set qs"
    using b(7) by auto
  show ?thesis
  proof (cases vs)
    case Nil
    define W2 where "W2 = W\<lparr>prim_state := ?s AND DATA_MASK\<rparr>"
    note v = small_views [OF data_of_le [of ?s], unfolded data_of_def [of ?s]]
    have "remove_wait_queue_entry ?s (entry_addr q) (w, []) = Some ((?s AND DATA_MASK, True), (W2, []))"
      unfolding run remove_entry_def using lq pq Nil a(2)
      by (simp add: queue_simps exchange_to_def atomics W2_def)
    then show ?thesis
      using a(1) v Nil rest
      by (intro exI [of _ W2] conjI removed_fromI [OF b(1)])
         (auto simp: W2_def relinked_prim data_of_def)
  next
    case (Cons v vs')
    define W1 where "W1 = upd v (\<lambda>e. e\<lparr>prev_entry := 0\<rparr>) W"
    define x where "x = (?s AND NOT ADDR_MASK) OR anchor_addr v"
    define W2 where "W2 = W1\<lparr>prim_state := x\<rparr>"
    have v: "live W v" "v \<noteq> q" "live w v" "v \<in> set qs"
      using Cons a(4) b(6,7,8) by auto
    then have av: "addr_of (anchor_addr v) = anchor_addr v"
      by auto
    note xv = replace_addr_views [OF av, of ?s, folded x_def]
    have r1: "relinked qs w W1"
      unfolding W1_def by (rule relinked_link [OF a(1) v(3,4)]) auto
    have "remove_wait_queue_entry ?s (entry_addr q) (w, []) = Some ((x, True), (W2, []))"
      unfolding run remove_entry_def using lq pq Cons v a(2)
      by (simp add: queue_simps exchange_to_def atomics W2_def W1_def x_def)
    moreover have "chain W (anchor_addr v) vs"
      using a(5) chain_start Cons by fastforce
    then have "chain W2 (anchor_addr v) vs"
      by (rule chain_cong [rotated]) (use v in \<open>auto simp: W2_def W1_def\<close>)
    ultimately show ?thesis
      using r1 xv b(3) v rest Cons
      by (intro exI [of _ W2] conjI removed_fromI [OF b(1)])
         (auto simp: W2_def W1_def relinked_prim)
  qed
qed

lemma remove_alone:
  assumes "well_formed w qs" "qs = olds @ q # news" "locked (prim_state w)"
  shows "\<exists>w'. remove_wait_queue_entry (prim_state w) (entry_addr q) (w, []) = Some ((prim_state w', True), (w', [])) \<and>
    removed_from w qs (olds @ news) w'"
proof -
  have "walked w qs (rev news) q (rev olds) (link_prevs (rev news @ q # take 1 (rev olds)) w)"
    using assms by (simp add: walked_def)
  with remove_older [of w qs "rev news" q "rev olds"] remove_newest [of w qs q "rev olds"] show ?thesis
    by (cases "news = []") auto
qed

section \<open>Cancelling a task that waits\<close>

definition spec_cancel :: "nat \<Rightarrow> usize \<Rightarrow> resource \<Rightarrow> resource" where
  "spec_cancel limit q r = grant limit (r\<lparr>line := filter (\<lambda>p. fst p \<noteq> q) (line r)\<rparr>)"

lemma unchanged_trans:
  "unchanged A w w1 \<Longrightarrow> unchanged B w1 w2 \<Longrightarrow> A \<subseteq> C \<Longrightarrow> B \<subseteq> C \<Longrightarrow> unchanged C w w2"
  unfolding unchanged_def by (metis subsetD)

lemma unchanged_prim [simp]: "unchanged A (w\<lparr>prim_state := x\<rparr>) w' = unchanged A w w'"
  "unchanged A w (w'\<lparr>prim_state := x\<rparr>) = unchanged A w w'"
  by (simp_all add: unchanged_def)

lemma relinked_unchanged: "relinked qs w w' \<Longrightarrow> unchanged (set qs) w w'"
  by (simp add: relinked_def unchanged_def)

lemma lock_views: "addr_of (s OR LOCKED_FLAG) = addr_of s" "locked (s OR LOCKED_FLAG)" "data_of (s OR LOCKED_FLAG) = data_of s"
  by (rule or_locked_views)+

lemma force_remove_locks:
  assumes "\<not> locked (prim_state w)" "addr_of (prim_state w) \<noteq> 0"
  shows "force_remove_loop most p (prim_state w) (w, []) =
    do { ((new_state, removed), s) \<leftarrow> remove_wait_queue_entry (prim_state w OR LOCKED_FLAG) p
           (w\<lparr>prim_state := prim_state w OR LOCKED_FLAG\<rparr>, []);
         s \<leftarrow> (if locked new_state then process_wait_queue most new_state s else Some s);
         Some (\<not> removed, prim_state w, s) }"
  using assms by (subst force_remove_loop.simps) (simp add: atomics locked_def addr_of_def)

lemma filter_others: "distinct (map fst (xs @ (q, y) # ys)) \<Longrightarrow> filter (\<lambda>p. fst p \<noteq> q) (xs @ (q, y) # ys) = xs @ ys"
proof -
  assume "distinct (map fst (xs @ (q, y) # ys))"
  then have "filter (\<lambda>p. fst p \<noteq> q) xs = xs" "filter (\<lambda>p. fst p \<noteq> q) ys = ys"
    unfolding filter_id_conv by auto
  then show ?thesis
    by simp
qed

text \<open>The entry is out of the list, which is locked if others are in it.\<close>

lemma removed_represents:
  assumes "represents w r" and xy: "line r = xs @ (q, opc) # ys"
  defines "s \<equiv> prim_state w" and "rest \<equiv> map fst (xs @ ys)"
  shows "\<exists>w2. remove_wait_queue_entry (s OR LOCKED_FLAG) (entry_addr q) (w\<lparr>prim_state := s OR LOCKED_FLAG\<rparr>, []) = Some ((prim_state w2, True), (w2, [])) \<and>
    well_formed w2 rest \<and> (locked (prim_state w2) \<longleftrightarrow> rest \<noteq> []) \<and> unat (data_of (prim_state w2)) = in_use r \<and>
    unchanged (set (map fst (line r))) w w2 \<and> waiting w2 q \<and> opcodes w2 rest = map snd (xs @ ys)"
proof -
  let ?qs = "map fst (line r)" and ?w1 = "w\<lparr>prim_state := s OR LOCKED_FLAG\<rparr>"
  have dt: "unat (data_of s) = in_use r" and wf: "well_formed w ?qs" and ops: "opcodes w ?qs = map snd (line r)"
    using assms(1) by (auto simp: represents_def s_def)
  have qu: "queue w ?qs" and wf1: "well_formed ?w1 ?qs"
    using wf well_formed_prim [OF wf, of "s OR LOCKED_FLAG"] lock_views(1) by (auto simp: well_formed_def s_def)
  have sp: "?qs = map fst xs @ q # map fst ys"
    by (simp add: xy)
  obtain w2 where rm: "remove_wait_queue_entry (s OR LOCKED_FLAG) (entry_addr q) (?w1, []) = Some ((prim_state w2, True), (w2, []))"
    and rf: "removed_from ?w1 ?qs (map fst xs @ map fst ys) w2"
    using remove_alone [OF wf1 sp] lock_views(2) by auto
  have rl: "relinked ?qs ?w1 w2" and w2: "well_formed w2 rest" "locked (prim_state w2) \<longleftrightarrow> rest \<noteq> []"
    "data_of (prim_state w2) = data_of s"
    using rf lock_views(3) by (auto simp: removed_from_def rest_def)
  have "waiting w q"
    using queue_facts(2) [OF qu, of q] xy by simp
  then have "waiting w2 q"
    using relinked_waiting [OF rl, of q] by (simp add: waiting_def)
  moreover have "opcode (node w2 p) = opcode (node w p)" if "p \<in> set ?qs" for p
    using rl queue_facts(3) [OF qu that] by (simp add: relinked_def)
  then have "opcodes w2 rest = map snd (xs @ ys)"
    using ops unfolding xy rest_def by (auto simp: map_eq_conv)
  ultimately show ?thesis
    using rm w2 dt relinked_unchanged [OF rl] by auto
qed

lemma cancel_waiting:
  assumes "unat most \<le> 63" "represents w r" "(q, opc) \<in> set (line r)"
  shows "\<exists>w'. force_remove_wait_queue_entry most (entry_addr q) (w, []) = Some (w', []) \<and>
    represents w' (spec_cancel (unat most) q r) \<and>
    served (r\<lparr>line := filter (\<lambda>p. fst p \<noteq> q) (line r)\<rparr>) (spec_cancel (unat most) q r) w' \<and>
    waiting w' q \<and> unchanged (set (map fst (line r))) w w'"
proof -
  obtain xs ys where xy: "line r = xs @ (q, opc) # ys"
    using assms(3) by (auto simp: in_set_conv_decomp)
  let ?s = "prim_state w" and ?qs = "map fst (line r)" and ?rest = "map fst (xs @ ys)" and ?r = "r\<lparr>line := xs @ ys\<rparr>"
  have ul: "\<not> locked ?s" and qu: "queue w ?qs"
    using assms(2) by (auto simp: represents_def well_formed_def)
  have dist: "distinct ?qs" and an: "addr_of ?s \<noteq> 0"
    using queue_facts(1) [OF qu] queue_empty_iff [OF qu] xy by auto
  obtain w2 where w2: "remove_wait_queue_entry (?s OR LOCKED_FLAG) (entry_addr q) (w\<lparr>prim_state := ?s OR LOCKED_FLAG\<rparr>, []) = Some ((prim_state w2, True), (w2, []))"
    "well_formed w2 ?rest" "locked (prim_state w2) \<longleftrightarrow> ?rest \<noteq> []" "unat (data_of (prim_state w2)) = in_use r"
    "unchanged (set ?qs) w w2" "waiting w2 q" "opcodes w2 ?rest = map snd (xs @ ys)"
    using removed_represents [OF assms(2) xy] by blast
  have "\<exists>w'. (if locked (prim_state w2) then process_wait_queue most (prim_state w2) (w2, []) else Some (w2, [])) = Some (w', []) \<and>
    represents w' (grant (unat most) ?r) \<and> served ?r (grant (unat most) ?r) w' \<and> unchanged (set ?rest) w2 w'"
  proof (cases "?rest = []")
    case True
    then show ?thesis
      using w2 by (simp add: represents_def grant_def served_def unchanged_def)
  next
    case False
    then show ?thesis
      using process_grants [of w2 ?r most] w2 assms(1) by auto
  qed
  then obtain w' where w': "(if locked (prim_state w2) then process_wait_queue most (prim_state w2) (w2, []) else Some (w2, [])) = Some (w', [])"
    "represents w' (grant (unat most) ?r)" "served ?r (grant (unat most) ?r) w'" "unchanged (set ?rest) w2 w'"
    by blast
  have "q \<notin> set ?rest"
    using dist unfolding xy by auto
  then have "waiting w' q"
    using w'(4) w2(6) by (auto simp: unchanged_def waiting_def)
  moreover have "unchanged (set ?qs) w w'"
    by (rule unchanged_trans [OF w2(5) w'(4)]) (auto simp: xy)
  moreover have "force_remove_wait_queue_entry most (entry_addr q) (w, []) = Some (w', [])"
    using w2(1) w'(1) by (simp add: force_remove_wait_queue_entry_def atomics force_remove_locks [OF ul an])
  ultimately show ?thesis
    using w' filter_others [of xs q opc ys] dist xy by (simp add: spec_cancel_def)
qed

section \<open>Cancelling a task that was granted\<close>

lemma iter_forward_absent:
  "chain w a xs \<Longrightarrow> xs \<noteq> [] \<Longrightarrow> t \<notin> entry_addr ` set xs \<Longrightarrow>
   iter_forward True (remove_entry state t) (entry_addr (hd xs)) res (w, es) = Some (res, (link_prevs xs w, es))"
proof (induction xs arbitrary: a w)
  case (Cons x xs)
  then have x: "live w x" and c: "chain w (next_entry_anchor (node w x)) xs"
    by auto
  show ?case
  proof (cases xs)
    case Nil
    with x c Cons.prems show ?thesis
      by (subst iter_forward.simps) (simp add: queue_simps remove_entry_def iter_forward.simps)
  next
    case (Cons y zs)
    with c have y: "live w y" "next_entry_anchor (node w x) = anchor_addr y"
      by auto
    let ?w = "upd y (\<lambda>e. e\<lparr>prev_entry := entry_addr x\<rparr>) w"
    have "chain ?w (anchor_addr y) xs"
      by (rule chain_cong [of _ w]) (use y c in auto)
    from Cons.IH [OF this] Cons Cons.prems(3) have
      "iter_forward True (remove_entry state t) (entry_addr y) res (?w, es) = Some (res, (link_prevs xs ?w, es))"
      by simp
    with x y Cons Cons.prems(3) show ?thesis
      by (subst iter_forward.simps) (auto simp: queue_simps remove_entry_def)
  qed
qed simp

lemma await_finalized_ready: "has_result x w q \<Longrightarrow> await_finalized (entry_addr q) (w, []) = Some (w, [])"
  by (subst await_finalized.simps)
     (simp add: result_finalized_def load_entry_state_def read_live has_result_def)

lemma grant_of_blocked: "blocked limit r \<Longrightarrow> grant limit r = r"
  by (cases "line r") (simp_all add: blocked_def grant_def)

lemma remove_absent:
  assumes "well_formed w qs" "qs \<noteq> []" "locked (prim_state w)" "live w q" "q \<notin> set qs"
  shows "\<exists>w'. remove_wait_queue_entry (prim_state w) (entry_addr q) (w, []) = Some ((prim_state w, False), (w', [])) \<and>
    well_formed w' qs \<and> prim_state w' = prim_state w \<and> relinked qs w w'"
proof -
  let ?s = "prim_state w" and ?w = "link_prevs (rev qs) w"
  have qu: "queue w qs" and p0: "prev_entry (node w (last qs)) = 0"
    using assms(1,2) by (auto simp: well_formed_def)
  have live: "\<forall>p \<in> set (rev qs). live w p"
    using queue_facts(3) [OF qu] by auto
  have rl: "relinked qs w ?w"
    by (rule relinked_link_prevs [OF live]) simp
  have tail: "to_entry_ptr (to_anchor_ptr ?s) (w, []) = Some (entry_addr (hd (rev qs)))"
    using queue_addr [OF qu assms(2)] to_entry_live [OF queue_facts(3) [OF qu last_in_set [OF assms(2)]]] assms(2)
    by (simp add: to_anchor_ptr_def addr_of_def hd_rev Let_def)
  have "entry_addr q \<notin> entry_addr ` set (rev qs)"
    using assms(4,5) live by auto
  then have "iter_forward True (remove_entry ?s (entry_addr q)) (entry_addr (hd (rev qs))) (Ok (?s, False)) (w, []) =
      Some (Ok (?s, False), (?w, []))"
    using iter_forward_absent [OF queue_facts(4) [OF qu]] assms(2) by simp
  then have "remove_wait_queue_entry ?s (entry_addr q) (w, []) = Some ((?s, False), (?w, []))"
    unfolding remove_wait_queue_entry_def by (subst remove_wait_queue_entry_loop.simps) (simp add: tail)
  moreover have "well_formed ?w qs"
  proof -
    have "queue ?w qs"
      by (rule queue_cong [OF qu]) (use live relinked_waiting [OF rl] queue_facts(2) [OF qu] in auto)
    moreover have "last qs \<notin> set (tl (rev qs))"
      using queue_facts(1) [OF qu] assms(2) by (cases qs rule: rev_cases) auto
    then have "node ?w (last qs) = node w (last qs)"
      using live assms(2) by (intro link_prevs_simps(4)) auto
    ultimately show ?thesis
      using p0 by (simp add: well_formed_def)
  qed
  ultimately show ?thesis
    using rl live by (intro exI [of _ ?w]) simp
qed

lemma force_remove_absent:
  assumes "unat most \<le> 63" "represents w r" "blocked (unat most) r" "live w q" "q \<notin> set (map fst (line r))"
  shows "\<exists>w'. force_remove_loop most (entry_addr q) (prim_state w) (w, []) = Some (True, prim_state w', (w', [])) \<and>
    represents w' r \<and> unchanged (set (map fst (line r))) w w'"
proof -
  let ?s = "prim_state w" and ?qs = "map fst (line r)"
  let ?w1 = "w\<lparr>prim_state := ?s OR LOCKED_FLAG\<rparr>"
  have ul: "\<not> locked ?s" and dt: "unat (data_of ?s) = in_use r" and wf: "well_formed w ?qs"
    and ops: "opcodes w ?qs = map snd (line r)"
    using assms(2) by (auto simp: represents_def)
  have qu: "queue w ?qs"
    using wf by (simp add: well_formed_def)
  show ?thesis
  proof (cases "line r = []")
    case True
    then have "addr_of ?s = 0"
      using queue_empty_iff [OF qu] by simp
    then have "force_remove_loop most (entry_addr q) ?s (w, []) = Some (True, ?s, (w, []))"
      using ul by (subst force_remove_loop.simps) (simp add: locked_def addr_of_def)
    with assms(2) show ?thesis
      by (auto simp: unchanged_def)
  next
    case False
    then have an: "addr_of ?s \<noteq> 0" and ne: "?qs \<noteq> []"
      using queue_empty_iff [OF qu] by simp_all
    have wf1: "well_formed ?w1 ?qs"
      by (rule well_formed_prim [OF wf lock_views(1)])
    obtain w2 where rm: "remove_wait_queue_entry (?s OR LOCKED_FLAG) (entry_addr q) (?w1, []) =
        Some ((prim_state w2, False), (w2, []))"
      and wf2: "well_formed w2 ?qs" and ps: "prim_state w2 = ?s OR LOCKED_FLAG" and rl: "relinked ?qs ?w1 w2"
      using remove_absent [OF wf1 ne, of q] lock_views(2) assms(4,5) by auto
    have "opcodes w2 ?qs = opcodes w ?qs"
      using rl queue_facts(3) [OF qu] by (simp add: relinked_def)
    moreover have "locked (prim_state w2)" "unat (data_of (prim_state w2)) = in_use r"
      using ps dt by (simp_all add: lock_views)
    ultimately obtain w' where p: "process_wait_queue most (prim_state w2) (w2, []) = Some (w', [])"
      "represents w' r" "unchanged (set ?qs) w2 w'"
      using process_grants [of w2 r most] wf2 False ops assms(1) grant_of_blocked [OF assms(3)] by auto
    have "prim_state w' = ?s"
    proof (rule state_eqI)
      have q': "queue w' ?qs" "unat (data_of (prim_state w')) = in_use r" "\<not> locked (prim_state w')"
        using p(2) by (auto simp: represents_def well_formed_def)
      then show "addr_of (prim_state w') = addr_of ?s" "data_of (prim_state w') = data_of ?s"
        "locked (prim_state w') = locked ?s"
        using queue_addr [OF q'(1) ne] queue_addr [OF qu ne] dt ul by (simp_all add: word_unat_eq_iff)
    qed
    moreover have "unchanged (set ?qs) w w'"
      using unchanged_trans [OF relinked_unchanged [OF rl] p(3), of "set ?qs"] by simp
    moreover have "locked (prim_state w2)"
      using ps by (simp add: lock_views)
    ultimately show ?thesis
      using rm p(1,2) force_remove_locks [OF ul an] by (intro exI [of _ w']) (simp add: locked_def)
  qed
qed

lemma cancel_granted:
  assumes "unat most \<le> 63" "represents w r" "blocked (unat most) r" "has_result x w q" "q \<notin> set (map fst (line r))"
  shows "\<exists>w'. force_remove_wait_queue_entry most (entry_addr q) (w, []) = Some (w', []) \<and>
    represents w' (snd (spec_release (unat most) (opcode (node w q)) r)) \<and>
    served r (snd (spec_release (unat most) (opcode (node w q)) r)) w' \<and>
    unchanged (set (map fst (line r))) w w'"
proof -
  let ?A = "set (map fst (line r))"
  have lq: "live w q"
    using assms(4) by (simp add: has_result_def)
  obtain w1 where f: "force_remove_loop most (entry_addr q) (prim_state w) (w, []) = Some (True, prim_state w1, (w1, []))"
    and r1: "represents w1 r" and u1: "unchanged ?A w w1"
    using force_remove_absent [OF assms(1-3) lq assms(5)] by blast
  have q1: "has_result x w1 q" "live w1 q" "node w1 q = node w q"
    using u1 assms(4,5) lq by (auto simp: unchanged_def has_result_def)
  obtain b w' where rel: "release_loop most (prim_state w1) (opcode (node w q)) (w1, []) = Some (b, (w', []))"
    "represents w' (snd (spec_release (unat most) (opcode (node w q)) r))"
    "served r (snd (spec_release (unat most) (opcode (node w q)) r)) w'" "unchanged ?A w1 w'"
    using sync_primitive.release_refines [OF sync_primitive.intro [OF assms(1)] r1] by blast
  have "opcode_of (entry_addr q) (w1, []) = Some (opcode (node w q))"
    using q1 by (simp add: opcode_of_def read_live)
  then have "force_remove_wait_queue_entry most (entry_addr q) (w, []) = Some (w', [])"
    using f rel(1) by (simp add: force_remove_wait_queue_entry_def atomics await_finalized_ready [OF q1(1)])
  with rel unchanged_trans [OF u1 rel(4)] show ?thesis
    by blast
qed

section \<open>Dropping a wait queue\<close>

lemma well_formed_unchanged:
  assumes "well_formed w qs" "unchanged A w w'" "A \<inter> set qs = {}" "addr_of (prim_state w') = addr_of (prim_state w)"
  shows "well_formed w' qs" and "opcodes w' qs = opcodes w qs"
proof -
  have q: "queue w qs"
    using assms(1) by (simp add: well_formed_def)
  have nd: "live w' p \<and> node w' p = node w p" if "p \<in> set qs" for p
    using that assms(2,3) queue_facts(3) [OF q that] by (auto simp: unchanged_def)
  have "queue w' qs"
    by (rule queue_cong [OF q]) (use assms(4) nd queue_facts(2) [OF q] in \<open>auto simp: waiting_def\<close>)
  then show "well_formed w' qs"
    using assms(1) nd [of "last qs"] by (simp add: well_formed_def)
  show "opcodes w' qs = opcodes w qs"
    using nd by simp
qed

lemma represents_unchanged:
  assumes "represents w r" "unchanged A w w'" "A \<inter> set (map fst (line r)) = {}" "prim_state w' = prim_state w"
  shows "represents w' r"
  using assms well_formed_unchanged [of w "map fst (line r)" A w'] by (simp add: represents_def)

lemma served_unchanged:
  assumes "served r r' w" "unchanged A w w'" "A \<inter> set (map fst (line r)) = {}"
  shows "served r r' w'"
  unfolding served_def
proof (clarify)
  fix q opc assume p: "(q, opc) \<in> set (line r)" "(q, opc) \<notin> set (line r')"
  then have "has_result 0 w q" "opcode (node w q) = opc" "q \<notin> A"
    using assms by (force simp: served_def)+
  then show "has_result 0 w' q \<and> opcode (node w' q) = opc"
    using assms(2) by (auto simp: unchanged_def has_result_def)
qed

lemma free_unchanged:
  assumes "live w q"
  shows "unchanged {q} w (fst (wait_queue_free q (upd q f w, [])))"
  unfolding unchanged_def
proof (intro allI impI)
  fix p assume p: "live w p" "p \<notin> {q}"
  then have "anchor_addr p \<noteq> anchor_addr q" "entry_addr p \<noteq> entry_addr q"
    using assms live_inj [OF p(1) assms] by auto
  with p(1) show "live (fst (wait_queue_free q (upd q f w, []))) p \<and> node (fst (wait_queue_free q (upd q f w, []))) p = node w p"
    by (simp add: wait_queue_free_def upd_def live_def node_def)
qed

lemma wait_queue_drop_pollable:
  assumes "live w q" "pollable (node w q)" "cb (drop_callback (node w q)) (entry_addr q) (w, []) = Some (w', [])" "live w' q"
  shows "\<exists>w''. wait_queue_drop cb q (w, []) = Some (w'', []) \<and> unchanged {q} w' w'' \<and>
    prim_state w'' = prim_state w' \<and> entries w'' (entry_addr q) = None \<and> anchors w'' (anchor_addr q) = None"
proof -
  let ?f = "\<lambda>e. e\<lparr>pollable := False\<rparr>"
  let ?w = "fst (wait_queue_free q (upd q ?f w', []))"
  have "wait_queue_drop cb q (w, []) = Some (?w, [])"
    using assms by (simp add: wait_queue_drop_def prepare_drop_def queue_simps wait_queue_free_def)
  moreover have "prim_state ?w = prim_state w'" "entries ?w (entry_addr q) = None" "anchors ?w (anchor_addr q) = None"
    by (simp_all add: wait_queue_free_def upd_def)
  ultimately show ?thesis
    using free_unchanged [OF assms(4)] by blast
qed

lemma drop_refines:
  assumes "live w q" "pollable (node w q)" "cb (drop_callback (node w q)) (entry_addr q) (w, []) = Some (w', [])"
    and "represents w' r'" "served r r' w'" "unchanged A w w'" "live w' q"
    and "q \<notin> set (map fst (line r'))" "q \<notin> set (map fst (line r))"
  shows "\<exists>w''. wait_queue_drop cb q (w, []) = Some (w'', []) \<and> represents w'' r' \<and> served r r' w'' \<and>
    entries w'' (entry_addr q) = None \<and> anchors w'' (anchor_addr q) = None \<and> unchanged (insert q A) w w''"
proof -
  obtain w'' where d: "wait_queue_drop cb q (w, []) = Some (w'', [])" "unchanged {q} w' w''" "prim_state w'' = prim_state w'"
    "entries w'' (entry_addr q) = None" "anchors w'' (anchor_addr q) = None"
    using wait_queue_drop_pollable [where cb = cb, OF assms(1-3,7)] by blast
  have "represents w'' r'"
    by (rule represents_unchanged [OF assms(4) d(2) _ d(3)]) (use assms(8) in simp)
  moreover have "served r r' w''"
    by (rule served_unchanged [OF assms(5) d(2)]) (use assms(9) in simp)
  moreover have "unchanged (insert q A) w w''"
    by (rule unchanged_trans [OF assms(6) d(2)]) auto
  ultimately show ?thesis
    using d by blast
qed

lemma grant_line: "set (line (grant limit r)) \<subseteq> set (line r)"
  by (auto simp: grant_def Let_def dest: in_set_dropD)

lemma drop_waiting:
  assumes "unat most \<le> 63" "represents w r" "(q, opc) \<in> set (line r)"
  shows "\<exists>w'. wait_queue_drop (\<lambda>_. force_remove_wait_queue_entry most) q (w, []) = Some (w', []) \<and>
    represents w' (spec_cancel (unat most) q r) \<and>
    served (r\<lparr>line := filter (\<lambda>p. fst p \<noteq> q) (line r)\<rparr>) (spec_cancel (unat most) q r) w' \<and>
    entries w' (entry_addr q) = None \<and> anchors w' (anchor_addr q) = None \<and>
    unchanged (set (map fst (line r))) w w'"
proof -
  let ?r = "r\<lparr>line := filter (\<lambda>p. fst p \<noteq> q) (line r)\<rparr>" and ?A = "set (map fst (line r))"
  obtain w1 where c: "force_remove_wait_queue_entry most (entry_addr q) (w, []) = Some (w1, [])"
    "represents w1 (spec_cancel (unat most) q r)" "served ?r (spec_cancel (unat most) q r) w1"
    "waiting w1 q" "unchanged ?A w w1"
    using cancel_waiting [OF assms] by blast
  have qu: "queue w (map fst (line r))" and qA: "q \<in> ?A"
    using assms(2,3) by (force simp: represents_def well_formed_def)+
  then have wq: "waiting w q"
    using queue_facts(2) by blast
  have nin: "q \<notin> set (map fst (line (spec_cancel (unat most) q r)))"
    using grant_line [of "unat most" ?r] by (auto simp: spec_cancel_def)
  have "live w q" "pollable (node w q)" "live w1 q" "q \<notin> set (map fst (line ?r))"
    using wq c(4) by (auto simp: waiting_def)
  from drop_refines [OF this(1,2), where cb = "\<lambda>_. force_remove_wait_queue_entry most", OF c(1-3,5) this(3) nin this(4)]
  show ?thesis
    using qA by (simp add: insert_absorb)
qed

text \<open>C6: dropping the wait queue of a task that still waits (a cancelled future or pager) takes it out of
  the line: afterwards the primitive is as if the task had never queued up, every task behind it that
  fits now has been served, the memory of the wait queue is not referred to any more, and no entry
  outside the line was touched.\<close>

theorem cancelled_waiter_leaves:
  assumes "unat most \<le> 63" "represents w r" "(q, opc) \<in> set (line r)"
  shows "\<exists>w'. wait_queue_drop (\<lambda>_. force_remove_wait_queue_entry most) q (w, []) = Some (w', []) \<and>
    represents w' (spec_cancel (unat most) q r) \<and>
    served (r\<lparr>line := filter (\<lambda>p. fst p \<noteq> q) (line r)\<rparr>) (spec_cancel (unat most) q r) w' \<and>
    entries w' (entry_addr q) = None \<and> anchors w' (anchor_addr q) = None \<and>
    unchanged (set (map fst (line r))) w w'"
  using drop_waiting [OF assms] .

theorem cancelled_waiter_leaves_witness:
  "\<exists>w'. wait_queue_drop (\<lambda>_. force_remove_wait_queue_entry 62) 128 (one_waiter 63 Shared (Sync None), []) = Some (w', []) \<and>
     represents w' \<lparr>in_use = 63, line = []\<rparr>"
proof -
  let ?w = "one_waiter 63 Shared (Sync None)" and ?r = "\<lparr>in_use = 63, line = [(128, Shared)]\<rparr>"
  have "represents ?w ?r"
    by code_simp
  moreover have "spec_cancel 62 128 ?r = \<lparr>in_use = 63, line = []\<rparr>"
    by (simp add: spec_cancel_def grant_def)
  ultimately show ?thesis
    using cancelled_waiter_leaves [of 62 ?w ?r 128 Shared] by auto
qed

lemma drop_granted:
  assumes "unat most \<le> 63" "represents w r" "blocked (unat most) r" "has_result x w q" "q \<notin> set (map fst (line r))"
  shows "\<exists>w'. wait_queue_drop (\<lambda>_. force_remove_wait_queue_entry most) q (w, []) = Some (w', []) \<and>
    represents w' (snd (spec_release (unat most) (opcode (node w q)) r)) \<and>
    served r (snd (spec_release (unat most) (opcode (node w q)) r)) w' \<and>
    entries w' (entry_addr q) = None \<and> anchors w' (anchor_addr q) = None \<and>
    unchanged (insert q (set (map fst (line r)))) w w'"
proof -
  let ?r' = "snd (spec_release (unat most) (opcode (node w q)) r)"
  obtain w1 where c: "force_remove_wait_queue_entry most (entry_addr q) (w, []) = Some (w1, [])"
    "represents w1 ?r'" "served r ?r' w1" "unchanged (set (map fst (line r))) w w1"
    using cancel_granted [OF assms] by blast
  have l: "live w q" "pollable (node w q)" "live w1 q"
    using assms(4,5) c(4) by (auto simp: has_result_def unchanged_def)
  have "set (line ?r') \<subseteq> set (line r)"
    using grant_line [of "unat most" "r\<lparr>in_use := in_use r - acquired (opcode (node w q))\<rparr>"]
    by (auto simp: spec_release_def)
  then have "q \<notin> set (map fst (line ?r'))"
    using assms(5) by auto
  from drop_refines [OF l(1,2), where cb = "\<lambda>_. force_remove_wait_queue_entry most", OF c(1-4) l(3) this assms(5)]
  show ?thesis .
qed

text \<open>C7: dropping the wait queue of a task that has been granted the resource but has not taken the
  result gives the resource back: the effect is the abstract release of what its entry acquired, the
  tasks that fit now are served, and no entry outside the line and but its own is touched.  Nothing is
  leaked when a task is cancelled between the grant and the poll.\<close>

theorem cancelled_grant_returned:
  assumes "unat most \<le> 63" "represents w r" "blocked (unat most) r" "has_result 0 w q" "q \<notin> set (map fst (line r))"
  shows "\<exists>w'. wait_queue_drop (\<lambda>_. force_remove_wait_queue_entry most) q (w, []) = Some (w', []) \<and>
    represents w' (snd (spec_release (unat most) (opcode (node w q)) r)) \<and>
    served r (snd (spec_release (unat most) (opcode (node w q)) r)) w' \<and>
    entries w' (entry_addr q) = None \<and> anchors w' (anchor_addr q) = None \<and>
    unchanged (insert q (set (map fst (line r)))) w w'"
  using drop_granted [OF assms] .

theorem cancelled_grant_returned_witness:
  "\<exists>w'. wait_queue_drop (\<lambda>_. force_remove_wait_queue_entry 63) 128
      (resolve 0 128 (one_waiter 3 (Semaphore 2) (Async None))\<lparr>prim_state := 3\<rparr>, []) = Some (w', []) \<and>
     represents w' \<lparr>in_use = 1, line = []\<rparr>"
proof -
  let ?w = "(resolve 0 128 (one_waiter 3 (Semaphore 2) (Async None)))\<lparr>prim_state := 3\<rparr>"
    and ?r = "\<lparr>in_use = 3, line = []\<rparr>"
  have "represents ?w ?r"
    by code_simp
  moreover have "blocked 63 ?r"
    by (simp add: blocked_def)
  moreover have "has_result 0 ?w 128"
    by code_simp
  moreover have "opcode (node ?w 128) = Semaphore 2"
    by code_simp
  moreover have "snd (spec_release 63 (Semaphore 2) ?r) = \<lparr>in_use = 1, line = []\<rparr>"
    by (simp add: spec_release_def grant_def acquired_def)
  ultimately show ?thesis
    using cancelled_grant_returned [of 63 ?w ?r 128] by auto
qed

end
