(* ===== verification/Pager.thy ===== *)
theory Pager
  imports Cancelled_Waits
begin

text \<open>
  \<open>src/pager.rs\<close>: a \<open>Pager\<close> is a pinned wait queue that a task registers in a primitive and polls
  later.  The trait \<open>SyncResult\<close> of the primitive is the argument \<open>to_result\<close>; the locale \<open>sync_result\<close>
  states its laws and what polling guarantees: a result is handed out exactly once, and a poller gets
  the result as soon as another thread sets it.
\<close>

section \<open>Operations\<close>

datatype pager_error = NotRegistered | WrongMode | NotReady

definition is_registered :: "usize \<Rightarrow> sys \<Rightarrow> bool option" where
  "is_registered q s = is_pollable q s"

definition poll_sync :: "(u8 \<Rightarrow> pager_error option \<Rightarrow> 'r) \<Rightarrow> task \<Rightarrow> usize \<Rightarrow> sys \<Rightarrow> ('r \<times> sys) option" where
  "poll_sync to_result t q s =
     do { registered \<leftarrow> is_registered q s;
          if \<not> registered then Some (to_result 0 (Some NotRegistered), s)
          else do {
            p \<leftarrow> entry q s;
            (result, s) \<leftarrow> poll_result_sync t p s;
            if result = ERROR_WRONG_MODE then Some (to_result result (Some WrongMode), s)
            else Some (to_result result None, s) } }"

definition poll_async :: "(u8 \<Rightarrow> pager_error option \<Rightarrow> 'r) \<Rightarrow> task \<Rightarrow> usize \<Rightarrow> sys \<Rightarrow> ('r \<times> sys) option" where
  "poll_async to_result t q s =
     do { registered \<leftarrow> is_registered q s;
          if \<not> registered then Some (to_result 0 (Some NotRegistered), s)
          else do {
            p \<leftarrow> entry q s;
            (result, s) \<leftarrow> await_entry t p s;
            if result = ERROR_WRONG_MODE then Some (to_result result (Some WrongMode), s)
            else Some (to_result result None, s) } }"

definition try_poll :: "(u8 \<Rightarrow> pager_error option \<Rightarrow> 'r) \<Rightarrow> usize \<Rightarrow> sys \<Rightarrow> ('r \<times> sys) option" where
  "try_poll to_result q s =
     do { registered \<leftarrow> is_registered q s;
          if \<not> registered then Some (to_result 0 (Some NotRegistered), s)
          else do {
            p \<leftarrow> entry q s;
            (res, s) \<leftarrow> try_consume_result p s;
            case res of
              Some result \<Rightarrow> Some (to_result result None, s)
            | None \<Rightarrow> Some (to_result 0 (Some NotReady), s) } }"

section \<open>Polling\<close>

definition consume :: "usize \<Rightarrow> world \<Rightarrow> world" where
  "consume q w = upd q (\<lambda>e. e\<lparr>entry_state := 0, pollable := False\<rparr>) w"

lemma is_registered_live: "live w q \<Longrightarrow> is_registered q (w, es) = Some (pollable (node w q))"
  by (simp add: is_registered_def is_pollable_def queue_simps)

lemma live_consume [simp]: "live w q \<Longrightarrow> live (consume q w) q' = live w q'"
  by (simp add: consume_def)

lemma load_entry_state_live:
  "interfere s = (w, es) \<Longrightarrow> live w q \<Longrightarrow>
   load_entry_state (entry_addr q) s = Some (entry_state (node w q), (w, es))"
  by (simp add: load_entry_state_def queue_simps)

lemma not_finalized: "waiting w q \<Longrightarrow> entry_state (node w q) AND RESULT_FINALIZED \<noteq> RESULT_FINALIZED"
  by (auto simp: waiting_def WAKER_SET_def RESULT_FINALIZED_def)

lemma not_result_set: "waiting w q \<Longrightarrow> entry_state (node w q) AND RESULT_SET \<noteq> RESULT_SET"
  by (auto simp: waiting_def WAKER_SET_def RESULT_SET_def)

lemma try_consume_result_ready:
  "interfere s = (w, es) \<Longrightarrow> has_result r w q \<Longrightarrow>
   try_consume_result (entry_addr q) s = Some (Some r, (consume q w, es))"
  by (auto simp: try_consume_result_def load_entry_state_live has_result_def queue_simps consume_def)

lemma try_consume_result_waiting:
  "interfere s = (w, es) \<Longrightarrow> waiting w q \<Longrightarrow>
   try_consume_result (entry_addr q) s = Some (None, (w, es))"
  by (simp add: try_consume_result_def load_entry_state_live waiting_live not_finalized)

text \<open>Waiting for the result of another thread.\<close>

definition is_sync_entry :: "world \<Rightarrow> usize \<Rightarrow> bool" where
  "is_sync_entry w q = (case monitor (node w q) of Sync _ \<Rightarrow> True | Async _ \<Rightarrow> False)"

definition awaits :: "u8 \<Rightarrow> usize \<Rightarrow> world \<Rightarrow> bool" where
  "awaits r q w \<longleftrightarrow> waiting w q \<or> has_result r w q"

definition heeds :: "u8 \<Rightarrow> usize \<Rightarrow> (world \<Rightarrow> world) \<Rightarrow> bool" where
  "heeds r q f \<longleftrightarrow>
     (\<forall>w. (waiting w q \<longrightarrow> awaits r q (f w)) \<and> (has_result r w q \<longrightarrow> has_result r (f w) q) \<and>
        (awaits r q w \<longrightarrow> is_sync_entry (f w) q = is_sync_entry w q))"

definition delivers :: "u8 \<Rightarrow> usize \<Rightarrow> (world \<Rightarrow> world) \<Rightarrow> bool" where
  "delivers r q f \<longleftrightarrow> (\<forall>w. waiting w q \<longrightarrow> has_result r (f w) q)"

text \<open>What a task does to its own entry while it polls.\<close>

definition polls :: "usize \<Rightarrow> world \<Rightarrow> world \<Rightarrow> bool" where
  "polls q w w' \<longleftrightarrow> prim_state w' = prim_state w \<and> unchanged {q} w w' \<and> (live w q \<longrightarrow> live w' q) \<and>
     opcode (node w' q) = opcode (node w q) \<and> next_entry_anchor (node w' q) = next_entry_anchor (node w q) \<and>
     prev_entry (node w' q) = prev_entry (node w q) \<and> is_sync_entry w' q = is_sync_entry w q \<and>
     (waiting w q \<longrightarrow> waiting w' q) \<and> (\<forall>r. has_result r w q \<longrightarrow> has_result r w' q)"

text \<open>The other threads bring the primitive from \<open>G\<close>, where the entry waits, to \<open>H\<close>, where it has its result,
  at the latest with their last action, however the polling task acts in between.\<close>

fun expects :: "(world \<Rightarrow> bool) \<Rightarrow> (world \<Rightarrow> bool) \<Rightarrow> usize \<Rightarrow> sys \<Rightarrow> bool" where
  "expects G H q (w, []) \<longleftrightarrow> H w"
| "expects G H q (w, e # es) \<longleftrightarrow> (G w \<or> H w) \<and>
     (\<forall>w'. polls q w w' \<longrightarrow> expects G H q (e w', es) \<and> (H w' \<longrightarrow> H (e w')))"

definition handover :: "(world \<Rightarrow> bool) \<Rightarrow> (world \<Rightarrow> bool) \<Rightarrow> u8 \<Rightarrow> usize \<Rightarrow> bool" where
  "handover G H r q \<longleftrightarrow> (\<forall>w. G w \<longrightarrow> waiting w q) \<and> (\<forall>w. H w \<longrightarrow> has_result r w q) \<and>
     (\<forall>w w'. polls q w w' \<longrightarrow> (G w \<longrightarrow> G w') \<and> (H w \<longrightarrow> H w'))"

lemma polls_refl [simp]: "polls q w w"
  by (simp add: polls_def unchanged_def)

lemma polls_trans: "polls q w w1 \<Longrightarrow> polls q w1 w2 \<Longrightarrow> polls q w w2"
  unfolding polls_def using unchanged_trans [of "{q}" w w1 "{q}" w2 "{q}"] by auto

lemma handover_facts:
  assumes "handover G H r q"
  shows "G w \<Longrightarrow> waiting w q" "H w \<Longrightarrow> has_result r w q"
    "polls q w w' \<Longrightarrow> G w \<Longrightarrow> G w'" "polls q w w' \<Longrightarrow> H w \<Longrightarrow> H w'"
  using assms by (auto simp: handover_def)

lemma handover_result: "handover (\<lambda>w. waiting w q) (\<lambda>w. has_result r w q) r q"
  by (simp add: handover_def polls_def)

lemma handover_kind:
  "handover (\<lambda>w. waiting w q \<and> is_sync_entry w q = b) (\<lambda>w. has_result r w q \<and> is_sync_entry w q = b) r q"
  by (simp add: handover_def polls_def)

lemma expects_cases: "expects G H q (w, es) \<Longrightarrow> G w \<or> H w"
  by (cases es) simp_all

lemma expects_interfere: "expects G H q s \<Longrightarrow> expects G H q (interfere s)"
  by (cases s rule: interfere.cases) auto

lemma expects_result: "expects G H q (w, es) \<Longrightarrow> H w \<Longrightarrow> interfere (w, es) = (w', es') \<Longrightarrow> H w'"
  by (cases es) auto

lemma expects_own:
  assumes "handover G H r q" "expects G H q (w, es)" "polls q w w'"
  shows "expects G H q (w', es)"
proof (cases es)
  case Nil
  with assms(2) show ?thesis
    using handover_facts(4) [OF assms(1,3)] by simp
next
  case (Cons e es')
  with assms(2) have "G w' \<or> H w'"
    using handover_facts(3,4) [OF assms(1,3)] by auto
  with assms(2) Cons show ?thesis
    using polls_trans [OF assms(3)] by auto
qed

lemma expectsI:
  assumes "awaits r q w" "is_sync_entry w q = b" "\<forall>f \<in> set es. heeds r q f"
    and "has_result r w q \<or> (\<exists>f \<in> set es. delivers r q f)"
  shows "expects (\<lambda>w. waiting w q \<and> is_sync_entry w q = b) (\<lambda>w. has_result r w q \<and> is_sync_entry w q = b) q (w, es)"
    (is "expects ?G ?H q (w, es)")
  using assms
proof (induction es arbitrary: w)
  case (Cons e es)
  have "expects ?G ?H q (e w', es) \<and> (?H w' \<longrightarrow> ?H (e w'))" if p: "polls q w w'" for w'
  proof -
    have w': "awaits r q w'" "is_sync_entry w' q = b" "has_result r w q \<longrightarrow> has_result r w' q"
      using p Cons.prems by (auto simp: polls_def awaits_def)
    have h: "heeds r q e"
      using Cons.prems(3) by simp
    have "awaits r q (e w')" "is_sync_entry (e w') q = b" "has_result r w' q \<longrightarrow> has_result r (e w') q"
      using w' h by (auto simp: heeds_def awaits_def)
    moreover have "has_result r (e w') q \<or> (\<exists>f \<in> set es. delivers r q f)"
      using Cons.prems(4) w' h by (auto simp: heeds_def delivers_def awaits_def)
    ultimately show ?thesis
      using Cons.IH [of "e w'"] Cons.prems(3) by simp
  qed
  with Cons.prems show ?case
    by (auto simp: awaits_def)
qed simp

lemma awaits_live: "awaits r q w \<Longrightarrow> live w q"
  by (auto simp: awaits_def has_result_def)

lemma awaits_pollable: "awaits r q w \<Longrightarrow> pollable (node w q)"
  by (auto simp: awaits_def has_result_def waiting_def)

lemma sync_entry_iff:
  "is_sync_entry w q \<longleftrightarrow> (\<exists>m. monitor (node w q) = Sync m)"
  "\<not> is_sync_entry w q \<longleftrightarrow> (\<exists>m. monitor (node w q) = Async m)"
  by (auto simp: is_sync_entry_def split: Monitor.splits)

lemma expects_live:
  assumes "handover G H r q" "expects G H q (w, es)"
  shows "live w q" "pollable (node w q)"
  using expects_cases [OF assms(2)] handover_facts(1,2) [OF assms(1), of w] by (auto simp: waiting_def has_result_def)

lemma result_or_waker:
  assumes "entry_state e AND RESULT_SET = RESULT_SET" "entry_state e AND RESULT_FINALIZED = RESULT_FINALIZED"
    and "ucast (entry_state e AND 255) = (r :: u8)"
  shows "(entry_state e OR WAKER_SET) AND RESULT_SET = RESULT_SET"
    and "(entry_state e OR WAKER_SET) AND RESULT_FINALIZED = RESULT_FINALIZED"
    and "ucast ((entry_state e OR WAKER_SET) AND 255) = r"
proof -
  have "(entry_state e OR WAKER_SET) AND 255 = entry_state e AND 255"
    unfolding u16_eq_iff bit_and_iff bit_or_iff entry_bits by auto
  with assms(3) show "ucast ((entry_state e OR WAKER_SET) AND 255) = r"
    by simp
qed (use assms(1,2) in \<open>auto simp: u16_eq_iff bit_and_iff bit_or_iff entry_bits\<close>)

lemma install_and_flag_expects:
  assumes out: "handover G H r q" and exp: "expects G H q (w, es)"
  shows "\<exists>out s'. install_and_flag t (entry_addr q) (w, es) = Some (out, s') \<and> (\<forall>x. out \<noteq> Consumed x) \<and>
    expects G H q s' \<and> snd s' = snd (interfere (w, es))"
proof -
  let ?w1 = "upd q (\<lambda>e. e\<lparr>monitor := install_task t (monitor e)\<rparr>) w"
  have l: "live w q"
    using expects_live(1) [OF out exp] .
  have "expects G H q (?w1, es)"
    by (rule expects_own [OF out exp])
       (use l in \<open>auto simp: polls_def unchanged_def waiting_def has_result_def is_sync_entry_def install_task_def
          split: Monitor.splits\<close>)
  from expects_interfere [OF this]
  obtain w2 es2 where i: "interfere (?w1, es) = (w2, es2)" and e2: "expects G H q (w2, es2)"
    by (metis surj_pair)
  have l2: "live w2 q"
    using expects_live(1) [OF out e2] .
  let ?w3 = "upd q (\<lambda>e. e\<lparr>entry_state := entry_state (node w2 q) OR WAKER_SET\<rparr>) w2"
  have "expects G H q (?w3, es2)"
    by (rule expects_own [OF out e2])
       (use l2 in \<open>auto simp: polls_def unchanged_def waiting_def has_result_def is_sync_entry_def result_or_waker\<close>)
  moreover have "es2 = snd (interfere (w, es))"
    using i by (cases es) auto
  ultimately show ?thesis
    using l l2 i by (auto simp: install_and_flag_def queue_simps load_entry_state_live [OF i])
qed

text \<open>A round of polling returned the result, or there is less to wait for.\<close>

definition poll_ok :: "(world \<Rightarrow> bool) \<Rightarrow> (world \<Rightarrow> bool) \<Rightarrow> u8 \<Rightarrow> usize \<Rightarrow> nat \<Rightarrow> (poll_outcome \<times> sys) option \<Rightarrow> bool" where
  "poll_ok G H r q n x \<longleftrightarrow> (\<exists>out v vs. x = Some (out, (v, vs)) \<and>
     (case out of Consumed y \<Rightarrow> y = r \<and> (\<exists>u. H u \<and> v = consume q u) | _ \<Rightarrow> expects G H q (v, vs) \<and> length vs < n))"

lemma poll_ok_consumed: "H w \<Longrightarrow> poll_ok G H r q n (Some (Consumed r, (consume q w, es)))"
  by (auto simp: poll_ok_def)

lemma install_poll_ok:
  assumes "handover G H r q" "expects G H q (w, es)" "length es < n"
  shows "poll_ok G H r q n (install_and_flag t (entry_addr q) (w, es))"
proof -
  obtain out v vs where "install_and_flag t (entry_addr q) (w, es) = Some (out, (v, vs))" "\<forall>x. out \<noteq> Consumed x"
    "expects G H q (v, vs)" "vs = snd (interfere (w, es))"
    using install_and_flag_expects [OF assms(1,2)] by (metis prod.collapse)
  then show ?thesis
    using interfere_le [of w es] assms(3) by (auto simp: poll_ok_def split: poll_outcome.split)
qed

text \<open>The entry is still without a result when its state is loaded.\<close>

lemma poll_once_unresolved:
  assumes out: "handover G H r q" and i1: "interfere s = (w1, es1)" "waiting w1 q"
    and i2: "interfere (w1, es1) = (w2, es2)" "waiting w2 q" "expects G H q (w2, es2)" and n: "length es2 < n"
  shows "poll_ok G H r q n (poll_once t (entry_addr q) s)"
proof -
  have l2: "live w2 q"
    using i2(2) by (simp add: waiting_def)
  note start = try_consume_result_waiting [OF i1] load_entry_state_live [OF i2(1) l2] not_result_set [OF i2(2)]
  obtain w3 es3 where i3: "interfere (w2, es2) = (w3, es3)" and e3: "expects G H q (w3, es3)"
    using expects_interfere [OF i2(3)] by (metis surj_pair)
  have le3: "length es3 < n" and l3: "live w3 q"
    using interfere_le [of w2 es2] i3 n expects_live(1) [OF out e3] by simp_all
  note again = load_entry_state_live [OF i3 l3]
  consider "entry_state (node w2 q) AND WAKER_SET \<noteq> WAKER_SET"
    | "entry_state (node w2 q) AND WAKER_SET = WAKER_SET" "entry_state (node w3 q) \<noteq> entry_state (node w2 q)"
    | "entry_state (node w2 q) AND WAKER_SET = WAKER_SET" "entry_state (node w3 q) = entry_state (node w2 q)"
    by blast
  then show ?thesis
  proof cases
    case 1
    then show ?thesis
      using install_poll_ok [OF out i2(3) n] start by (simp add: poll_once_def)
  next
    case 2
    then show ?thesis
      using start again e3 le3 by (simp add: poll_once_def poll_ok_def)
  next
    case 3
    let ?w4 = "upd q (\<lambda>e. e\<lparr>entry_state := entry_state (node w2 q) AND NOT WAKER_SET\<rparr>) w3"
    have "entry_state (node w2 q) AND NOT WAKER_SET = 0"
      using i2(2) by (auto simp: waiting_def)
    moreover have "\<not> has_result x w3 q" for x
      using 3(2) not_finalized [OF i2(2)] by (auto simp: has_result_def)
    ultimately have "expects G H q (?w4, es3)"
      using l3 by (intro expects_own [OF out e3]) (auto simp: polls_def unchanged_def waiting_def is_sync_entry_def)
    from install_poll_ok [OF out this le3] show ?thesis
      using start again 3 l3 by (simp add: poll_once_def queue_simps)
  qed
qed

lemma poll_once_expects:
  assumes out: "handover G H r q" and exp: "expects G H q (w, es)"
  shows "poll_ok G H r q (length es) (poll_once t (entry_addr q) (w, es))"
proof -
  obtain w1 es1 where i1: "interfere (w, es) = (w1, es1)" and e1: "expects G H q (w1, es1)"
    using expects_interfere [OF exp] by (metis surj_pair)
  show ?thesis
  proof (cases "H w1")
    case True
    then show ?thesis
      using poll_ok_consumed [where H = H, OF True] try_consume_result_ready [OF i1 handover_facts(2) [OF out True]] by (simp add: poll_once_def)
  next
    case False
    then have w1: "waiting w1 q"
      using expects_cases [OF e1] handover_facts(1) [OF out] by blast
    have "es \<noteq> []"
      using exp i1 False by auto
    then have lt: "length es1 < length es"
      using i1 by (cases es) auto
    obtain w2 es2 where i2: "interfere (w1, es1) = (w2, es2)" and e2: "expects G H q (w2, es2)"
      using expects_interfere [OF e1] by (metis surj_pair)
    show ?thesis
    proof (cases "H w2")
      case True
      obtain w3 es3 where i3: "interfere (w2, es2) = (w3, es3)"
        by (metis surj_pair)
      have H3: "H w3"
        using expects_result [OF e2 True i3] .
      then show ?thesis
        using poll_ok_consumed [where H = H, OF H3, of G r q "length es" es3] try_consume_result_waiting [OF i1 w1]
          load_entry_state_live [OF i2 expects_live(1) [OF out e2]] try_consume_result_ready [OF i3 handover_facts(2) [OF out H3]]
          handover_facts(2) [OF out True]
        by (simp add: poll_once_def) (simp add: has_result_def)
    next
      case False
      then have "waiting w2 q"
        using expects_cases [OF e2] handover_facts(1) [OF out] by blast
      moreover have "length es2 < length es"
        using interfere_le [of w1 es1] i2 lt by simp
      ultimately show ?thesis
        using poll_once_unresolved [OF out i1 w1 i2 _ e2] by blast
    qed
  qed
qed

lemma poll_loop_returns:
  assumes out: "handover G H r q"
  shows "expects G H q (w, es) \<Longrightarrow>
    \<exists>u es'. poll_result_sync_loop t (entry_addr q) (w, es) = Some (r, (consume q u, es')) \<and> H u"
proof (induction "length es" arbitrary: w es rule: less_induct)
  case less
  obtain res w1 es1 where p: "poll_once t (entry_addr q) (w, es) = Some (res, (w1, es1))"
    "case res of Consumed x \<Rightarrow> x = r \<and> (\<exists>u. H u \<and> w1 = consume q u)
     | _ \<Rightarrow> expects G H q (w1, es1) \<and> length es1 < length es"
    using poll_once_expects [OF out less.prems, of t] by (auto simp: poll_ok_def)
  show ?case
  proof (cases res)
    case (Consumed x)
    with p show ?thesis
      by (subst poll_result_sync_loop.simps) auto
  next
    case Again
    with p less.hyps [of es1 w1] show ?thesis
      by (subst poll_result_sync_loop.simps) simp
  next
    case Sleep
    with p less.hyps [of es1 w1] show ?thesis
      by (subst poll_result_sync_loop.simps) simp
  qed
qed

lemma await_returns:
  assumes out: "handover G H r q" and async: "\<And>w. G w \<or> H w \<Longrightarrow> \<not> is_sync_entry w q"
  shows "expects G H q (w, es) \<Longrightarrow>
    \<exists>u es'. await_entry t (entry_addr q) (w, es) = Some (r, (consume q u, es')) \<and> H u"
proof (induction "length es" arbitrary: w es rule: less_induct)
  case less
  have l: "live w q" and a: "\<exists>m. monitor (node w q) = Async m"
    using expects_live(1) [OF out less.prems] async [OF expects_cases [OF less.prems]] sync_entry_iff(2) by auto
  obtain res w1 es1 where p: "poll_once t (entry_addr q) (w, es) = Some (res, (w1, es1))"
    "case res of Consumed x \<Rightarrow> x = r \<and> (\<exists>u. H u \<and> w1 = consume q u)
     | _ \<Rightarrow> expects G H q (w1, es1) \<and> length es1 < length es"
    using poll_once_expects [OF out less.prems, of t] by (auto simp: poll_ok_def)
  show ?case
  proof (cases res)
    case (Consumed x)
    with p l a show ?thesis
      by (subst await_entry.simps) (auto simp: poll_result_async_def queue_simps)
  next
    case Again
    let ?w = "w1\<lparr>events := events w1 @ [Wake t]\<rparr>"
    have "expects G H q (?w, es1)"
      by (rule expects_own [OF out, of w1])
         (use p Again in \<open>simp_all add: polls_def unchanged_def waiting_def has_result_def is_sync_entry_def\<close>)
    with p l a Again less.hyps [of es1 ?w] show ?thesis
      by (subst await_entry.simps) (auto simp: poll_result_async_def queue_simps atomics)
  next
    case Sleep
    with p l a less.hyps [of es1 w1] show ?thesis
      by (subst await_entry.simps) (auto simp: poll_result_async_def queue_simps)
  qed
qed

text \<open>The thread that sets the result is one that delivers it.\<close>

lemma delivers_resolve: "delivers r q (resolve r q)"
  by (simp add: delivers_def resolve_has_result)

lemma notified_kind: "(case snd (notified e r) of Sync _ \<Rightarrow> True | Async _ \<Rightarrow> False) =
    (case monitor e of Sync _ \<Rightarrow> True | Async _ \<Rightarrow> False)"
  by (auto simp: notified_def take_task_def split: Monitor.splits option.splits)

lemma resolve_kind:
  assumes "live w p" "live w q"
  shows "is_sync_entry (resolve r p w) q = is_sync_entry w q"
proof (cases "p = q")
  case True
  with assms show ?thesis
    using notified_kind [of "node w q" r] by (simp add: is_sync_entry_def resolve_def node_upd)
next
  case False
  with assms show ?thesis
    by (simp add: is_sync_entry_def)
qed

lemma fold_resolve_kind:
  "\<forall>p \<in> set ps. live w p \<Longrightarrow> live w q \<Longrightarrow>
   is_sync_entry (fold (resolve r) ps w) q = is_sync_entry w q \<and> live (fold (resolve r) ps w) q"
  by (induction ps arbitrary: w) (simp_all add: resolve_kind)

lemma heeds_resolve: "heeds r q (resolve r q)"
proof -
  have "has_result r (resolve r q w) q" if h: "has_result r w q" for w
  proof -
    have "ucast ((resolved_state (node w q) r OR RESULT_FINALIZED) AND 255) = r"
    proof -
      have "bit r n \<longleftrightarrow> bit (entry_state (node w q)) n" if "n < 8" for n
      proof -
        have "bit (ucast (entry_state (node w q) AND 255) :: u8) n = bit r n"
          using h by (simp add: has_result_def)
        then show ?thesis
          using that unfolding bit_ucast_iff bit_and_iff entry_bits(4) by auto
      qed
      then show ?thesis
        unfolding u8_eq_iff resolved_state_def bit_and_iff bit_or_iff bit_ucast_iff entry_bits by auto
    qed
    with h show ?thesis
      by (auto simp: has_result_def u16_eq_iff resolved_state_def entry_bits bit_and_iff bit_or_iff)
  qed
  moreover have "is_sync_entry (resolve r q w) q = is_sync_entry w q" if "live w q" for w
    using resolve_kind [OF that that] .
  ultimately show ?thesis
    using resolve_has_result awaits_live by (auto simp: heeds_def awaits_def)
qed

section \<open>The interface of the results\<close>

text \<open>The trait \<open>SyncResult\<close>: values are decoded, and the errors of the pager stay distinguishable.\<close>

locale sync_result =
  fixes to_result :: "u8 \<Rightarrow> pager_error option \<Rightarrow> ('a, 'e) result"
    and decode :: "u8 \<Rightarrow> ('a, 'e) result"
    and err :: "pager_error \<Rightarrow> 'e"
  assumes to_value: "to_result v None = decode v"
    and to_error: "to_result v (Some e) = Err (err e)"
    and err_inj: "err e = err e' \<Longrightarrow> e = e'"
begin

lemma result_once:
  assumes "has_result r w q"
  shows "\<exists>w'. try_poll to_result q (w, []) = Some (decode r, (w', [])) \<and>
    try_poll to_result q (w', []) = Some (Err (err NotRegistered), (w', []))"
proof -
  have l: "live w q" "pollable (node w q)"
    using assms by (auto simp: has_result_def)
  then have "try_poll to_result q (w, []) = Some (decode r, (consume q w, []))"
    using try_consume_result_ready [OF _ assms, of "(w, [])" "[]"]
    by (simp add: try_poll_def is_registered_live queue_simps to_value to_error)
  moreover have "try_poll to_result q (consume q w, []) = Some (Err (err NotRegistered), (consume q w, []))"
    using l by (simp add: try_poll_def is_registered_live to_error) (simp add: consume_def)
  ultimately show ?thesis by blast
qed

lemma not_ready:
  assumes "waiting w q"
  shows "try_poll to_result q (w, []) = Some (Err (err NotReady), (w, []))"
proof -
  have "live w q" "pollable (node w q)"
    using assms by (auto simp: waiting_def)
  then show ?thesis
    using try_consume_result_waiting [OF _ assms, of "(w, [])" "[]"]
    by (simp add: try_poll_def is_registered_live queue_simps to_value to_error)
qed

lemma poll_sync_returns:
  assumes "handover G H r q" "expects G H q (w, es)" "is_sync_entry w q" "r \<noteq> ERROR_WRONG_MODE"
  shows "\<exists>u es'. poll_sync to_result t q (w, es) = Some (decode r, (consume q u, es')) \<and> H u"
proof -
  note l = expects_live [OF assms(1,2)]
  obtain m where m: "monitor (node w q) = Sync m"
    using assms(3) sync_entry_iff(1) by auto
  obtain u es' where "poll_result_sync_loop t (entry_addr q) (w, es) = Some (r, (consume q u, es'))" "H u"
    using poll_loop_returns [OF assms(1,2)] by blast
  with l m assms(4) show ?thesis
    by (auto simp: poll_sync_def is_registered_live queue_simps poll_result_sync_def to_value)
qed

lemma poll_async_returns:
  assumes "handover G H r q" "\<And>w. G w \<or> H w \<Longrightarrow> \<not> is_sync_entry w q" "expects G H q (w, es)" "r \<noteq> ERROR_WRONG_MODE"
  shows "\<exists>u es'. poll_async to_result t q (w, es) = Some (decode r, (consume q u, es')) \<and> H u"
proof -
  note l = expects_live [OF assms(1,3)]
  obtain u es' where "await_entry t (entry_addr q) (w, es) = Some (r, (consume q u, es'))" "H u"
    using await_returns [OF assms(1,2,3)] by blast
  with l assms(4) show ?thesis
    by (auto simp: poll_async_def is_registered_live queue_simps to_value)
qed

text \<open>A pager registered for one mode cannot be polled in the other; it stays registered.\<close>

lemma wrong_mode:
  assumes "awaits r q w"
  shows "\<not> is_sync_entry w q \<Longrightarrow> poll_sync to_result t q (w, es) = Some (Err (err WrongMode), (w, es))"
    and "is_sync_entry w q \<Longrightarrow> poll_async to_result t q (w, es) = Some (Err (err WrongMode), (w, es))"
proof -
  note l = awaits_live [OF assms] awaits_pollable [OF assms]
  show "poll_sync to_result t q (w, es) = Some (Err (err WrongMode), (w, es))" if ns: "\<not> is_sync_entry w q"
  proof -
    obtain m where m: "monitor (node w q) = Async m"
      using ns sync_entry_iff(2) by blast
    show ?thesis
      using l m by (simp add: poll_sync_def is_registered_live queue_simps poll_result_sync_def to_error)
  qed
  show "poll_async to_result t q (w, es) = Some (Err (err WrongMode), (w, es))" if sy: "is_sync_entry w q"
  proof -
    obtain m where m: "monitor (node w q) = Sync m"
      using sy sync_entry_iff(1) by blast
    show ?thesis
      using l m
      by (simp add: poll_async_def is_registered_live queue_simps await_entry.simps poll_result_async_def to_error)
  qed
qed

end

end
