(* ===== verification/Lock_Primitive.thy ===== *)
theory Lock_Primitive
  imports Pager
begin

text \<open>
  \<open>src/lock.rs\<close>: the shared-exclusive lock.  The data field of its state word counts the shared owners
  or holds \<open>DATA_MASK\<close> for an exclusive owner; the word \<open>POISONED_STATE\<close> marks a poisoned lock.
\<close>

section \<open>Constants and queries\<close>

datatype Mode = Mode_Exclusive | Mode_Shared | WaitExclusive | WaitShared

definition MAX_SHARED_OWNERS :: usize where
  "MAX_SHARED_OWNERS = DATA_MASK - 1"

definition POISONED_STATE :: usize where
  "POISONED_STATE = LOCKED_FLAG"

definition ACQUIRED :: u8 where "ACQUIRED = 0"
definition NOT_ACQUIRED :: u8 where "NOT_ACQUIRED = 1"
definition POISONED :: u8 where "POISONED = 2"

definition MAX_SPIN_COUNT :: nat where
  "MAX_SPIN_COUNT = 128"

definition lock_new :: world where
  "lock_new = fresh_world 0"

definition is_free :: "sys \<Rightarrow> bool \<times> sys" where
  "is_free s = (case load s of (state, s) \<Rightarrow> (state \<noteq> POISONED_STATE \<and> state AND DATA_MASK = 0, s))"

definition is_locked :: "sys \<Rightarrow> bool \<times> sys" where
  "is_locked s = (case load s of (state, s) \<Rightarrow> (state AND DATA_MASK = DATA_MASK, s))"

definition is_shared :: "sys \<Rightarrow> bool \<times> sys" where
  "is_shared s =
     (case load s of (state, s) \<Rightarrow>
      let share_state = state AND DATA_MASK in (share_state \<noteq> 0 \<and> share_state \<noteq> DATA_MASK, s))"

definition is_poisoned :: "sys \<Rightarrow> bool \<times> sys" where
  "is_poisoned s = (case load s of (state, s) \<Rightarrow> (state = POISONED_STATE, s))"

section \<open>Acquiring\<close>

function try_lock_internal :: "usize \<Rightarrow> sys \<Rightarrow> (u8 \<times> usize) \<times> sys" where
  "try_lock_internal state s =
     (if state = POISONED_STATE then ((POISONED, state), s)
      else if state \<noteq> 0 then ((NOT_ACQUIRED, state), s)
      else
        (case compare_exchange 0 DATA_MASK s of
           (Ok _, s') \<Rightarrow> ((ACQUIRED, 0), s')
         | (Err new_state, s') \<Rightarrow> try_lock_internal new_state s'))"
  by pat_completeness auto
termination
  by (relation "measure (\<lambda>(state, s). retry_measure state s)")
     (auto intro: compare_exchange_retry simp: eq_commute [of "(_, _)"])

declare try_lock_internal.simps [simp del]

fun try_lock_spin :: "nat \<Rightarrow> u8 \<Rightarrow> usize \<Rightarrow> sys \<Rightarrow> (u8 \<times> usize) \<times> sys" where
  "try_lock_spin 0 result state s = ((result, state), s)"
| "try_lock_spin (Suc n) result state s =
     (case try_lock_internal state s of
        ((result, state), s) \<Rightarrow>
          if result \<noteq> NOT_ACQUIRED then ((result, state), s) else try_lock_spin n result state s)"

definition try_lock_internal_spin :: "sys \<Rightarrow> (u8 \<times> usize) \<times> sys" where
  "try_lock_internal_spin s =
     (case compare_exchange 0 DATA_MASK s of
        (Ok _, s) \<Rightarrow> ((ACQUIRED, 0), s)
      | (Err state, s) \<Rightarrow> try_lock_spin MAX_SPIN_COUNT NOT_ACQUIRED state s)"

function try_share_internal :: "usize \<Rightarrow> sys \<Rightarrow> (u8 \<times> usize) \<times> sys" where
  "try_share_internal state s =
     (if state = POISONED_STATE then ((POISONED, state), s)
      else if MAX_SHARED_OWNERS \<le> state then ((NOT_ACQUIRED, state), s)
      else
        (case compare_exchange state (state + 1) s of
           (Ok _, s') \<Rightarrow> ((ACQUIRED, 0), s')
         | (Err new_state, s') \<Rightarrow> try_share_internal new_state s'))"
  by pat_completeness auto
termination
  by (relation "measure (\<lambda>(state, s). retry_measure state s)")
     (auto intro: compare_exchange_retry simp: eq_commute [of "(_, _)"])

declare try_share_internal.simps [simp del]

fun try_share_spin :: "nat \<Rightarrow> u8 \<Rightarrow> usize \<Rightarrow> sys \<Rightarrow> (u8 \<times> usize) \<times> sys" where
  "try_share_spin 0 result state s = ((result, state), s)"
| "try_share_spin (Suc n) result state s =
     (case try_share_internal state s of
        ((result, state), s) \<Rightarrow>
          if result \<noteq> NOT_ACQUIRED then ((result, state), s) else try_share_spin n result state s)"

definition try_share_internal_spin :: "sys \<Rightarrow> (u8 \<times> usize) \<times> sys" where
  "try_share_internal_spin s =
     (case fetch_update (\<lambda>state. if state < MAX_SHARED_OWNERS then Some (state + 1) else None) s of
        (Ok _, s) \<Rightarrow> ((ACQUIRED, 0), s)
      | (Err state, s) \<Rightarrow> try_share_spin MAX_SPIN_COUNT NOT_ACQUIRED state s)"

definition try_lock :: "sys \<Rightarrow> bool \<times> sys" where
  "try_lock s =
     (case load s of (state, s) \<Rightarrow>
      case try_lock_internal state s of ((result, _), s) \<Rightarrow> (result = ACQUIRED, s))"

definition try_share :: "sys \<Rightarrow> bool \<times> sys" where
  "try_share s =
     (case load s of (state, s) \<Rightarrow>
      case try_share_internal state s of ((result, _), s) \<Rightarrow> (result = ACQUIRED, s))"

text \<open>\<open>impl SyncPrimitive for Lock\<close>: dropping an entry that was not acknowledged.\<close>

definition lock_drop_wait_queue_entry :: "usize \<Rightarrow> sys \<Rightarrow> sys option" where
  "lock_drop_wait_queue_entry p s = force_remove_wait_queue_entry MAX_SHARED_OWNERS p s"

partial_function (option) lock_sync_with ::
  "usize \<Rightarrow> task \<Rightarrow> usize \<Rightarrow> callback \<Rightarrow> sys \<Rightarrow> (bool \<times> sys) option" where
  "lock_sync_with prim t q begin_wait s =
     (case try_lock_internal_spin s of ((result, state), s) \<Rightarrow>
      if result = ACQUIRED then Some (True, s)
      else if result = POISONED then Some (False, s)
      else do {
        (waited, s) \<leftarrow>
          wait_resources_sync Lock_drop lock_drop_wait_queue_entry prim t q state Exclusive begin_wait s;
        case waited of
          Ok result \<Rightarrow> Some (result = ACQUIRED, s)
        | Err _ \<Rightarrow> lock_sync_with prim t q begin_wait s })"

declare lock_sync_with.simps [code]

partial_function (option) lock_async_with ::
  "usize \<Rightarrow> task \<Rightarrow> usize \<Rightarrow> callback \<Rightarrow> sys \<Rightarrow> (bool \<times> sys) option" where
  "lock_async_with prim t q begin_wait s =
     (case try_lock_internal_spin s of ((result, state), s) \<Rightarrow>
      if result = ACQUIRED then Some (True, s)
      else if result = POISONED then Some (False, s)
      else do {
        (waited, s) \<leftarrow>
          wait_resources_async Lock_drop lock_drop_wait_queue_entry prim t q state Exclusive begin_wait s;
        case waited of
          Ok result \<Rightarrow> Some (result = ACQUIRED, s)
        | Err _ \<Rightarrow> lock_async_with prim t q begin_wait s })"

declare lock_async_with.simps [code]

partial_function (option) share_sync_with ::
  "usize \<Rightarrow> task \<Rightarrow> usize \<Rightarrow> callback \<Rightarrow> sys \<Rightarrow> (bool \<times> sys) option" where
  "share_sync_with prim t q begin_wait s =
     (case try_share_internal_spin s of ((result, state), s) \<Rightarrow>
      if result = ACQUIRED then Some (True, s)
      else if result = POISONED then Some (False, s)
      else do {
        (waited, s) \<leftarrow>
          wait_resources_sync Lock_drop lock_drop_wait_queue_entry prim t q state Shared begin_wait s;
        case waited of
          Ok result \<Rightarrow> Some (result = ACQUIRED, s)
        | Err _ \<Rightarrow> share_sync_with prim t q begin_wait s })"

declare share_sync_with.simps [code]

partial_function (option) share_async_with ::
  "usize \<Rightarrow> task \<Rightarrow> usize \<Rightarrow> callback \<Rightarrow> sys \<Rightarrow> (bool \<times> sys) option" where
  "share_async_with prim t q begin_wait s =
     (case try_share_internal_spin s of ((result, state), s) \<Rightarrow>
      if result = ACQUIRED then Some (True, s)
      else if result = POISONED then Some (False, s)
      else do {
        (waited, s) \<leftarrow>
          wait_resources_async Lock_drop lock_drop_wait_queue_entry prim t q state Shared begin_wait s;
        case waited of
          Ok result \<Rightarrow> Some (result = ACQUIRED, s)
        | Err _ \<Rightarrow> share_async_with prim t q begin_wait s })"

declare share_async_with.simps [code]

definition lock_sync :: "usize \<Rightarrow> task \<Rightarrow> usize \<Rightarrow> sys \<Rightarrow> (bool \<times> sys) option" where
  "lock_sync prim t q s = lock_sync_with prim t q id s"

definition lock_async :: "usize \<Rightarrow> task \<Rightarrow> usize \<Rightarrow> sys \<Rightarrow> (bool \<times> sys) option" where
  "lock_async prim t q s = lock_async_with prim t q id s"

definition share_sync :: "usize \<Rightarrow> task \<Rightarrow> usize \<Rightarrow> sys \<Rightarrow> (bool \<times> sys) option" where
  "share_sync prim t q s = share_sync_with prim t q id s"

definition share_async :: "usize \<Rightarrow> task \<Rightarrow> usize \<Rightarrow> sys \<Rightarrow> (bool \<times> sys) option" where
  "share_async prim t q s = share_async_with prim t q id s"

section \<open>Pagers\<close>

fun mode_opcode :: "Mode \<Rightarrow> Opcode" where
  "mode_opcode Mode_Exclusive = Exclusive"
| "mode_opcode Mode_Shared = Shared"
| "mode_opcode WaitExclusive = Wait (ucast DATA_MASK)"
| "mode_opcode WaitShared = Wait 1"

definition lock_wait_check :: "Mode \<Rightarrow> sys \<Rightarrow> (u8 \<times> usize) \<times> sys" where
  "lock_wait_check mode s =
     (case load s of (state, s) \<Rightarrow>
      let result =
        (if state = ucast POISONED then POISONED
         else if mode = WaitExclusive \<and> state AND DATA_MASK = 0 \<or>
                 mode = WaitShared \<and> state AND DATA_MASK < MAX_SHARED_OWNERS then ACQUIRED
         else NOT_ACQUIRED)
      in ((result, state), s))"

partial_function (option) lock_register_loop :: "usize \<Rightarrow> Mode \<Rightarrow> sys \<Rightarrow> sys option" where
  "lock_register_loop q mode s =
     (case (case mode of
              Mode_Exclusive \<Rightarrow> try_lock_internal_spin s
            | Mode_Shared \<Rightarrow> try_share_internal_spin s
            | _ \<Rightarrow> lock_wait_check mode s) of ((result, state), s) \<Rightarrow>
      if result = ACQUIRED \<or> result = POISONED then
        do { p \<leftarrow> entry q s; set_result p result s }
      else do {
        (pushed, s) \<leftarrow> try_push_wait_queue_entry q state s;
        if pushed then Some s else lock_register_loop q mode s })"

declare lock_register_loop.simps [code]

definition lock_register_pager ::
  "usize \<Rightarrow> usize \<Rightarrow> Mode \<Rightarrow> bool \<Rightarrow> sys \<Rightarrow> (bool \<times> sys) option" where
  "lock_register_pager prim q mode is_sync s =
     do { registered \<leftarrow> is_registered q s;
          if registered then Some (False, s)
          else do {
            s \<leftarrow> construct q prim Lock_drop (mode_opcode mode) is_sync s;
            s \<leftarrow> lock_register_loop q mode s;
            Some (True, s) } }"

text \<open>\<open>impl SyncResult for Lock\<close>.\<close>

definition lock_to_result :: "u8 \<Rightarrow> pager_error option \<Rightarrow> (bool, pager_error) result" where
  "lock_to_result value pager_error =
     (case pager_error of None \<Rightarrow> Ok (value = ACQUIRED) | Some e \<Rightarrow> Err e)"

section \<open>Releasing and poisoning\<close>

definition release_lock :: "sys \<Rightarrow> (bool \<times> sys) option" where
  "release_lock s =
     (case compare_exchange DATA_MASK 0 s of
        (Ok _, s) \<Rightarrow> Some (True, s)
      | (Err state, s) \<Rightarrow> release_loop MAX_SHARED_OWNERS state Exclusive s)"

definition release_share :: "sys \<Rightarrow> (bool \<times> sys) option" where
  "release_share s =
     (case fetch_update
        (\<lambda>state. if state \<noteq> 0 \<and> state \<le> MAX_SHARED_OWNERS then Some (state - 1) else None) s of
        (Ok _, s) \<Rightarrow> Some (True, s)
      | (Err state, s) \<Rightarrow> release_loop MAX_SHARED_OWNERS state Shared s)"

partial_function (option) poison_lock_internal :: "usize \<Rightarrow> sys \<Rightarrow> (bool \<times> sys) option" where
  "poison_lock_internal state s =
     (if state = POISONED_STATE \<or> state AND DATA_MASK \<noteq> DATA_MASK then Some (False, s)
      else if state AND LOCKED_FLAG = LOCKED_FLAG then
        (case load s of (state, s) \<Rightarrow> poison_lock_internal state s)
      else
        (case compare_exchange state POISONED_STATE s of
           (Ok prev_state, s) \<Rightarrow>
             (let anchor = to_anchor_ptr prev_state in
              if anchor = 0 then Some (True, s)
              else do {
                tail \<leftarrow> to_entry_ptr anchor s;
                (u, s) \<leftarrow> iter_forward False (set_result_closure POISONED) tail () s;
                Some (True, s) })
         | (Err new_state, s) \<Rightarrow> poison_lock_internal new_state s))"

declare poison_lock_internal.simps [code]

definition poison_lock :: "sys \<Rightarrow> (bool \<times> sys) option" where
  "poison_lock s =
     (case compare_exchange DATA_MASK POISONED_STATE s of
        (Ok _, s) \<Rightarrow> Some (True, s)
      | (Err state, s) \<Rightarrow> poison_lock_internal state s)"

definition clear_poison :: "sys \<Rightarrow> bool \<times> sys" where
  "clear_poison s =
     (case compare_exchange POISONED_STATE 0 s of (Ok _, s) \<Rightarrow> (True, s) | (Err _, s) \<Rightarrow> (False, s))"

section \<open>Atomicity of the acquiring loops\<close>

text \<open>The bodies of the loops.\<close>

definition lock_step :: "usize \<Rightarrow> (u8 \<times> usize) attempt" where
  "lock_step state =
     (if state = POISONED_STATE then Stop (POISONED, state)
      else if state \<noteq> 0 then Stop (NOT_ACQUIRED, state)
      else Attempt DATA_MASK (ACQUIRED, 0))"

definition share_step :: "usize \<Rightarrow> (u8 \<times> usize) attempt" where
  "share_step state =
     (if state = POISONED_STATE then Stop (POISONED, state)
      else if MAX_SHARED_OWNERS \<le> state then Stop (NOT_ACQUIRED, state)
      else Attempt (state + 1) (ACQUIRED, 0))"

interpretation lk: cas_loop try_lock_internal lock_step
  by unfold_locales (auto simp: lock_step_def try_lock_internal.simps)

interpretation sh: cas_loop try_share_internal share_step
  by unfold_locales (auto simp: share_step_def try_share_internal.simps)

lemma lock_consts:
  "MAX_SHARED_OWNERS = 62" "POISONED_STATE = 64" "DATA_MASK = 63" "LOCKED_FLAG = 64"
  "ACQUIRED = 0" "NOT_ACQUIRED = 1" "POISONED = 2"
  by (simp_all add: MAX_SHARED_OWNERS_def POISONED_STATE_def mask_values ACQUIRED_def NOT_ACQUIRED_def POISONED_def)

text \<open>The spin loops never read the state word again after the first access.\<close>

lemma try_lock_spin_stuck:
  "state \<noteq> 0 \<Longrightarrow>
   try_lock_spin n NOT_ACQUIRED state s =
     ((if n \<noteq> 0 \<and> state = POISONED_STATE then POISONED else NOT_ACQUIRED, state), s)"
  by (induction n) (auto simp: try_lock_internal.simps lock_consts)

lemma try_share_spin_stuck:
  "MAX_SHARED_OWNERS \<le> state \<Longrightarrow>
   try_share_spin n NOT_ACQUIRED state s =
     ((if n \<noteq> 0 \<and> state = POISONED_STATE then POISONED else NOT_ACQUIRED, state), s)"
  by (induction n) (auto simp: try_share_internal.simps lock_consts)

lemma spin_lock: "try_lock_internal_spin s =
   (let w = fst (interfere s) in (fst (settle lock_step w), (snd (settle lock_step w), snd (interfere s))))"
  by (cases "interfere s")
     (auto simp: try_lock_internal_spin_def compare_exchange_def settle_def lock_step_def
         try_lock_spin_stuck [unfolded lock_consts] MAX_SPIN_COUNT_def Let_def lock_consts)

lemma spin_share: "try_share_internal_spin s =
   (let w = fst (interfere s) in (fst (settle share_step w), (snd (settle share_step w), snd (interfere s))))"
  by (cases "interfere s")
     (auto simp: try_share_internal_spin_def fetch_update_def settle_def share_step_def
         try_share_spin_stuck [unfolded lock_consts] MAX_SPIN_COUNT_def Let_def lock_consts)

text \<open>C32: the spinning variants look at the state word once: with 128 rounds of \<open>try_lock_internal\<close> or
  \<open>try_share_internal\<close> allowed, they behave as a single atomic attempt, because the rounds pass on the
  value of the first access instead of reading the word again.\<close>

theorem spin_is_one_access:
  "try_lock_internal_spin s =
     (let w = fst (interfere s) in (fst (settle lock_step w), (snd (settle lock_step w), snd (interfere s)))) \<and>
   try_share_internal_spin s =
     (let w = fst (interfere s) in (fst (settle share_step w), (snd (settle share_step w), snd (interfere s))))"
  by (simp add: spin_lock spin_share)

definition lock_spec :: "world \<Rightarrow> bool \<times> world" where
  "lock_spec w = (if prim_state w = 0 then (True, w\<lparr>prim_state := DATA_MASK\<rparr>) else (False, w))"

definition share_spec :: "world \<Rightarrow> bool \<times> world" where
  "share_spec w =
     (if unat (prim_state w) < 62 then (True, w\<lparr>prim_state := prim_state w + 1\<rparr>) else (False, w))"

lemma lock_spec_settle: "lock_spec = (\<lambda>w. (fst (fst (settle lock_step w)) = ACQUIRED, snd (settle lock_step w)))"
  by (intro ext) (simp add: lock_spec_def settle_def lock_step_def lock_consts)

lemma share_spec_settle: "share_spec = (\<lambda>w. (fst (fst (settle share_step w)) = ACQUIRED, snd (settle share_step w)))"
  by (intro ext) (auto simp: share_spec_def settle_def share_step_def lock_consts word_le_nat_alt)

text \<open>\<open>try_lock\<close> takes effect at one moment, whatever other threads do: it succeeds exactly when at
  that moment the state word is 0 (no owner, no waiting task, no poison), and then makes it exclusive.\<close>

lemma try_lock_atomic: "atomically lock_spec s (try_lock s)"
proof -
  obtain state s1 r x s2 where l: "load s = (state, s1)" and t: "try_lock_internal state s1 = ((r, x), s2)"
    by (metis surj_pair)
  have "atomically (settle lock_step) s ((r, x), s2)"
    using lk.load_loop_atomic [OF l] t by simp
  from atomically_map [OF this, of "\<lambda>a. fst a = ACQUIRED"] show ?thesis
    by (simp add: lock_spec_settle try_lock_def l t)
qed

text \<open>\<open>try_share\<close> takes effect at one moment, whatever other threads do: it succeeds exactly when at
  that moment there are fewer than 62 shared owners and no exclusive owner, waiting task or poison, and
  then adds one shared owner.\<close>

lemma try_share_atomic: "atomically share_spec s (try_share s)"
proof -
  obtain state s1 r x s2 where l: "load s = (state, s1)" and t: "try_share_internal state s1 = ((r, x), s2)"
    by (metis surj_pair)
  have "atomically (settle share_step) s ((r, x), s2)"
    using sh.load_loop_atomic [OF l] t by simp
  from atomically_map [OF this, of "\<lambda>a. fst a = ACQUIRED"] show ?thesis
    by (simp add: share_spec_settle try_share_def l t)
qed

section \<open>Releasing\<close>

interpretation lockp: sync_primitive MAX_SHARED_OWNERS
  by unfold_locales (simp add: lock_consts)

text \<open>\<open>release_lock\<close>, while other threads act, returns and takes effect at one moment: it fails and
  changes nothing if the lock is not held exclusively then, and otherwise frees it and, unless nobody
  waits or another thread is serving the queue, serves the waiting tasks in line order.\<close>

lemma release_lock_atomic:
  assumes "well_formed w qs" "env_ok K es"
  shows "released K MAX_SHARED_OWNERS Exclusive (w, es) (release_lock (w, es))"
proof -
  obtain w1 es1 qs1 where i: "interfere (w, es) = (w1, es1)" "env_ok K es1" "well_formed w1 qs1"
    using env_ok_interfere [OF assms(2,1)] by metis
  show ?thesis
  proof (cases "prim_state w1 = DATA_MASK")
    case True
    have "released K MAX_SHARED_OWNERS Exclusive (w, es) (Some (True, (w1\<lparr>prim_state := 0\<rparr>, es1)))"
      by (rule released_fast [OF i(1,3)]) (simp_all add: True small_views)
    with i(1) True show ?thesis
      by (simp add: release_lock_def compare_exchange_def)
  next
    case False
    with i(1) lockp.release_slow [OF i(1,3,2), of Exclusive] show ?thesis
      by (simp add: release_lock_def compare_exchange_def)
  qed
qed

text \<open>The same for \<open>release_share\<close>: it fails exactly when there is no shared owner at that moment, and
  otherwise gives one shared ownership back and serves the waiting tasks in line order.\<close>

lemma release_share_atomic:
  assumes "well_formed w qs" "env_ok K es"
  shows "released K MAX_SHARED_OWNERS Shared (w, es) (release_share (w, es))"
proof -
  obtain w1 es1 qs1 where i: "interfere (w, es) = (w1, es1)" "env_ok K es1" "well_formed w1 qs1"
    using env_ok_interfere [OF assms(2,1)] by metis
  show ?thesis
  proof (cases "prim_state w1 \<noteq> 0 \<and> prim_state w1 \<le> MAX_SHARED_OWNERS")
    case True
    then have "unat (prim_state w1) \<noteq> 0" "unat (prim_state w1) \<le> 62"
      by (auto simp: lock_consts word_le_nat_alt unat_eq_zero)
    then have "prim_state w1 \<le> DATA_MASK" "1 \<le> prim_state w1" "prim_state w1 \<noteq> DATA_MASK"
      by (auto simp: DATA_MASK_eq word_le_nat_alt)
    then have "released K MAX_SHARED_OWNERS Shared (w, es) (Some (True, (w1\<lparr>prim_state := prim_state w1 - 1\<rparr>, es1)))"
      by (intro released_fast [OF i(1,3)])
         (simp_all add: small_views data_of_def [symmetric] Let_def)
    with i(1) True show ?thesis
      by (simp add: release_share_def fetch_update_def)
  next
    case False
    with i(1) lockp.release_slow [OF i(1,3,2), of Shared] show ?thesis
      by (auto simp: release_share_def fetch_update_def)
  qed
qed

lemma release_lock_is_loop:
  "release_lock (w, []) = release_loop MAX_SHARED_OWNERS (prim_state w) Exclusive (w, [])"
proof (cases "prim_state w = DATA_MASK")
  case True
  then show ?thesis
    by (subst release_loop_unfold)
       (simp add: release_lock_def atomics small_views data_of_def [symmetric] Let_def)
qed (simp add: release_lock_def atomics)

lemma release_share_is_loop:
  "release_share (w, []) = release_loop MAX_SHARED_OWNERS (prim_state w) Shared (w, [])"
proof (cases "prim_state w \<noteq> 0 \<and> prim_state w \<le> MAX_SHARED_OWNERS")
  case True
  then have "unat (prim_state w) \<noteq> 0" "unat (prim_state w) \<le> 62"
    by (auto simp: lock_consts word_le_nat_alt unat_eq_zero)
  then have "prim_state w \<le> DATA_MASK" "1 \<le> prim_state w" "prim_state w \<noteq> DATA_MASK"
    by (auto simp: DATA_MASK_eq word_le_nat_alt)
  with True show ?thesis
    by (subst release_loop_unfold)
       (simp add: release_share_def atomics small_views data_of_def [symmetric] Let_def)
qed (auto simp: release_share_def atomics)

section \<open>Poisoning\<close>

lemma poison_alone:
  assumes "well_formed w qs" "\<not> locked (prim_state w)"
  shows "data_of (prim_state w) = DATA_MASK \<Longrightarrow>
      poison_lock (w, []) =
        Some (True, (fold (resolve POISONED) (rev qs) (w\<lparr>prim_state := POISONED_STATE\<rparr>), []))"
    and "data_of (prim_state w) \<noteq> DATA_MASK \<Longrightarrow> poison_lock (w, []) = Some (False, (w, []))"
proof -
  let ?w = "w\<lparr>prim_state := POISONED_STATE\<rparr>"
  have q: "queue w qs"
    using assms(1) by (simp add: well_formed_def)
  have a0: "addr_of POISONED_STATE = 0"
    using or_locked_views(1) [of 0] by (simp add: POISONED_STATE_def)
  have np: "prim_state w \<noteq> POISONED_STATE"
    using assms(2) by (auto simp: POISONED_STATE_def locked_def)
  show "poison_lock (w, []) = Some (False, (w, []))" if "data_of (prim_state w) \<noteq> DATA_MASK"
  proof -
    have "prim_state w \<noteq> DATA_MASK"
      using that by (auto simp: small_views)
    with that show ?thesis
      by (simp add: poison_lock_def atomics poison_lock_internal.simps data_of_def)
  qed
  show "poison_lock (w, []) = Some (True, (fold (resolve POISONED) (rev qs) ?w, []))"
    if "data_of (prim_state w) = DATA_MASK"
  proof (cases "qs = []")
    case True
    then have "addr_of (prim_state w) = 0"
      using queue_empty_iff [OF q] by simp
    then have "prim_state w = DATA_MASK"
      using that assms(2) by - (rule state_eqI, simp_all add: small_views)
    with True show ?thesis
      by (simp add: poison_lock_def atomics)
  next
    case False
    then have ad: "addr_of (prim_state w) = anchor_addr (last qs)" "live ?w (last qs)"
      using queue_addr [OF q] queue_facts(3) [OF q] by auto
    then have "prim_state w \<noteq> DATA_MASK"
      using small_views(1) [of DATA_MASK] live_nonnull(1) by force
    moreover have "to_anchor_ptr (prim_state w) = anchor_addr (last qs)"
      using ad by (simp add: to_anchor_ptr_def addr_of_def Let_def)
    moreover have "iter_forward False (set_result_closure POISONED) (entry_addr (last qs)) () (?w, []) =
        Some ((), (fold (resolve POISONED) (rev qs) ?w, []))"
      using detached_resolve(1) [OF reset_detached [OF q a0], of POISONED "[]"] False by simp
    ultimately show ?thesis
      using that assms(2) np ad
      by (simp add: poison_lock_def atomics poison_lock_internal.simps to_entry_live locked_def data_of_def)
  qed
qed

lemma poisoned_views: "addr_of POISONED_STATE = 0" "data_of POISONED_STATE = 0" "locked POISONED_STATE"
  using or_locked_views [of 0] by (simp_all add: POISONED_STATE_def)

text \<open>C25: poisoning an exclusively held lock marks it poisoned, gives every waiting task the result
  \<open>POISONED\<close> and changes no other entry; a poisoned lock cannot be acquired in either mode, and
  \<open>clear_poison\<close> makes it free again.\<close>

theorem poison_resolves_waiters:
  assumes "well_formed w qs" "\<not> locked (prim_state w)" "data_of (prim_state w) = DATA_MASK"
  shows "\<exists>w'. poison_lock (w, []) = Some (True, (w', [])) \<and> fst (is_poisoned (w', [])) \<and>
    (\<forall>q \<in> set qs. has_result POISONED w' q) \<and> unchanged (set qs) w w' \<and>
    try_lock (w', []) = (False, (w', [])) \<and> try_share (w', []) = (False, (w', [])) \<and>
    (\<exists>w''. clear_poison (w', []) = (True, (w'', [])) \<and> fst (is_free (w'', [])) \<and> fst (try_lock (w'', [])))"
proof -
  let ?w = "w\<lparr>prim_state := POISONED_STATE\<rparr>"
  let ?w' = "fold (resolve POISONED) (rev qs) ?w"
  have q: "queue w qs"
    using assms(1) by (simp add: well_formed_def)
  note d = reset_detached [OF q poisoned_views(1)]
  note r = detached_resolve [OF d, where r = POISONED]
  have p: "prim_state ?w' = POISONED_STATE"
    using r(2) by simp
  have "unchanged (set qs) w ?w'"
    using fold_resolve_others [OF d, where r = POISONED] by (simp add: unchanged_def)
  moreover have "\<forall>q \<in> set qs. has_result POISONED ?w' q"
    using r(4) by blast
  moreover have "fst (is_poisoned (?w', []))" "try_lock (?w', []) = (False, (?w', []))"
    "try_share (?w', []) = (False, (?w', []))"
    using p by (simp_all add: is_poisoned_def atomics try_lock_def try_share_def try_lock_internal.simps
        try_share_internal.simps ACQUIRED_def POISONED_def)
  moreover have "clear_poison (?w', []) = (True, (?w'\<lparr>prim_state := 0\<rparr>, []))"
    using p by (simp add: clear_poison_def atomics)
  moreover have "fst (is_free (?w'\<lparr>prim_state := 0\<rparr>, []))" "fst (try_lock (?w'\<lparr>prim_state := 0\<rparr>, []))"
    by (simp_all add: is_free_def atomics try_lock_def try_lock_internal.simps lock_consts)
  ultimately show ?thesis
    using poison_alone(1) [OF assms] by blast
qed

theorem poison_resolves_waiters_witness:
  "\<exists>w'. poison_lock (one_waiter 63 Shared (Async (Some 7)), []) = Some (True, (w', [])) \<and>
     fst (is_poisoned (w', [])) \<and> has_result POISONED w' 128"
proof -
  let ?w = "one_waiter 63 Shared (Async (Some 7))"
  have "well_formed ?w [128]" "\<not> locked (prim_state ?w)" "data_of (prim_state ?w) = DATA_MASK"
    by code_simp+
  from poison_resolves_waiters [OF this] show ?thesis
    by auto
qed

lemma force_remove_stuck:
  assumes "force_remove_loop most p state s = Some out"
  shows "\<not> (locked state \<and> locked (prim_state (fst s)) \<and> snd s = [])"
proof (rule force_remove_loop.raw_induct
    [where P = "\<lambda>_ _ state s _. \<not> (locked state \<and> locked (prim_state (fst s)) \<and> snd s = [])", OF _ assms])
  fix f :: "usize \<Rightarrow> usize \<Rightarrow> usize \<Rightarrow> sys \<Rightarrow> (bool \<times> usize \<times> sys) option" and most p state :: usize and s :: sys and out
  assume ih: "\<And>most p state s out. f most p state s = Some out \<Longrightarrow>
      \<not> (locked state \<and> locked (prim_state (fst s)) \<and> snd s = [])"
    and body: "(if state AND LOCKED_FLAG = LOCKED_FLAG then (case load s of (state, s) \<Rightarrow> f most p state s)
      else if state AND ADDR_MASK = 0 then Some (True, state, s)
      else
        (case compare_exchange state (state OR LOCKED_FLAG) s of
           (Ok _, s) \<Rightarrow>
             do { ((new_state, removed), s) \<leftarrow> remove_wait_queue_entry (state OR LOCKED_FLAG) p s;
                  s \<leftarrow> (if new_state AND LOCKED_FLAG = LOCKED_FLAG
                       then process_wait_queue most new_state s else Some s);
                  Some (\<not> removed, state, s) }
         | (Err new_state, s) \<Rightarrow> f most p new_state s)) = Some out"
  show "\<not> (locked state \<and> locked (prim_state (fst s)) \<and> snd s = [])"
  proof
    assume a: "locked state \<and> locked (prim_state (fst s)) \<and> snd s = []"
    then obtain w where s: "s = (w, [])"
      by (cases s) auto
    with a body have "f most p (prim_state w) (w, []) = Some out"
      by (simp add: locked_def atomics)
    from ih [OF this] a s show False
      by simp
  qed
qed

lemma lock_drop_poisoned:
  assumes "prim_state w = POISONED_STATE"
  shows "lock_drop_wait_queue_entry p (w, []) = None"
proof -
  have "force_remove_loop MAX_SHARED_OWNERS p POISONED_STATE (w, []) = None"
    using force_remove_stuck [of _ p POISONED_STATE "(w, [])"] poisoned_views(3) assms
    by (cases "force_remove_loop MAX_SHARED_OWNERS p POISONED_STATE (w, [])") auto
  then show ?thesis
    by (simp add: lock_drop_wait_queue_entry_def force_remove_wait_queue_entry_def atomics assms)
qed

text \<open>C36: dropping a wait queue entry that was not acknowledged, while the lock is poisoned and nobody
  clears the poison, never returns: \<open>POISONED_STATE\<close> is the queue lock flag that the removal waits for.\<close>

theorem poisoned_drop_diverges:
  "lock_drop_wait_queue_entry p (w\<lparr>prim_state := POISONED_STATE\<rparr>, []) = None"
  by (simp add: lock_drop_poisoned)

text \<open>C37: an entry with the result \<open>POISONED\<close> acquired nothing, but dropping it before the result was taken
  still releases what its operation would have acquired: if the poison was cleared and another task holds
  the lock exclusively by then, dropping the entry of a failed exclusive request takes the lock away from
  that task and hands it on.\<close>

theorem poisoned_drop_releases_other:
  assumes "represents w r" "blocked 62 r" "in_use r = 63"
    and "has_result POISONED w q" "opcode (node w q) = Exclusive" "q \<notin> set (map fst (line r))"
  shows "\<exists>w'. lock_drop_wait_queue_entry (entry_addr q) (w, []) = Some (w', []) \<and>
    represents w' (grant 62 (r\<lparr>in_use := 0\<rparr>)) \<and> (line r = [] \<longrightarrow> fst (is_free (w', [])))"
proof -
  have rel: "snd (spec_release 62 Exclusive r) = grant 62 (r\<lparr>in_use := 0\<rparr>)"
    using assms(3) by (simp add: spec_release_def acquired_def DATA_MASK_eq)
  obtain w' where w': "lock_drop_wait_queue_entry (entry_addr q) (w, []) = Some (w', [])"
    "represents w' (grant 62 (r\<lparr>in_use := 0\<rparr>))"
    using cancel_granted [of MAX_SHARED_OWNERS w r POISONED q] assms rel
    by (auto simp: lock_consts lock_drop_wait_queue_entry_def)
  have "fst (is_free (w', []))" if "line r = []"
  proof -
    have "\<not> locked (prim_state w')" "data_of (prim_state w') = 0"
      using w'(2) that by (auto simp: represents_def grant_def unat_eq_0)
    then show ?thesis
      using poisoned_views(3) by (auto simp: is_free_def atomics data_of_def)
  qed
  with w' show ?thesis
    by blast
qed

theorem poisoned_drop_releases_other_witness:
  "\<exists>w'. lock_drop_wait_queue_entry (entry_addr 128)
      ((resolve POISONED 128 (one_waiter 63 Exclusive (Async None)))\<lparr>prim_state := 63\<rparr>, []) = Some (w', []) \<and>
    fst (is_free (w', []))"
proof -
  let ?w = "(resolve POISONED 128 (one_waiter 63 Exclusive (Async None)))\<lparr>prim_state := 63\<rparr>"
    and ?r = "\<lparr>in_use = 63, line = []\<rparr>"
  have "represents ?w ?r" "has_result POISONED ?w 128" "opcode (node ?w 128) = Exclusive"
    by code_simp+
  moreover have "blocked 62 ?r"
    by (simp add: blocked_def)
  ultimately show ?thesis
    using poisoned_drop_releases_other [of ?w ?r 128] by auto
qed

section \<open>Pagers of a lock\<close>

interpretation lock_result: sync_result lock_to_result "\<lambda>v. Ok (v = ACQUIRED)" id
  by unfold_locales (simp_all add: lock_to_result_def)

text \<open>C26: a pager gets the result of its registration exactly once: the first \<open>try_poll\<close> after the result
  was set returns it, telling an acquired lock from a poisoned one, and the next reports that the pager
  is not registered.\<close>

theorem lock_pager_result_once:
  assumes "has_result r w q"
  shows "\<exists>w'. try_poll lock_to_result q (w, []) = Some (Ok (r = ACQUIRED), (w', [])) \<and>
    try_poll lock_to_result q (w', []) = Some (Err NotRegistered, (w', []))"
  using lock_result.result_once [OF assms] by simp

theorem lock_pager_result_once_witness:
  "\<exists>w'. try_poll lock_to_result 128 (resolve POISONED 128 (one_waiter 0 Shared (Sync None)), []) =
      Some (Ok (POISONED = ACQUIRED), (w', [])) \<and>
    try_poll lock_to_result 128 (w', []) = Some (Err NotRegistered, (w', []))"
proof -
  have "has_result POISONED (resolve POISONED 128 (one_waiter 0 Shared (Sync None))) 128"
    by code_simp
  then show ?thesis
    by (rule lock_pager_result_once)
qed

text \<open>A blocking poll returns: if the entry of a synchronous pager waits and the actions of the other
  threads, however the polling task acts in between, keep it waiting until one of them gives it the result
  \<open>r\<close>, then \<open>poll_sync\<close> returns that result, whatever the interleaving with the installation of the thread
  to unpark.\<close>

theorem lock_poll_sync_returns:
  assumes "expects (\<lambda>w. waiting w q) (\<lambda>w. has_result r w q) q (w, es)" "is_sync_entry w q" "r \<noteq> ERROR_WRONG_MODE"
  shows "\<exists>s'. poll_sync lock_to_result t q (w, es) = Some (Ok (r = ACQUIRED), s')"
  using lock_result.poll_sync_returns [OF handover_result assms] by blast

theorem lock_poll_sync_returns_witness:
  "\<exists>s'. poll_sync lock_to_result 3 128 (one_waiter 63 Shared (Sync None), [id, id, resolve ACQUIRED 128]) =
     Some (Ok (ACQUIRED = ACQUIRED), s')"
proof -
  let ?w = "one_waiter 63 Shared (Sync None)"
  have w: "waiting ?w 128" "is_sync_entry ?w 128"
    by code_simp+
  have "expects (\<lambda>w. waiting w 128) (\<lambda>w. has_result ACQUIRED w 128) 128 (?w, [id, id, resolve ACQUIRED 128])"
    using w(1) by (auto simp: polls_def resolve_has_result waiting_no_result dest: waiting_no_result)
  moreover have "ACQUIRED \<noteq> ERROR_WRONG_MODE"
    by (simp add: ACQUIRED_def ERROR_WRONG_MODE_def)
  ultimately show ?thesis
    using lock_poll_sync_returns w(2) by blast
qed

end
