(* ===== verification/Accounting.thy ===== *)
theory Accounting
  imports Pager "HOL-Library.Multiset"
begin

text \<open>
  The books of a primitive, for the systems of tasks that use a lock or a semaphore: who waits, who has
  been granted the resource but has not taken the result yet, and who owns it.  \<open>accounted\<close> says that
  the state word and the wait queue agree with the books and that nobody waits for what is available.
  One lemma per kind of operation shows that it keeps the books right; \<open>Lock_System\<close> and
  \<open>Semaphore_System\<close> use them.
\<close>

section \<open>The books\<close>

record books =
  pending :: "usize list"
  ready :: "usize list"
  owners :: "Opcode multiset"

definition node_op :: "world \<Rightarrow> usize \<Rightarrow> Opcode" where
  "node_op w q = opcode (node w q)"

definition holders :: "world \<Rightarrow> books \<Rightarrow> Opcode multiset" where
  "holders w g = owners g + mset (map (node_op w) (ready g))"

definition held :: "world \<Rightarrow> books \<Rightarrow> nat" where
  "held w g = \<Sum>\<^sub># (image_mset acquired (holders w g))"

definition as_resource :: "world \<Rightarrow> books \<Rightarrow> resource" where
  "as_resource w g = \<lparr>in_use = held w g, line = map (\<lambda>q. (q, node_op w q)) (pending g)\<rparr>"

definition settled :: "world \<Rightarrow> books \<Rightarrow> books" where
  "settled w g =
     g\<lparr>pending := filter (waiting w) (pending g), ready := ready g @ filter (has_result 0 w) (pending g)\<rparr>"

definition accounted :: "nat \<Rightarrow> world \<Rightarrow> books \<Rightarrow> bool" where
  "accounted limit w g \<longleftrightarrow> represents w (as_resource w g) \<and> blocked limit (as_resource w g) \<and>
     distinct (ready g) \<and> (\<forall>q \<in> set (ready g). has_result 0 w q)"

lemma as_resource_simps [simp]:
  "in_use (as_resource w g) = held w g" "map fst (line (as_resource w g)) = pending g"
  "map snd (line (as_resource w g)) = map (node_op w) (pending g)"
  "line (as_resource w g) = map (\<lambda>q. (q, node_op w q)) (pending g)"
  by (simp_all add: as_resource_def o_def)

lemma settled_simps [simp]:
  "pending (settled w g) = filter (waiting w) (pending g)"
  "ready (settled w g) = ready g @ filter (has_result 0 w) (pending g)" "owners (settled w g) = owners g"
  by (simp_all add: settled_def)

lemma accounted_facts:
  assumes "accounted limit w g"
  shows "represents w (as_resource w g)" "blocked limit (as_resource w g)" "distinct (ready g)"
    "\<And>q. q \<in> set (ready g) \<Longrightarrow> has_result 0 w q" "\<And>q. q \<in> set (ready g) \<Longrightarrow> live w q"
    "distinct (pending g)" "\<And>q. q \<in> set (pending g) \<Longrightarrow> waiting w q"
    "set (pending g) \<inter> set (ready g) = {}" "held w g \<le> 63" "queue w (pending g)"
    "\<not> locked (prim_state w)" "unat (data_of (prim_state w)) = held w g"
proof -
  show rep: "represents w (as_resource w g)" and "blocked limit (as_resource w g)" "distinct (ready g)"
    and res: "\<And>q. q \<in> set (ready g) \<Longrightarrow> has_result 0 w q"
    using assms by (auto simp: accounted_def)
  then show "\<And>q. q \<in> set (ready g) \<Longrightarrow> live w q"
    by (auto simp: has_result_def)
  show qu: "queue w (pending g)" and "\<not> locked (prim_state w)" and d: "unat (data_of (prim_state w)) = held w g"
    using rep by (auto simp: represents_def well_formed_def o_def)
  show "distinct (pending g)" and wt: "\<And>q. q \<in> set (pending g) \<Longrightarrow> waiting w q"
    using queue_facts(1,2) [OF qu] by auto
  show "set (pending g) \<inter> set (ready g) = {}"
    using wt res waiting_no_result by blast
  show "held w g \<le> 63"
    using d unat_data_of_le [of "prim_state w"] by simp
qed

lemma holders_ready:
  assumes "\<And>q. q \<in> set (ready g) \<Longrightarrow> node_op w' q = node_op w q"
  shows "holders w' g = holders w g" "held w' g = held w g"
proof -
  have "map (node_op w') (ready g) = map (node_op w) (ready g)"
    using assms by simp
  then show "holders w' g = holders w g"
    unfolding holders_def by (rule arg_cong)
  then show "held w' g = held w g"
    by (simp add: held_def)
qed

lemma sum_acquired: "(\<Sum>q\<leftarrow>qs. acquired (f q)) = transferred (map f qs)"
  by (simp add: transferred_def o_def)

lemma filter_prefix:
  assumes "\<And>x. x \<in> set (take n xs) \<Longrightarrow> P x" "\<And>x. x \<in> set (drop n xs) \<Longrightarrow> \<not> P x"
  shows "filter P xs = take n xs" "filter (\<lambda>x. \<not> P x) xs = drop n xs"
proof -
  have "filter P (take n xs) = take n xs" "filter P (drop n xs) = []"
    "filter (\<lambda>x. \<not> P x) (take n xs) = []" "filter (\<lambda>x. \<not> P x) (drop n xs) = drop n xs"
    unfolding filter_empty_conv filter_id_conv using assms by blast+
  then show "filter P xs = take n xs" "filter (\<lambda>x. \<not> P x) xs = drop n xs"
    by (metis append_Nil2 append_Nil append_take_drop_id filter_append)+
qed

definition granted_ops :: "nat \<Rightarrow> world \<Rightarrow> books \<Rightarrow> Opcode list" where
  "granted_ops limit w g =
     (let ops = map (node_op w) (pending g) in take (granted limit (held w g) ops) ops)"

definition books_served :: "nat \<Rightarrow> world \<Rightarrow> books \<Rightarrow> world \<Rightarrow> bool" where
  "books_served limit w g w' \<longleftrightarrow> accounted limit w' (settled w' g) \<and>
     holders w' (settled w' g) = holders w g + mset (granted_ops limit w g) \<and>
     (\<forall>q \<in> set (pending g). node_op w' q = node_op w q)"

text \<open>Whenever the line was served, the books follow by looking at which entries have a result now.\<close>

lemma accounted_grant:
  assumes rep: "represents w' (grant limit r)" and srv: "served r (grant limit r) w'"
    and line: "line r = map (\<lambda>q. (q, node_op w q)) (pending g)" and dist: "distinct (pending g)"
    and use: "in_use r = held w g"
    and rdy: "distinct (ready g)" "\<And>q. q \<in> set (ready g) \<Longrightarrow> has_result 0 w q" "set (pending g) \<inter> set (ready g) = {}"
    and un: "unchanged A w w'" "A \<inter> set (ready g) = {}"
  shows "books_served limit w g w'"
proof -
  let ?qs = "pending g" and ?ops = "map (node_op w) (pending g)"
  define n where "n = granted limit (held w g) ?ops"
  have ms: "map snd (line r) = ?ops" and gl: "grant limit r = \<lparr>in_use = held w g + transferred (map (node_op w) (take n ?qs)),
      line = map (\<lambda>q. (q, node_op w q)) (drop n ?qs)\<rparr>"
    by (simp_all add: grant_def line use n_def Let_def o_def take_map drop_map)
  have qu: "queue w' (drop n ?qs)" and ops: "map (node_op w') (drop n ?qs) = map (node_op w) (drop n ?qs)"
    using rep by (auto simp: gl represents_def well_formed_def o_def node_op_def)
  have wt: "waiting w' q" "node_op w' q = node_op w q" if "q \<in> set (drop n ?qs)" for q
    using that queue_facts(2) [OF qu] ops by (auto simp: map_eq_conv)
  have rs: "has_result 0 w' q \<and> node_op w' q = node_op w q" if q: "q \<in> set (take n ?qs)" for q
  proof -
    have "q \<notin> set (drop n ?qs)"
      using q dist set_take_disj_set_drop_if_distinct [OF dist, of n n] by blast
    then have "(q, node_op w q) \<in> set (line r) - set (line (grant limit r))"
      using q by (auto simp: line gl dest: in_set_takeD)
    from bspec [OF srv [unfolded served_def] this] show ?thesis
      by (simp add: node_op_def)
  qed
  have "filter (has_result 0 w') ?qs = take n ?qs \<and> filter (waiting w') ?qs = drop n ?qs"
  proof -
    have "\<not> has_result 0 w' q" if "q \<in> set (drop n ?qs)" for q
      using wt(1) [OF that] waiting_no_result by blast
    moreover have "\<not> waiting w' q" if "q \<in> set (take n ?qs)" for q
      using rs [OF that] waiting_no_result by blast
    ultimately show ?thesis
      using filter_prefix(1) [of n ?qs "has_result 0 w'"] filter_prefix(2) [of n ?qs "\<lambda>q. \<not> waiting w' q"] rs wt(1) by simp
  qed
  then have f1: "filter (waiting w') ?qs = drop n ?qs" and f2: "filter (has_result 0 w') ?qs = take n ?qs"
    by simp_all
  have rd: "has_result 0 w' q \<and> node_op w' q = node_op w q" if "q \<in> set (ready g)" for q
    using that rdy(2) [OF that] un by (auto simp: unchanged_def has_result_def node_op_def)
  have "map (node_op w') (ready g) = map (node_op w) (ready g)" "map (node_op w') (take n ?qs) = map (node_op w) (take n ?qs)"
    using rd rs by auto
  then have ph: "holders w' (settled w' g) = holders w g + mset (map (node_op w) (take n ?qs))"
    by (simp only: settled_simps f2 holders_def map_append mset_append add.assoc)
  then have ho: "holders w' (settled w' g) = holders w g + mset (granted_ops limit w g)"
    by (simp add: granted_ops_def n_def take_map Let_def)
  from ph have "held w' (settled w' g) = held w g + transferred (map (node_op w) (take n ?qs))"
    by (simp add: held_def sum_mset_sum_list transferred_def flip: mset_map)
  moreover have "map (\<lambda>q. (q, node_op w' q)) (drop n ?qs) = map (\<lambda>q. (q, node_op w q)) (drop n ?qs)"
    using wt by auto
  ultimately have eq: "as_resource w' (settled w' g) = grant limit r"
    by (simp add: as_resource_def gl) (simp add: settled_def f1)
  have "distinct (ready g @ take n ?qs)"
    using rdy(1,3) dist by (auto dest: in_set_takeD)
  moreover have "\<forall>q \<in> set (ready g @ take n ?qs). has_result 0 w' q"
    using rd rs by auto
  ultimately have "accounted limit w' (settled w' g)"
    using rep grant_blocked [of limit r] unfolding accounted_def eq by (simp add: settled_def f2)
  moreover have "node_op w' q = node_op w q" if "q \<in> set ?qs" for q
    using that wt(2) [of q] rs [of q] by (metis Un_iff append_take_drop_id set_append)
  ultimately show ?thesis
    using ho by (simp add: books_served_def)
qed


section \<open>Preservation\<close>

lemma accounted_frame:
  assumes acc: "accounted limit w g" and un: "unchanged A w w'"
    and A: "A \<inter> set (pending g) = {}" "A \<inter> set (ready g) = {}" and p: "prim_state w' = prim_state w"
  shows "accounted limit w' g"
proof -
  note f = accounted_facts [OF acc]
  have same: "live w' q \<and> node w' q = node w q" if "q \<in> set (pending g) \<or> q \<in> set (ready g)" for q
  proof -
    have "live w q" "q \<notin> A"
      using that f(5,7) A by (auto simp: waiting_def)
    then show ?thesis
      using un by (simp add: unchanged_def)
  qed
  have eq: "as_resource w' g = as_resource w g"
    unfolding as_resource_def using same holders_ready(2) [of g w' w] by (simp add: node_op_def)
  have "represents w' (as_resource w' g)"
    unfolding eq by (rule represents_unchanged [OF f(1) un _ p]) (use A in \<open>simp add: o_def\<close>)
  moreover have "has_result 0 w' q" if "q \<in> set (ready g)" for q
    using same [of q] f(4) that by (auto simp: has_result_def)
  ultimately show ?thesis
    using f(2,3) eq by (simp add: accounted_def)
qed

lemma held_owners:
  "held w (g\<lparr>owners := add_mset opc (owners g)\<rparr>) = held w g + acquired opc"
  "opc \<in># owners g \<Longrightarrow> held w (g\<lparr>owners := owners g - {#opc#}\<rparr>) = held w g - acquired opc"
  "opc \<in># owners g \<Longrightarrow> acquired opc \<le> held w g"
proof -
  show "held w (g\<lparr>owners := add_mset opc (owners g)\<rparr>) = held w g + acquired opc"
    by (simp add: held_def holders_def)
  assume "opc \<in># owners g"
  then obtain M where "owners g = add_mset opc M"
    by (metis mset_add)
  then show "held w (g\<lparr>owners := owners g - {#opc#}\<rparr>) = held w g - acquired opc" "acquired opc \<le> held w g"
    by (simp_all add: held_def holders_def)
qed

lemma held_ready:
  assumes "q \<in> set (ready g)"
  shows "held w g = held w (g\<lparr>ready := remove1 q (ready g)\<rparr>) + acquired (node_op w q)"
    and "holders w g = add_mset (node_op w q) (holders w (g\<lparr>ready := remove1 q (ready g)\<rparr>))"
proof -
  have "mset (ready g) = add_mset q (mset (remove1 q (ready g)))"
    using assms by simp
  then have "mset (map (node_op w) (ready g)) = add_mset (node_op w q) (mset (map (node_op w) (remove1 q (ready g))))"
    unfolding mset_map by (metis image_mset_add_mset)
  then show "holders w g = add_mset (node_op w q) (holders w (g\<lparr>ready := remove1 q (ready g)\<rparr>))"
    by (simp only: holders_def books.simps) simp
  then show "held w g = held w (g\<lparr>ready := remove1 q (ready g)\<rparr>) + acquired (node_op w q)"
    by (simp add: held_def)
qed

text \<open>Acquiring directly.\<close>

lemma accounted_acquire:
  assumes acc: "accounted limit w g" and mt: "pending g = []" and fits: "held w g + acquired opc \<le> 63"
  shows "accounted limit (w\<lparr>prim_state := prim_state w + acquired_count opc\<rparr>) (g\<lparr>owners := add_mset opc (owners g)\<rparr>)"
    (is "accounted limit ?w ?g")
proof -
  note f = accounted_facts [OF acc]
  note v = add_data_views [of "prim_state w" "acquired_count opc"]
  have le: "unat (data_of (prim_state w)) + unat (acquired_count opc) \<le> 63"
    using fits f(12) by (simp add: acquired_def)
  have h: "held ?w ?g = held w g + acquired opc"
    using held_owners(1) [where w = ?w and g = g and opc = opc] holders_ready(2) [of g ?w w] by (simp add: node_op_def)
  have mt': "addr_of (prim_state w) = 0"
    using queue_empty_iff [OF f(10)] mt by simp
  have "represents ?w (as_resource ?w ?g)"
    using f(11,12) v [OF le] well_formed_prim [of w "[]" "prim_state w + acquired_count opc"] f(1) mt h
      unat_add_lem [THEN iffD1, OF le_less_trans [OF le]]
    by (simp add: represents_def acquired_def)
  moreover have "blocked limit (as_resource ?w ?g)"
    using mt by (simp add: blocked_def)
  ultimately show ?thesis
    using f(3,4) by (simp add: accounted_def has_result_def)
qed

text \<open>Giving back.\<close>

lemma accounted_release:
  assumes acc: "accounted (unat most) w g" and own: "opc \<in># owners g" and rel: "releasable opc (held w g)"
    and most: "unat most \<le> 63"
  shows "\<exists>w'. release_loop most (prim_state w) opc (w, []) = Some (True, (w', [])) \<and>
    books_served (unat most) w (g\<lparr>owners := owners g - {#opc#}\<rparr>) w' \<and>
    unchanged (set (pending g)) w w'"
proof -
  let ?g = "g\<lparr>owners := owners g - {#opc#}\<rparr>" and ?r = "as_resource w g"
  note f = accounted_facts [OF acc]
  let ?r1 = "?r\<lparr>in_use := in_use ?r - acquired opc\<rparr>"
  have sp: "spec_release (unat most) opc ?r = (True, grant (unat most) ?r1)"
    using rel by (simp add: spec_release_def)
  obtain w' where w': "release_loop most (prim_state w) opc (w, []) = Some (True, (w', []))"
    "represents w' (grant (unat most) ?r1)" "served ?r (grant (unat most) ?r1) w'" "unchanged (set (pending g)) w w'"
    using sync_primitive.release_refines [OF sync_primitive.intro [OF most] f(1), of opc] unfolding sp
    by (auto simp: o_def)
  have "served ?r1 (grant (unat most) ?r1) w'"
    using w'(3) by (simp add: served_def)
  from accounted_grant [OF w'(2) this, of w ?g "set (pending g)"]
  have "books_served (unat most) w ?g w'"
    using f(3,4,6,8) w'(4) held_owners(2) [OF own] by simp
  with w' show ?thesis
    by blast
qed


text \<open>Queueing up.\<close>

lemma node_op_unchanged: "unchanged A w w' \<Longrightarrow> live w q \<Longrightarrow> q \<notin> A \<Longrightarrow> node_op w' q = node_op w q"
  by (simp add: unchanged_def node_op_def)

lemma fresh_uninvolved:
  assumes "accounted limit w g" "fresh_entry w q"
  shows "q \<notin> set (pending g)" "q \<notin> set (ready g)"
  using assms accounted_facts(4,7) [OF assms(1)] by (auto simp: fresh_entry_def waiting_def has_result_def)

lemma accounted_push:
  assumes acc: "accounted limit w g" and fr: "fresh_entry w q"
    and busy: "pending g = [] \<Longrightarrow> \<not> can_grant limit (held w g) (node_op w q)"
  shows "\<exists>w'. try_push_wait_queue_entry q (prim_state w) (w, []) = Some (True, (w', [])) \<and>
    accounted limit w' (g\<lparr>pending := pending g @ [q]\<rparr>) \<and> waiting w' q \<and> node_op w' q = node_op w q \<and> unchanged {q} w w'"
proof -
  note f = accounted_facts [OF acc]
  define x where "x = (prim_state w AND NOT ADDR_MASK) OR anchor_addr q"
  let ?w = "pushed q x w" and ?g = "g\<lparr>pending := pending g @ [q]\<rparr>"
  have l: "live w q" and aq: "addr_of (anchor_addr q) = anchor_addr q"
    using fr by (auto simp: fresh_entry_def)
  note v = replace_addr_views [OF aq, of "prim_state w", folded x_def]
  note p = push_well_formed [OF f(10) fr v(1)]
  note nq = fresh_uninvolved [OF acc fr]
  have op: "node_op ?w p = node_op w p" if "p \<in> set (pending g) \<or> p \<in> set (ready g)" for p
    using that f(5,7) nq by (intro node_op_unchanged [OF p(5)]) (auto simp: waiting_def)
  have h: "held ?w ?g = held w g"
    using holders_ready(2) [of g ?w w] op by (simp add: held_def holders_def)
  have opq: "node_op ?w q = node_op w q"
    using p(4) by (simp add: node_op_def)
  have ln: "line (as_resource ?w ?g) = line (as_resource w g) @ [(q, node_op w q)]"
    using op opq by simp
  have "represents ?w (as_resource ?w ?g)"
    using f(11,12) v p(1,3) h by (simp add: represents_def o_def node_op_def)
  moreover have "blocked limit (as_resource ?w ?g)"
    using f(2) busy h op opq by (cases "pending g") (auto simp: blocked_def)
  moreover have "has_result 0 ?w p" if "p \<in> set (ready g)" for p
    using that f(4) nq by (intro has_result_unchanged [OF p(5)]) auto
  ultimately have "accounted limit ?w ?g"
    using f(3) by (simp add: accounted_def)
  with try_push_alone [OF l] p(2,5) opq show ?thesis
    by (auto simp: x_def)
qed

text \<open>An owner is the same to the resource whether it has taken its result or not.\<close>

lemma accounted_same:
  assumes "accounted limit w g" "pending g' = pending g" "held w g' = held w g" "distinct (ready g')"
    and "\<And>q. q \<in> set (ready g') \<Longrightarrow> has_result 0 w q"
  shows "accounted limit w g'"
proof -
  have "as_resource w g' = as_resource w g"
    using assms(2,3) by (simp add: as_resource_def)
  with assms(1,4,5) show ?thesis
    unfolding accounted_def by metis
qed

lemma held_add_ready: "held w (g\<lparr>ready := ready g @ [q]\<rparr>) = held w g + acquired (node_op w q)"
  by (simp add: held_def holders_def)

lemma accounted_resolve:
  assumes acc: "accounted limit w g" and fr: "fresh_entry w q"
    and fits: "acquired (node_op w q) = 0 \<or> pending g = [] \<and> held w g + acquired (node_op w q) \<le> 63"
  shows "accounted limit (resolve 0 q (w\<lparr>prim_state := prim_state w + acquired_count (node_op w q)\<rparr>))
    (g\<lparr>ready := ready g @ [q]\<rparr>)"
proof -
  let ?w1 = "w\<lparr>prim_state := prim_state w + acquired_count (node_op w q)\<rparr>"
  let ?w = "resolve 0 q ?w1" and ?g1 = "g\<lparr>owners := add_mset (node_op w q) (owners g)\<rparr>" and ?g = "g\<lparr>ready := ready g @ [q]\<rparr>"
  note f = accounted_facts [OF acc]
  note nq = fresh_uninvolved [OF acc fr]
  have "accounted limit ?w1 ?g1"
  proof (cases "acquired (node_op w q) = 0")
    case True
    then have "acquired_count (node_op w q) = 0"
      by (simp add: acquired_def unat_eq_0)
    then have "?w1 = w"
      by simp
    moreover have "accounted limit w ?g1"
      by (rule accounted_same [OF acc]) (use True f(3,4) in \<open>simp_all add: held_owners(1)\<close>)
    ultimately show ?thesis
      by simp
  next
    case False
    with fits show ?thesis
      by (intro accounted_acquire [OF acc]) auto
  qed
  moreover have l: "live ?w1 q" and fr1: "fresh_entry ?w1 q"
    using fr by (simp_all add: fresh_entry_def)
  ultimately have "accounted limit ?w ?g1"
    using nq by (intro accounted_frame [OF _ unchanged_resolve [OF l, of 0]]) auto
  then show ?thesis
  proof (rule accounted_same)
    have "node_op ?w q = node_op w q"
      by (simp add: node_op_def)
    then show "held ?w ?g = held ?w ?g1"
      by (simp add: held_add_ready held_owners(1))
    show "has_result 0 ?w p" if "p \<in> set (ready ?g)" for p
    proof (cases "p = q")
      case False
      with that f(4) have "has_result 0 ?w1 p"
        by (simp add: has_result_def)
      with False show ?thesis
        by (intro has_result_unchanged [OF unchanged_resolve [OF l]]) auto
    qed (simp add: resolve_fresh [OF fr1])
  qed (use f(3) nq in simp_all)
qed

text \<open>Taking the result.\<close>

lemma unchanged_consume: "live w q \<Longrightarrow> unchanged {q} w (consume q w)"
  by (simp add: unchanged_def consume_def)

lemma accounted_consume:
  assumes acc: "accounted limit w g" and q: "q \<in> set (ready g)"
  shows "accounted limit (consume q w) (g\<lparr>ready := remove1 q (ready g), owners := add_mset (node_op w q) (owners g)\<rparr>)"
proof -
  note f = accounted_facts [OF acc]
  let ?g = "g\<lparr>ready := remove1 q (ready g), owners := add_mset (node_op w q) (owners g)\<rparr>"
  have "held w ?g = held w g"
    using held_ready(1) [OF q, of w] held_owners(1) [where w = w and g = "g\<lparr>ready := remove1 q (ready g)\<rparr>"] by simp
  then have "accounted limit w ?g"
    by (intro accounted_same [OF acc]) (use f(3,4) in auto)
  then show ?thesis
  proof (rule accounted_frame)
    show "unchanged {q} w (consume q w)"
      by (rule unchanged_consume [OF f(5) [OF q]])
  qed (use f(3,8) q in \<open>auto simp: consume_def upd_def\<close>)
qed

lemma try_poll_effect:
  assumes "live w q" "try_poll to_result q (w, []) = Some (res, (w', []))"
  shows "w' = w \<or> w' = consume q w \<and> entry_state (node w q) AND RESULT_FINALIZED = RESULT_FINALIZED"
    and "has_result r w q \<Longrightarrow> w' = consume q w \<and> res = to_result r None"
proof -
  show "w' = w \<or> w' = consume q w \<and> entry_state (node w q) AND RESULT_FINALIZED = RESULT_FINALIZED"
    using assms by (auto simp: try_poll_def is_registered_live queue_simps try_consume_result_def load_entry_state_live
        consume_def split: if_splits)
  show "w' = consume q w \<and> res = to_result r None" if "has_result r w q"
    using assms try_consume_result_ready [of "(w, [])" w "[]", OF _ that] that
    by (auto simp: try_poll_def is_registered_live queue_simps has_result_def)
qed

lemma node_op_consume: "live w q \<Longrightarrow> live w p \<Longrightarrow> node_op (consume q w) p = node_op w p"
  by (cases "p = q") (simp_all add: node_op_def consume_def)

lemma holders_consume:
  assumes "q \<in> set (ready g)" "\<And>p. p \<in> set (ready g) \<Longrightarrow> live w p"
  shows "holders (consume q w) (g\<lparr>ready := remove1 q (ready g), owners := add_mset (node_op w q) (owners g)\<rparr>) = holders w g"
    (is "holders ?w ?g = _")
proof -
  have "holders ?w ?g = holders w ?g"
    using assms node_op_consume set_remove1_subset [of q "ready g"] by (intro holders_ready(1)) (simp add: subset_iff)
  also have "\<dots> = add_mset (node_op w q) (holders w (g\<lparr>ready := remove1 q (ready g)\<rparr>))"
    by (simp add: holders_def)
  finally show ?thesis
    using held_ready(2) [OF assms(1), of w] by simp
qed

text \<open>Being cancelled.\<close>

lemma accounted_cancel_waiting:
  assumes acc: "accounted (unat most) w g" and q: "q \<in> set (pending g)" and most: "unat most \<le> 63"
  shows "\<exists>w'. wait_queue_drop (\<lambda>_. force_remove_wait_queue_entry most) q (w, []) = Some (w', []) \<and>
    books_served (unat most) w (g\<lparr>pending := remove1 q (pending g)\<rparr>) w' \<and>
    unchanged (set (pending g)) w w'"
proof -
  note f = accounted_facts [OF acc]
  let ?r = "as_resource w g" and ?g = "g\<lparr>pending := remove1 q (pending g)\<rparr>"
  let ?r1 = "?r\<lparr>line := filter (\<lambda>p. fst p \<noteq> q) (line ?r)\<rparr>"
  have "(q, node_op w q) \<in> set (line ?r)"
    using q by simp
  from drop_waiting [OF most f(1) this] obtain w' where w':
    "wait_queue_drop (\<lambda>_. force_remove_wait_queue_entry most) q (w, []) = Some (w', [])"
    "represents w' (grant (unat most) ?r1)" "served ?r1 (grant (unat most) ?r1) w'" "unchanged (set (pending g)) w w'"
    unfolding spec_cancel_def by (auto simp: o_def)
  have ln: "line ?r1 = map (\<lambda>q. (q, node_op w q)) (pending ?g)"
    using f(6) by (simp add: filter_map o_def distinct_remove1_removeAll removeAll_filter_not_eq eq_commute)
  have "held w ?g = held w g"
    by (simp add: held_def holders_def)
  moreover have "set (pending ?g) \<inter> set (ready ?g) = {}" "distinct (pending ?g)"
    using f(6,8) by auto
  ultimately have "books_served (unat most) w ?g w'"
    using accounted_grant [OF w'(2,3) ln, of "set (pending g)"] f(3,4,8) w'(4)
    by simp
  with w' show ?thesis
    by blast
qed

lemma accounted_cancel_ready:
  assumes acc: "accounted (unat most) w g" and q: "q \<in> set (ready g)" and most: "unat most \<le> 63"
    and rel: "releasable (node_op w q) (held w g)"
  shows "\<exists>w'. wait_queue_drop (\<lambda>_. force_remove_wait_queue_entry most) q (w, []) = Some (w', []) \<and>
    books_served (unat most) w (g\<lparr>ready := remove1 q (ready g)\<rparr>) w' \<and>
    unchanged (insert q (set (pending g))) w w'"
proof -
  note f = accounted_facts [OF acc]
  let ?r = "as_resource w g" and ?g = "g\<lparr>ready := remove1 q (ready g)\<rparr>"
  let ?r1 = "?r\<lparr>in_use := in_use ?r - acquired (node_op w q)\<rparr>"
  have sp: "spec_release (unat most) (opcode (node w q)) ?r = (True, grant (unat most) ?r1)"
    using rel by (simp add: spec_release_def node_op_def)
  have "q \<notin> set (map fst (line ?r))"
    using q f(8) by (auto simp: o_def)
  from drop_granted [OF most f(1,2) f(4) [OF q] this] obtain w' where w':
    "wait_queue_drop (\<lambda>_. force_remove_wait_queue_entry most) q (w, []) = Some (w', [])"
    "represents w' (grant (unat most) ?r1)" "served ?r (grant (unat most) ?r1) w'"
    "unchanged (insert q (set (pending g))) w w'"
    unfolding sp by (auto simp: o_def)
  have "served ?r1 (grant (unat most) ?r1) w'"
    using w'(3) by (simp add: served_def)
  from accounted_grant [OF w'(2) this, of w ?g "insert q (set (pending g))"]
  have "books_served (unat most) w ?g w'"
    using f(3,4,6,8) w'(4) held_ready(1) [OF q, of w] by auto
  with w' show ?thesis
    by blast
qed

text \<open>Dropping an entry that failed: nothing is released unless the resource is in use the way the entry asked for it.\<close>

lemma accounted_discard:
  assumes acc: "accounted (unat most) w g" and q: "has_result x w q" "x \<noteq> 0" and most: "unat most \<le> 63"
    and rel: "acquired (node_op w q) = 0 \<or> \<not> releasable (node_op w q) (held w g)"
  shows "\<exists>w'. wait_queue_drop (\<lambda>_. force_remove_wait_queue_entry most) q (w, []) = Some (w', []) \<and>
    books_served (unat most) w g w'"
proof -
  note f = accounted_facts [OF acc]
  let ?r = "as_resource w g"
  have sp: "snd (spec_release (unat most) (opcode (node w q)) ?r) = grant (unat most) ?r"
    using rel grant_of_blocked [OF f(2)] by (auto simp: spec_release_def node_op_def as_resource_def)
  have nq: "q \<notin> set (pending g)" "q \<notin> set (ready g)"
    using f(4,7) [of q] q waiting_no_result [of w q x] has_result_unique [of x w q 0] by auto
  then have "q \<notin> set (map fst (line ?r))"
    by (simp add: o_def)
  from drop_granted [OF most f(1,2) q(1) this] obtain w' where w':
    "wait_queue_drop (\<lambda>_. force_remove_wait_queue_entry most) q (w, []) = Some (w', [])"
    "represents w' (grant (unat most) ?r)" "served ?r (grant (unat most) ?r) w'"
    "unchanged (insert q (set (pending g))) w w'"
    unfolding sp by (auto simp: o_def)
  from accounted_grant [OF w'(2,3), of w g "insert q (set (pending g))"] have "books_served (unat most) w g w'"
    using f(3,4,6,8) w'(4) nq(2) by simp
  with w'(1) show ?thesis
    by blast
qed

section \<open>The memory of wait queues\<close>

definition unallocated :: "world \<Rightarrow> usize \<Rightarrow> bool" where
  "unallocated w q \<longleftrightarrow> wq_ok q \<and> anchors w (anchor_addr q) = None \<and> entries w (entry_addr q) = None"

definition idle :: "world \<Rightarrow> usize \<Rightarrow> bool" where
  "idle w q \<longleftrightarrow> live w q \<and> \<not> pollable (node w q) \<and> entry_state (node w q) = 0"

lemma default_blank:
  assumes "unallocated w q"
  defines "w' \<equiv> fst (wait_queue_default q (w, []))"
  shows "blank w' q" "unchanged {} w w'" "prim_state w' = prim_state w"
proof -
  show "blank w' q" "prim_state w' = prim_state w"
    using assms by (simp_all add: unallocated_def w'_def wait_queue_default_def blank_def)
  show "unchanged {} w w'"
    unfolding unchanged_def
  proof (intro allI impI)
    fix p assume p: "live w p"
    then have "anchor_addr p \<noteq> anchor_addr q"
      using assms(1) by (auto simp: unallocated_def live_def)
    with p show "live w' p \<and> node w' p = node w p"
      by (simp add: w'_def wait_queue_default_def live_def node_def)
  qed
qed

lemma blank_not_live: "blank w q \<Longrightarrow> \<not> live w q"
  using anchor_word_nonzero [of q] by (auto simp: blank_def live_def)

lemma construct_registrable:
  assumes "blank w q \<or> idle w q" "opcode_ok opc"
  shows "\<exists>w'. construct q prim kind opc is_sync (w, []) = Some (w', []) \<and> fresh_entry w' q \<and>
    prim_state w' = prim_state w \<and> node_op w' q = opc \<and> unchanged {q} w w'"
    and "is_registered q (w, []) = Some False"
proof -
  show "is_registered q (w, []) = Some False"
  proof (cases "live w q")
    case True
    with assms(1) show ?thesis
      using blank_not_live [of w q] by (auto simp: is_registered_live idle_def)
  next
    case False
    then have "anchors w (anchor_addr q) = Some 0"
      using assms(1) by (auto simp: blank_def idle_def)
    then show ?thesis
      by (simp add: is_registered_def is_pollable_def to_entry_ptr_def)
  qed
  show "\<exists>w'. construct q prim kind opc is_sync (w, []) = Some (w', []) \<and> fresh_entry w' q \<and>
    prim_state w' = prim_state w \<and> node_op w' q = opc \<and> unchanged {q} w w'"
  proof (cases "live w q")
    case True
    obtain a off where ao: "anchor_ptr q = (a, off)"
      by (metis surj_pair)
    let ?f = "\<lambda>e. e\<lparr>prev_entry := 0, opcode := opc, monitor := if is_sync then Sync None else Async None, prim_addr := prim\<rparr>"
    have nz: "- 1 - off \<noteq> 0" and an: "anchors w a = Some (- 1 - off)" and aa: "anchor_addr q = a"
      using True ao anchor_word_nonzero [of q] by (auto simp: live_def anchor_addr_def)
    have "construct q prim kind opc is_sync (w, []) = Some (upd q ?f w, [])"
      using True to_entry_live [OF True, of "[]"] update_live [OF True, of ?f "[]"] nz an aa
      unfolding construct_def ao by simp
    moreover have "fresh_entry (upd q ?f w) q" "node_op (upd q ?f w) q = opc" "prim_state (upd q ?f w) = prim_state w"
      using True assms blank_not_live [of w q] by (auto simp: fresh_entry_def idle_def node_op_def)
    moreover have "unchanged {q} w (upd q ?f w)"
      using True by (simp add: unchanged_def)
    ultimately show ?thesis
      by blast
  next
    case False
    then have "blank w q"
      using assms(1) by (auto simp: idle_def)
    from construct_blank [OF this assms(2), of prim kind is_sync "[]"] show ?thesis
      by (auto simp: node_op_def unchanged_def)
  qed
qed

lemma drop_unused:
  assumes "blank w q \<or> idle w q"
  shows "\<exists>w'. wait_queue_drop cb q (w, []) = Some (w', []) \<and> unchanged {q} w w' \<and> prim_state w' = prim_state w"
proof (cases "live w q")
  case True
  have "upd q id w = w"
    using live_entry [OF True] by (simp add: upd_def fun_upd_idem)
  then have "unchanged {q} w (fst (wait_queue_free q (w, [])))"
    using free_unchanged [OF True, of id] by simp
  moreover have "wait_queue_drop cb q (w, []) = Some (fst (wait_queue_free q (w, [])), [])"
    using True assms blank_not_live [of w q]
    by (auto simp: wait_queue_drop_def prepare_drop_def queue_simps idle_def wait_queue_free_def)
  ultimately show ?thesis
    by (simp add: wait_queue_free_def)
next
  case False
  then have b: "blank w q"
    using assms by (auto simp: idle_def)
  let ?w = "fst (wait_queue_free q (w, []))"
  have "wait_queue_drop cb q (w, []) = Some (?w, [])"
    using b by (simp add: wait_queue_drop_def blank_def to_entry_ptr_def wait_queue_free_def)
  moreover have "live ?w p \<and> node ?w p = node w p" if "live w p" for p
  proof -
    have "anchor_addr p \<noteq> anchor_addr q" "entry_addr p \<noteq> entry_addr q"
      using that b anchor_word_nonzero [of p] by (auto simp: live_def blank_def)
    with that show ?thesis
      by (simp add: wait_queue_free_def live_def node_def)
  qed
  ultimately show ?thesis
    by (auto simp: unchanged_def wait_queue_free_def)
qed

lemma holder_held: "opc \<in># holders w g \<Longrightarrow> acquired opc \<le> held w g"
  unfolding held_def by (metis image_mset_add_mset le_add1 mset_add sum_mset.insert)

lemma settled_snoc:
  assumes "\<And>p. p \<in> set (pending g) \<Longrightarrow> waiting w p"
  shows "settled w (g\<lparr>pending := pending g @ [q]\<rparr>) =
    (if waiting w q then g\<lparr>pending := pending g @ [q]\<rparr>
     else if has_result 0 w q then g\<lparr>ready := ready g @ [q]\<rparr> else g)"
proof -
  have "filter (waiting w) (pending g) = pending g" "filter (has_result 0 w) (pending g) = []"
    unfolding filter_id_conv filter_empty_conv using assms waiting_no_result by blast+
  then show ?thesis
    using waiting_no_result [of w q] by (cases g) (simp add: settled_def)
qed

lemma holders_add_ready: "holders w (g\<lparr>ready := ready g @ [q]\<rparr>) = add_mset (node_op w q) (holders w g)"
  by (simp add: holders_def)

end
