(* ===== verification/Blocking_Wait.thy ===== *)
theory Blocking_Wait
  imports Accounting
begin

text \<open>
  What the blocking calls of all primitives share: a call makes a wait queue on its stack, constructs an
  entry, tries to push it, polls it, and drops the wait queue.  \<open>Blocking_Acquire\<close>, \<open>Barrier_Waiting\<close> and \<open>Gate_Waiting\<close> use it.
\<close>

section \<open>Polling does not disturb the primitive\<close>

lemma polls_others:
  assumes "queue w qs" "polls q w w'" "p \<in> set qs"
  shows "waiting w' p" "next_entry_anchor (node w' p) = next_entry_anchor (node w p)"
    "prev_entry (node w' p) = prev_entry (node w p)" "opcode (node w' p) = opcode (node w p)"
  using queue_facts(2) [OF assms(1,3)] assms(2)
  by (cases "p = q"; simp add: polls_def unchanged_def waiting_def)+

lemma well_formed_polls:
  assumes "well_formed w qs" "polls q w w'"
  shows "well_formed w' qs"
proof -
  have qu: "queue w qs"
    using assms(1) by (simp add: well_formed_def)
  note o = polls_others [OF qu assms(2)]
  have "queue w' qs"
    by (rule queue_cong [OF qu]) (use assms(2) o in \<open>auto simp: polls_def\<close>)
  then show ?thesis
    using assms(1) o(3) [of "last qs"] by (simp add: well_formed_def)
qed

lemma represents_polls:
  assumes rep: "represents w r" and po: "polls q w w'"
  shows "represents w' r"
proof -
  let ?qs = "map fst (line r)"
  have wf: "well_formed w ?qs"
    using rep by (simp add: represents_def)
  then have qu: "queue w ?qs"
    by (simp add: well_formed_def)
  have "opcodes w' ?qs = opcodes w ?qs"
    using polls_others(4) [OF qu po] by simp
  then show ?thesis
    using rep po well_formed_polls [OF wf po] by (simp add: represents_def polls_def)
qed

lemma has_result_polls: "polls q w w' \<Longrightarrow> has_result r w p \<Longrightarrow> has_result r w' p"
  using has_result_unchanged [of "{q}" w w' r p] by (cases "p = q") (auto simp: polls_def)

lemma expects_idle:
  assumes "handover G H r q" "\<forall>e \<in> set es. e = id"
  shows "H w \<Longrightarrow> expects G H q (w, es)"
  using assms(2)
proof (induction es arbitrary: w)
  case (Cons e es)
  then show ?case
    using handover_facts(4) [OF assms(1)] by auto
qed simp

section \<open>The life of the entry of a call\<close>

lemma construct_fresh:
  assumes "unallocated w q" "opcode_ok opc"
  shows "\<exists>w1. construct q prim kind opc b (wait_queue_default q (w, es)) = Some (w1, es) \<and> fresh_entry w1 q \<and>
    prim_state w1 = prim_state w \<and> node_op w1 q = opc \<and> is_sync_entry w1 q = b \<and> unchanged {} w w1"
proof -
  let ?w = "fst (wait_queue_default q (w, []))"
  note d = default_blank [OF assms(1)]
  have e: "wait_queue_default q (w, es) = (?w, es)"
    by (simp add: wait_queue_default_def)
  from construct_blank [OF d(1) assms(2), of prim kind b es]
  obtain w1 where "construct q prim kind opc b (?w, es) = Some (w1, es)" "fresh_entry w1 q"
    "prim_state w1 = prim_state ?w" "opcode (node w1 q) = opc" "monitor (node w1 q) = (if b then Sync None else Async None)"
    "unchanged {} ?w w1"
    by auto
  then show ?thesis
    using d(2,3) e unchanged_trans [of "{}" w ?w "{}" w1 "{}"]
    by (auto simp: node_op_def is_sync_entry_def)
qed

lemma push_env:
  assumes "live w q"
  shows "try_push_wait_queue_entry q state (w, e # es) =
    (let w1 = e (upd q (\<lambda>x. x\<lparr>next_entry_anchor := addr_of state\<rparr>) w) in
     if prim_state w1 = state
     then (do { p \<leftarrow> entry q (w1\<lparr>prim_state := (state AND NOT ADDR_MASK) OR anchor_addr q\<rparr>, es);
                s \<leftarrow> set_pollable p (w1\<lparr>prim_state := (state AND NOT ADDR_MASK) OR anchor_addr q\<rparr>, es); Some (True, s) })
     else Some (False, (w1, es)))"
proof -
  have "to_anchor_ptr state = addr_of state"
    by (simp add: to_anchor_ptr_def addr_of_def Let_def)
  then show ?thesis
    using assms by (simp add: try_push_wait_queue_entry_def queue_simps compare_exchange_def Let_def)
qed

lemma drop_acknowledged:
  "live w q \<Longrightarrow> \<not> pollable (node w q) \<Longrightarrow> wait_queue_drop cb q (w, es) = Some (wait_queue_free q (w, es))"
  by (simp add: wait_queue_drop_def prepare_drop_def queue_simps)

lemma free_entry:
  assumes "live w q"
  shows "unchanged {q} w (fst (wait_queue_free q (w, es)))" "unallocated (fst (wait_queue_free q (w, es))) q"
    "prim_state (fst (wait_queue_free q (w, es))) = prim_state w" "snd (wait_queue_free q (w, es)) = es"
proof -
  have u: "upd q (\<lambda>x. x) w = w"
    using assms by (cases w) (auto simp: upd_def live_def node_def map_upd_triv)
  show "unchanged {q} w (fst (wait_queue_free q (w, es)))"
    using free_unchanged [OF assms, of "\<lambda>x. x"] unfolding u by (simp add: wait_queue_free_def)
  show "unallocated (fst (wait_queue_free q (w, es))) q" "prim_state (fst (wait_queue_free q (w, es))) = prim_state w"
    "snd (wait_queue_free q (w, es)) = es"
    using assms by (simp_all add: unallocated_def live_def wait_queue_free_def)
qed

section \<open>One round of polling\<close>

lemma poll_once_ready:
  assumes "has_result r w q"
  shows "poll_once t (entry_addr q) (w, []) = Some (Consumed r, (consume q w, []))"
  using try_consume_result_ready [OF interfere.simps(1) assms] by (simp add: poll_once_def)

lemma polls_installed:
  assumes "live w q"
  shows "polls q w (upd q (\<lambda>e. e\<lparr>monitor := install_task t (monitor e)\<rparr>) w)"
  using assms
  by (auto simp: polls_def unchanged_def waiting_def has_result_def is_sync_entry_def install_task_def split: Monitor.splits)

lemma polls_flag:
  assumes "waiting w q" "x \<in> {0, WAKER_SET}"
  shows "polls q w (upd q (\<lambda>e. e\<lparr>entry_state := x\<rparr>) w)"
proof -
  have "live w q"
    using assms(1) by (simp add: waiting_def)
  then show ?thesis
    using assms waiting_no_result by (auto simp: polls_def unchanged_def waiting_def is_sync_entry_def)
qed

lemma install_waiting:
  assumes "waiting w q"
  shows "\<exists>w'. install_and_flag t (entry_addr q) (w, []) = Some (Sleep, (w', [])) \<and> polls q w w'"
proof -
  let ?w1 = "upd q (\<lambda>e. e\<lparr>monitor := install_task t (monitor e)\<rparr>) w"
  let ?w2 = "upd q (\<lambda>e. e\<lparr>entry_state := entry_state (node ?w1 q) OR WAKER_SET\<rparr>) ?w1"
  have l: "live w q" "live ?w1 q"
    using assms by (simp_all add: waiting_def)
  note p1 = polls_installed [OF l(1), of t]
  then have w1: "waiting ?w1 q"
    using assms by (simp add: polls_def)
  then have "entry_state (node ?w1 q) OR WAKER_SET \<in> {0, WAKER_SET}"
    by (auto simp: waiting_def)
  from polls_trans [OF p1 polls_flag [OF w1 this]] have "polls q w ?w2" .
  moreover have "install_and_flag t (entry_addr q) (w, []) = Some (Sleep, (?w2, []))"
    using l not_result_set [OF w1] load_entry_state_live [OF interfere.simps(1) l(2)]
    by (simp add: install_and_flag_def queue_simps)
  ultimately show ?thesis by blast
qed

lemma poll_once_waiting:
  assumes "waiting w q"
  shows "\<exists>w'. poll_once t (entry_addr q) (w, []) = Some (Sleep, (w', [])) \<and> polls q w w'"
proof -
  have l: "live w q"
    using assms by (simp add: waiting_def)
  note tc = try_consume_result_waiting [OF interfere.simps(1) assms] and ld = load_entry_state_live [OF interfere.simps(1) l]
  show ?thesis
  proof (cases "entry_state (node w q) AND WAKER_SET = WAKER_SET")
    case False
    then show ?thesis
      using install_waiting [OF assms, of t] tc ld not_result_set [OF assms] by (simp add: poll_once_def)
  next
    case True
    let ?w = "upd q (\<lambda>e. e\<lparr>entry_state := entry_state (node w q) AND NOT WAKER_SET\<rparr>) w"
    have "entry_state (node w q) AND NOT WAKER_SET \<in> {0, WAKER_SET}"
      using assms by (auto simp: waiting_def)
    note p = polls_flag [OF assms this]
    then have "waiting ?w q"
      using assms by (simp add: polls_def)
    from install_waiting [OF this, of t] obtain w' where "install_and_flag t (entry_addr q) (?w, []) = Some (Sleep, (w', []))" "polls q ?w w'"
      by blast
    then show ?thesis
      using polls_trans [OF p] tc ld not_result_set [OF assms] True l by (auto simp: poll_once_def queue_simps)
  qed
qed

lemma poll_sync_ready:
  assumes "has_result r w q" "is_sync_entry w q" "r \<noteq> ERROR_WRONG_MODE"
  shows "poll_sync to_result t q (w, []) = Some (to_result r None, (consume q w, []))"
proof -
  have l: "live w q" "pollable (node w q)"
    using assms(1) by (simp_all add: has_result_def)
  have "poll_result_sync_loop t (entry_addr q) (w, []) = Some (r, (consume q w, []))"
    using poll_once_ready [OF assms(1)] by (subst poll_result_sync_loop.simps) simp
  then show ?thesis
    using l assms(2,3) by (simp add: poll_sync_def is_registered_live poll_result_sync_def queue_simps is_sync_entry_def split: Monitor.splits)
qed

end
