(* ===== verification/Memory_Shape.thy ===== *)
theory Memory_Shape
  imports Resource_Spec
begin

text \<open>
  What the operations of \<open>Sync_Primitive\<close> do to the memory as such, for every state of it: nothing is allocated
  or freed, anchors are not written, and the fields of an entry that are fixed when it is constructed stay.
  The facts are collected in \<open>kept\<close>.
\<close>

section \<open>Shapes\<close>

definition same_shape :: "Entry \<Rightarrow> Entry \<Rightarrow> bool" where
  "same_shape e e' \<longleftrightarrow> opcode e' = opcode e \<and> drop_callback e' = drop_callback e \<and> prim_addr e' = prim_addr e \<and>
     offset e' = offset e \<and> (case (monitor e, monitor e') of (Sync _, Sync _) \<Rightarrow> True | (Async _, Async _) \<Rightarrow> True | _ \<Rightarrow> False)"

definition same_memory :: "world \<Rightarrow> world \<Rightarrow> bool" where
  "same_memory w w' \<longleftrightarrow> anchors w' = anchors w \<and> (\<forall>p. rel_option same_shape (entries w p) (entries w' p))"

text \<open>What a run of an operation without interference does to the memory.\<close>

definition keeps :: "sys \<Rightarrow> sys \<Rightarrow> bool" where
  "keeps s s' \<longleftrightarrow> (snd s = [] \<longrightarrow> snd s' = [] \<and> same_memory (fst s) (fst s'))"

lemma same_shape_refl [simp]: "same_shape e e"
  by (simp add: same_shape_def split: Monitor.split)

lemma same_shape_trans: "same_shape e e' \<Longrightarrow> same_shape e' e'' \<Longrightarrow> same_shape e e''"
  by (auto simp: same_shape_def split: Monitor.splits)

lemma same_memory_refl [simp]: "same_memory w w"
  by (simp add: same_memory_def option.rel_refl)

lemma same_memory_trans:
  assumes "same_memory w w'" "same_memory w' w''"
  shows "same_memory w w''"
proof -
  have "transp (rel_option same_shape)"
    by (intro option.rel_transp transpI) (rule same_shape_trans)
  from transpD [OF this] have "rel_option same_shape (entries w p) (entries w'' p)" for p
    using assms by (simp add: same_memory_def) blast
  then show ?thesis
    using assms by (simp add: same_memory_def)
qed

lemma keeps_refl [simp]: "keeps s s"
  by (simp add: keeps_def)

lemma keeps_trans [trans]: "keeps s s' \<Longrightarrow> keeps s' s'' \<Longrightarrow> keeps s s''"
  unfolding keeps_def using same_memory_trans by blast

lemma keeps_prim: "keeps s (w, es) \<Longrightarrow> keeps s (w\<lparr>prim_state := x\<rparr>, es)"
  by (simp add: keeps_def same_memory_def)

lemma keeps_interfere: "keeps s (interfere s)"
  by (cases s rule: interfere.cases) (simp_all add: keeps_def)

lemma keeps_atomics [kept]:
  "load s = (x, s') \<Longrightarrow> keeps s s'"
  "compare_exchange c n s = (y, s') \<Longrightarrow> keeps s s'"
  "fetch_update f s = (y, s') \<Longrightarrow> keeps s s'"
  "fetch_add d s = (x, s') \<Longrightarrow> keeps s s'"
  using keeps_interfere [of s]
  by (auto simp: load_def compare_exchange_def fetch_update_def fetch_add_def keeps_prim split: prod.splits if_splits option.splits)

lemma keeps_emit: "keeps s (emit ev s)"
  by (simp add: keeps_def same_memory_def emit_def case_prod_beta option.rel_refl)

lemma keeps_write:
  assumes "read_entry p s = Some e" "same_shape e e'"
  shows "keeps s (write_entry p e' s)"
  using assms by (cases s) (auto simp: keeps_def same_memory_def write_entry_def read_entry_def option.rel_refl)

lemma keeps_update:
  "update_entry p f s = Some s' \<Longrightarrow> (\<And>e. same_shape e (f e)) \<Longrightarrow> keeps s s'"
  by (auto simp: update_entry_def bind_eq_Some_conv intro: keeps_write)

lemma keeps_links [kept]:
  "update_next_entry_anchor_ptr p a s = Some s' \<Longrightarrow> keeps s s'"
  "update_prev_entry_ptr p a s = Some s' \<Longrightarrow> keeps s s'"
  "set_pollable p s = Some s' \<Longrightarrow> keeps s s'"
  unfolding update_next_entry_anchor_ptr_def update_prev_entry_ptr_def set_pollable_def
  by (erule keeps_update, simp add: same_shape_def split: Monitor.split)+


lemma take_task_kind: "take_task mon = (ev, mon') \<Longrightarrow> (case (mon, mon') of (Sync _, Sync _) \<Rightarrow> True | (Async _, Async _) \<Rightarrow> True | _ \<Rightarrow> False)"
  by (auto simp: take_task_def split: Monitor.splits option.splits)

lemma keeps_set_result [kept]:
  assumes "set_result p r s = Some s'"
  shows "keeps s s'"
proof -
  obtain s1 e where s1: "update_entry p (\<lambda>e. e\<lparr>pollable := True\<rparr>) s = Some s1" "read_entry p s1 = Some e"
    using assms by (auto simp: set_result_def bind_eq_Some_conv)
  let ?state = "(entry_state e OR RESULT_SET) OR ucast r"
  let ?s2 = "write_entry p (e\<lparr>entry_state := ?state\<rparr>) s1"
  obtain ev mon where nt: "(if ?state AND WAKER_SET = WAKER_SET then take_task (monitor e) else (None, monitor e)) = (ev, mon)"
    by (metis surj_pair)
  have eq: "(case (ev, mon) of
            (Some ev, mon) \<Rightarrow>
              do { s \<leftarrow> update_entry p (\<lambda>e. e\<lparr>monitor := mon, entry_state := entry_state e OR RESULT_FINALIZED\<rparr>) ?s2;
                   Some (emit ev s) }
          | (None, _) \<Rightarrow> update_entry p (\<lambda>e. e\<lparr>entry_state := entry_state e OR RESULT_FINALIZED\<rparr>) ?s2) = Some s'"
    using assms s1 nt by (simp add: set_result_def Let_def)
  have k: "keeps s s1" "keeps s1 ?s2"
    using keeps_update [OF s1(1)] keeps_write [OF s1(2)] by (auto simp: same_shape_def split: Monitor.split)
  have "keeps ?s2 s'"
  proof (cases ev)
    case None
    then have "update_entry p (\<lambda>e. e\<lparr>entry_state := entry_state e OR RESULT_FINALIZED\<rparr>) ?s2 = Some s'"
      using eq by simp
    then show ?thesis
      by (rule keeps_update) (simp add: same_shape_def split: Monitor.split)
  next
    case (Some ev')
    let ?f = "\<lambda>e. e\<lparr>monitor := mon, entry_state := entry_state e OR RESULT_FINALIZED\<rparr>"
    have r: "read_entry p ?s2 = Some (e\<lparr>entry_state := ?state\<rparr>)"
      by (cases s1) (simp add: read_entry_def write_entry_def)
    have t: "take_task (monitor e) = (Some ev', mon)"
      using nt Some by (simp split: if_splits)
    have "s' = emit ev' (write_entry p (?f (e\<lparr>entry_state := ?state\<rparr>)) ?s2)"
      using eq Some r by (simp add: update_entry_def)
    moreover have "keeps ?s2 (write_entry p (?f (e\<lparr>entry_state := ?state\<rparr>)) ?s2)"
      by (rule keeps_write [OF r]) (use take_task_kind [OF t] in \<open>simp add: same_shape_def\<close>)
    ultimately show ?thesis
      using keeps_trans [OF _ keeps_emit] by simp
  qed
  then show ?thesis
    by (rule keeps_trans [OF k(1) keeps_trans [OF k(2)]])
qed

section \<open>Walks\<close>

lemma keeps_set_prev_ptr [kept]:
  assumes "set_prev_ptr p s = Some s'"
  shows "keeps s s'"
proof (rule set_prev_ptr.raw_induct [where P = "\<lambda>p s s'. keeps s s'", OF _ assms], goal_cases)
  case (1 f p s s')
  note IH = 1(1) and eq = 1(2)
  from eq show ?case
    by (auto simp: bind_eq_Some_conv split: if_splits dest!: kept IH intro: keeps_trans)
qed

definition visitor_keeps :: "'a visitor \<Rightarrow> bool" where
  "visitor_keeps f \<longleftrightarrow> (\<forall>p n a s stop a' s'. f p n a s = Some (stop, a', s') \<longrightarrow> keeps s s')"

lemma visitor_keepsI: "(\<And>p n a s stop a' s'. f p n a s = Some (stop, a', s') \<Longrightarrow> keeps s s') \<Longrightarrow> visitor_keeps f"
  unfolding visitor_keeps_def by blast

lemma visitor_keepsD: "visitor_keeps f \<Longrightarrow> f p n a s = Some (stop, a', s') \<Longrightarrow> keeps s s'"
  unfolding visitor_keeps_def by blast

lemma keeps_iter_forward:
  assumes "iter_forward sp f p a s = Some y" and "visitor_keeps f"
  shows "keeps s (snd y)"
proof -
  have "visitor_keeps f \<longrightarrow> keeps s (snd y)"
  proof (rule iter_forward.raw_induct [where P = "\<lambda>sp f p a s y. visitor_keeps f \<longrightarrow> keeps s (snd y)", OF _ assms(1)], goal_cases)
    case (1 F sp f p a s y)
    note IH = 1(1) and eq = 1(2)
    show ?case
    proof (cases "p = 0")
      case False
      with eq obtain nx s1 stop a2 s2 where
        u: "(if sp \<and> nx \<noteq> 0 then update_prev_entry_ptr nx p s else Some s) = Some s1"
        and v: "f p nx a s1 = Some (stop, a2, s2)" and l: "(if stop then Some (a2, s2) else F sp f nx a2 s2) = Some y"
        by (auto simp: bind_eq_Some_conv)
      have "keeps s s1"
        using u by (auto split: if_splits dest: kept)
      moreover have "visitor_keeps f \<longrightarrow> keeps s1 s2"
        using v unfolding visitor_keeps_def by blast
      moreover have "visitor_keeps f \<longrightarrow> keeps s2 (snd y)"
        using l IH by (auto split: if_splits)
      ultimately show ?thesis
        using keeps_trans by blast
    qed (use eq in auto)
  qed
  with assms(2) show ?thesis by blast
qed

lemma keeps_iter_backward:
  assumes "iter_backward f p a s = Some y" and "visitor_keeps f"
  shows "keeps s (snd y)"
proof -
  have "visitor_keeps f \<longrightarrow> keeps s (snd y)"
  proof (rule iter_backward.raw_induct [where P = "\<lambda>f p a s y. visitor_keeps f \<longrightarrow> keeps s (snd y)", OF _ assms(1)], goal_cases)
    case (1 F f p a s y)
    note IH = 1(1) and eq = 1(2)
    show ?case
    proof (cases "p = 0")
      case False
      with eq obtain pv stop a2 s2 where
        v: "f p pv a s = Some (stop, a2, s2)" and l: "(if stop then Some (a2, s2) else F f pv a2 s2) = Some y"
        by (auto simp: bind_eq_Some_conv)
      have "visitor_keeps f \<longrightarrow> keeps s s2"
        using v unfolding visitor_keeps_def by blast
      moreover have "visitor_keeps f \<longrightarrow> keeps s2 (snd y)"
        using l IH by (auto split: if_splits)
      ultimately show ?thesis
        using keeps_trans by blast
    qed (use eq in auto)
  qed
  with assms(2) show ?thesis by blast
qed

lemma visitors_keep:
  "visitor_keeps (grant_entry most state)" "visitor_keeps set_head" "visitor_keeps (set_result_closure r)"
proof -
  show "visitor_keeps (grant_entry most state)"
    by (rule visitor_keepsI)
       (auto simp: grant_entry_def bind_eq_Some_conv Let_def split: if_splits prod.splits result.splits dest!: kept intro: keeps_trans)
  show "visitor_keeps set_head"
    by (rule visitor_keepsI) (simp add: set_head_def)
  show "visitor_keeps (set_result_closure r)"
    by (rule visitor_keepsI) (auto simp: set_result_closure_def bind_eq_Some_conv dest: kept)
qed

lemma keeps_find_head [kept]: "find_head head tail s = Some (h, s') \<Longrightarrow> keeps s s'"
  using keeps_iter_forward [OF _ visitors_keep(2), of True tail head s "(h, s')"]
  by (auto simp: find_head_def bind_eq_Some_conv split: if_splits dest: kept)

lemma keeps_try_unlock [kept]: "try_unlock data v s = (b, s') \<Longrightarrow> keeps s s'"
  by (auto simp: try_unlock_def split: if_splits prod.splits result.splits dest!: kept)

lemma keeps_process_loop [kept]:
  assumes "process_wait_queue_loop most head state s = Some s'"
  shows "keeps s s'"
proof (rule process_wait_queue_loop.raw_induct [where P = "\<lambda>most head state s s'. keeps s s'", OF _ assms], goal_cases)
  case (1 F most head state s s')
  let ?add = "\<lambda>b v s. if b then (state, s) else (case fetch_add (transferred_count v) s of (prev, s) \<Rightarrow> (prev + transferred_count v, s))"
  from 1(2) obtain tail h s1 v s2 where
    h: "find_head head tail s = Some (h, s1)"
    and v: "iter_backward (grant_entry most state) h \<lparr>head_entry = h, unlocked = False, transferred_count = 0,
      resolved_entry = 0, reset_failed = False\<rparr> s1 = Some (v, s2)"
    and rest: "(case try_unlock (state AND DATA_MASK) v s2 of (is_unlocked, s) \<Rightarrow>
          case ?add is_unlocked v s of (state, s) \<Rightarrow>
          do { (u, s) \<leftarrow> iter_forward False (set_result_closure 0) (resolved_entry v) () s;
               if is_unlocked then Some s else F most (head_entry v) state s }) = Some s'"
    by (auto simp: bind_eq_Some_conv Let_def)
  obtain b s3 where u: "try_unlock (state AND DATA_MASK) v s2 = (b, s3)"
    by (metis surj_pair)
  obtain st s4 where f: "?add b v s3 = (st, s4)"
    by (metis surj_pair)
  from rest obtain s5 where r: "iter_forward False (set_result_closure 0) (resolved_entry v) () s4 = Some ((), s5)"
    and l: "if b then s' = s5 else F most (head_entry v) st s5 = Some s'"
    unfolding u prod.case f by (auto simp: bind_eq_Some_conv split: if_splits)
  have "keeps s3 s4"
    using f by (auto split: if_splits prod.splits dest!: kept)
  moreover have "keeps s5 s'"
    using l 1(1) by (auto split: if_splits)
  moreover have "keeps s s1" "keeps s1 s2" "keeps s2 s3" "keeps s4 s5"
    using h u kept keeps_iter_backward [OF v visitors_keep(1)] keeps_iter_forward [OF r visitors_keep(3)] by auto
  ultimately show ?case
    using keeps_trans by metis
qed

lemma keeps_release_loop [kept]:
  assumes "release_loop most state opc s = Some y"
  shows "keeps s (snd y)"
proof (rule release_loop.raw_induct [where P = "\<lambda>most state opc s y. keeps s (snd y)", OF _ assms], goal_cases)
  case (1 F most state opc s y)
  note IH = 1(1) and eq = 1(2)
  from eq show ?case
    by (auto simp: bind_eq_Some_conv process_wait_queue_def Let_def split: if_splits prod.splits result.splits
        dest!: kept IH intro: keeps_trans)
qed

section \<open>Removal and waiting\<close>

lemma keeps_exchange_to [kept]: "exchange_to state next_state s = (r, s') \<Longrightarrow> keeps s s'"
  by (auto simp: exchange_to_def split: prod.splits result.splits dest!: kept)

lemma visitor_keeps_remove: "visitor_keeps (remove_entry state target)"
proof (rule visitor_keepsI)
  fix p n a s stop a' s'
  assume r: "remove_entry state target p n a s = Some (stop, a', s')"
  show "keeps s s'"
  proof (cases "p = target")
    case True
    with r obtain pv s1 where
      u: "(if n \<noteq> 0 then update_prev_entry_ptr n pv s else Some s) = Some s1"
      and x: "(if pv \<noteq> 0 then
                  do { a \<leftarrow> next_entry_anchor_ptr p s1;
                       s \<leftarrow> update_next_entry_anchor_ptr pv a s1;
                       Some (Ok (state, True), s) }
                else if n \<noteq> 0 then
                  do { new_tail \<leftarrow> to_wait_queue_ptr n s1;
                       Some (exchange_to state ((state AND NOT ADDR_MASK) OR anchor_addr new_tail) s1) }
                else Some (exchange_to state (state AND DATA_MASK) s1)) = Some (a', s')"
      by (auto simp: remove_entry_def bind_eq_Some_conv)
    have "keeps s s1"
      using u by (auto split: if_splits dest: kept)
    moreover have "keeps s1 s'"
      using x by (auto simp: bind_eq_Some_conv split: if_splits dest: kept)
    ultimately show ?thesis
      by (rule keeps_trans)
  qed (use r in \<open>simp add: remove_entry_def\<close>)
qed

lemma keeps_remove_loop [kept]:
  assumes "remove_wait_queue_entry_loop result state target s = Some y"
  shows "keeps s (snd y)"
proof (rule remove_wait_queue_entry_loop.raw_induct [where P = "\<lambda>r state target s y. keeps s (snd y)", OF _ assms], goal_cases)
  case (1 F r state target s y)
  note IH = 1(1) and eq = 1(2)
  from eq obtain tail r1 s1 where i: "iter_forward True (remove_entry state target) tail r s = Some (r1, s1)"
    and l: "(case r1 of Ok out \<Rightarrow> Some (out, s1) | Err st \<Rightarrow> F r1 st target s1) = Some y"
    by (auto simp: bind_eq_Some_conv)
  have "keeps s s1"
    using keeps_iter_forward [OF i visitor_keeps_remove] by simp
  moreover have "keeps s1 (snd y)"
    using l IH by (auto split: result.splits)
  ultimately show ?case
    by (rule keeps_trans)
qed

lemma keeps_load_entry_state [kept]: "load_entry_state p s = Some (x, s') \<Longrightarrow> keeps s s'"
  using keeps_interfere [of s] by (auto simp: load_entry_state_def Let_def bind_eq_Some_conv)

lemma keeps_await_finalized [kept]:
  assumes "await_finalized p s = Some s'"
  shows "keeps s s'"
proof (rule await_finalized.raw_induct [where P = "\<lambda>p s s'. keeps s s'", OF _ assms], goal_cases)
  case (1 F p s s')
  note IH = 1(1) and eq = 1(2)
  from eq show ?case
    by (auto simp: result_finalized_def bind_eq_Some_conv split: if_splits dest!: kept IH intro: keeps_trans)
qed

lemma keeps_force_remove_loop [kept]:
  assumes "force_remove_loop most this state s = Some (b, st, s')"
  shows "keeps s s'"
proof -
  have "keeps s (snd (snd (b, st, s')))"
  proof (rule force_remove_loop.raw_induct [where P = "\<lambda>most this state s y. keeps s (snd (snd y))", OF _ assms], goal_cases)
    case (1 F most this state s y)
    note IH = 1(1) and eq = 1(2)
    from eq show ?case
      by (auto simp: remove_wait_queue_entry_def process_wait_queue_def bind_eq_Some_conv
          split: if_splits prod.splits result.splits dest!: kept IH intro: keeps_trans)
  qed
  then show ?thesis by simp
qed

lemma keeps_force_remove [kept]: "force_remove_wait_queue_entry most this s = Some s' \<Longrightarrow> keeps s s'"
  by (auto simp: force_remove_wait_queue_entry_def bind_eq_Some_conv split: if_splits prod.splits dest!: kept intro: keeps_trans [OF keeps_trans [OF keeps_trans]] keeps_trans)

lemma keeps_try_push [kept]:
  assumes "try_push_wait_queue_entry q state s = Some (b, s')"
  shows "keeps s s'"
proof -
  let ?next = "(state AND NOT ADDR_MASK) OR anchor_addr q"
  obtain p s1 where u: "update_next_entry_anchor_ptr p (to_anchor_ptr state) s = Some s1"
    and x: "(case compare_exchange state ?next s1 of
             (Ok _, s) \<Rightarrow> do { p \<leftarrow> entry q s; s \<leftarrow> set_pollable p s; Some (True, s) }
           | (Err _, s) \<Rightarrow> Some (False, s)) = Some (b, s')"
    using assms by (auto simp: try_push_wait_queue_entry_def bind_eq_Some_conv Let_def)
  have "keeps s1 s'"
    using x by (auto simp: bind_eq_Some_conv split: prod.splits result.splits dest!: kept intro: keeps_trans)
  with keeps_links(1) [OF u] show ?thesis
    by (rule keeps_trans)
qed

lemma same_memory_resolve: "live w q \<Longrightarrow> same_memory w (resolve r q w)"
  using keeps_set_result [OF set_result_live [of w q r "[]"]] by (simp add: keeps_def)

lemma same_memory_fold:
  "\<forall>p \<in> set ps. live w p \<Longrightarrow> same_memory w (fold (resolve r) ps w)"
proof (induction ps arbitrary: w)
  case (Cons p ps)
  then have "same_memory (resolve r p w) (fold (resolve r) ps (resolve r p w))"
    by simp
  then show ?case
    using same_memory_trans [OF same_memory_resolve [of w p r]] Cons.prems by simp
qed simp

lemma same_memory_prim [simp]:
  "same_memory (w\<lparr>prim_state := x\<rparr>) w' = same_memory w w'" "same_memory w (w'\<lparr>prim_state := x\<rparr>) = same_memory w w'"
  by (simp_all add: same_memory_def)

end
