(* ===== verification/Blocking_Acquire.thy ===== *)
theory Blocking_Acquire
  imports Blocking_Wait Memory_Shape
begin

text \<open>
  The calls that block or suspend until they have acquired something, for all primitives at once.  The
  specification is the abstract resource with its line: \<open>spec_acquire\<close> says what an acquiring task may
  experience while the others release, \<open>turn_comes\<close> that the others release enough.  The locale
  \<open>blocking_call\<close> is the interface of such a call; in it, \<open>acquires\<close> shows that the call returns and refines the
  specification, whatever the interleaving.
\<close>

section \<open>The abstract line\<close>

text \<open>Between two accesses of a task the others do nothing or give something back.\<close>

definition spec_do :: "nat \<Rightarrow> Opcode option \<Rightarrow> resource \<Rightarrow> resource" where
  "spec_do limit a r = (case a of None \<Rightarrow> r | Some opc \<Rightarrow> snd (spec_release limit opc r))"

definition spec_run :: "nat \<Rightarrow> Opcode option list \<Rightarrow> resource \<Rightarrow> resource" where
  "spec_run limit as r = fold (spec_do limit) as r"

definition joins :: "usize \<Rightarrow> Opcode \<Rightarrow> resource \<Rightarrow> resource" where
  "joins q opc r = r\<lparr>line := line r @ [(q, opc)]\<rparr>"

definition available :: "nat \<Rightarrow> Opcode \<Rightarrow> resource \<Rightarrow> bool" where
  "available limit opc r \<longleftrightarrow> line r = [] \<and> can_grant limit (in_use r) opc"

definition queued_up :: "usize \<Rightarrow> resource \<Rightarrow> bool" where
  "queued_up q r \<longleftrightarrow> q \<in> set (map fst (line r))"

text \<open>A task that asks for \<open>opc\<close> gets it at once if it is available, or joins the line and is served in its turn;
  the others may act before.\<close>

inductive spec_acquire :: "nat \<Rightarrow> usize \<Rightarrow> Opcode \<Rightarrow> Opcode option list \<Rightarrow> resource \<Rightarrow> resource \<Rightarrow> bool"
  for limit q opc where
  now: "available limit opc r \<Longrightarrow> spec_acquire limit q opc as r (r\<lparr>in_use := in_use r + acquired opc\<rparr>)"
| served: "\<not> available limit opc r \<Longrightarrow> \<not> queued_up q (spec_run limit (take n as) (joins q opc r)) \<Longrightarrow>
     spec_acquire limit q opc as r (spec_run limit (take n as) (joins q opc r))"
| later: "spec_acquire limit q opc as (spec_do limit a r) r' \<Longrightarrow> spec_acquire limit q opc (a # as) r r'"

text \<open>Whenever the task comes, the others give back enough for its turn to come.\<close>

fun turn_comes :: "nat \<Rightarrow> usize \<Rightarrow> Opcode \<Rightarrow> Opcode option list \<Rightarrow> resource \<Rightarrow> bool" where
  "turn_comes limit q opc [] r \<longleftrightarrow> available limit opc r"
| "turn_comes limit q opc (a # as) r \<longleftrightarrow>
     (available limit opc r \<or> \<not> queued_up q (spec_run limit (a # as) (joins q opc r))) \<and>
     turn_comes limit q opc as (spec_do limit a r)"

lemma spec_run_simps [simp]:
  "spec_run limit [] r = r" "spec_run limit (a # as) r = spec_run limit as (spec_do limit a r)"
  "spec_run limit (as @ bs) r = spec_run limit bs (spec_run limit as r)"
  by (simp_all add: spec_run_def)

lemma spec_do_line: "set (line (spec_do limit a r)) \<subseteq> set (line r)"
  by (auto simp: spec_do_def spec_release_def grant_def Let_def dest: in_set_dropD split: option.splits)

lemma spec_do_queued: "queued_up q (spec_do limit a r) \<Longrightarrow> queued_up q r"
  using spec_do_line [of limit a r] by (auto simp: queued_up_def)

lemma turn_comes_served: "turn_comes limit q opc as r \<Longrightarrow> \<not> available limit opc r \<Longrightarrow> \<not> queued_up q (spec_run limit as (joins q opc r))"
  by (cases as) auto

section \<open>The others\<close>

definition others_do :: "usize \<Rightarrow> Opcode option \<Rightarrow> world \<Rightarrow> world" where
  "others_do most a w =
     (case a of None \<Rightarrow> w
      | Some opc \<Rightarrow> (case release_loop most (prim_state w) opc (w, []) of Some (_, (w', _)) \<Rightarrow> w' | None \<Rightarrow> w))"

lemma unallocated_same: "same_memory w w' \<Longrightarrow> unallocated w q \<Longrightarrow> unallocated w' q"
proof -
  assume a: "same_memory w w'" "unallocated w q"
  then have "rel_option same_shape None (entries w' (entry_addr q))"
    unfolding same_memory_def unallocated_def by metis
  with a show ?thesis
    by (simp add: same_memory_def unallocated_def)
qed

lemma sync_kind_same:
  assumes "same_memory w w'" "live w q"
  shows "is_sync_entry w' q = is_sync_entry w q"
proof -
  obtain e where e: "entries w (entry_addr q) = Some e"
    using assms(2) by (auto simp: live_def)
  moreover have "rel_option same_shape (entries w (entry_addr q)) (entries w' (entry_addr q))"
    using assms(1) by (simp add: same_memory_def)
  ultimately obtain e' where "entries w' (entry_addr q) = Some e'" "same_shape e e'"
    by (auto simp: option_rel_Some1)
  with e show ?thesis
    by (cases "monitor e"; cases "monitor e'") (simp_all add: is_sync_entry_def node_def same_shape_def)
qed

context sync_primitive
begin

lemma others_refine:
  fixes a :: "Opcode option"
  assumes "represents w r"
  defines "w' \<equiv> others_do most a w" and "r' \<equiv> spec_do (unat most) a r"
  shows "represents w' r'" "served r r' w'" "unchanged (set (map fst (line r))) w w'" "same_memory w w'"
proof -
  have "represents w' r' \<and> served r r' w' \<and> unchanged (set (map fst (line r))) w w' \<and> same_memory w w'"
  proof (cases a)
    case None
    then show ?thesis
      using assms by (simp add: others_do_def spec_do_def served_def unchanged_def)
  next
    case (Some opc)
    obtain w1 where w1: "release_loop most (prim_state w) opc (w, []) = Some (fst (spec_release (unat most) opc r), (w1, []))"
      "represents w1 (snd (spec_release (unat most) opc r))" "served r (snd (spec_release (unat most) opc r)) w1"
      "unchanged (set (map fst (line r))) w w1"
      using release_refines [OF assms(1), of opc] by blast
    have "same_memory w w1"
      using keeps_release_loop [OF w1(1)] by (simp add: keeps_def)
    with w1 Some show ?thesis
      by (simp add: w'_def r'_def others_do_def spec_do_def)
  qed
  then show "represents w' r'" "served r r' w'" "unchanged (set (map fst (line r))) w w'" "same_memory w w'"
    by auto
qed

lemma others_act:
  assumes "(interfere ^^ k) (w, map (others_do most) as) = (w', es')"
    and "represents w r" "unallocated w q" "turn_comes (unat most) q opc as r"
  shows "\<exists>as' r'. es' = map (others_do most) as' \<and> represents w' r' \<and> unallocated w' q \<and> turn_comes (unat most) q opc as' r' \<and>
    length as' \<le> length as \<and> (\<forall>x. spec_acquire (unat most) q opc as' r' x \<longrightarrow> spec_acquire (unat most) q opc as r x)"
  using assms
proof (induction k arbitrary: w as r)
  case 0
  then show ?case by auto
next
  case (Suc k)
  show ?case
  proof (cases as)
    case Nil
    then have "(w', es') = (w, [])"
      using Suc.prems(1) by (induction k) (auto simp: funpow_Suc_right simp del: funpow.simps)
    with Nil Suc.prems show ?thesis by auto
  next
    case (Cons a as1)
    note o = others_refine [OF Suc.prems(2), of a]
    have "(interfere ^^ k) (others_do most a w, map (others_do most) as1) = (w', es')"
      using Suc.prems(1) Cons by (simp add: funpow_Suc_right del: funpow.simps)
    from Suc.IH [OF this o(1) unallocated_same [OF o(4) Suc.prems(3)]] Suc.prems(4) Cons
    show ?thesis
      by (fastforce intro: spec_acquire.later)
  qed
qed

end

section \<open>In the line\<close>

definition in_line :: "nat \<Rightarrow> Opcode option list \<Rightarrow> resource \<Rightarrow> bool \<Rightarrow> usize \<Rightarrow> world \<Rightarrow> bool" where
  "in_line limit as r b q w \<longleftrightarrow> is_sync_entry w q = b \<and>
     (\<exists>n. represents w (spec_run limit (take n as) r) \<and> queued_up q (spec_run limit (take n as) r))"

definition got_it :: "nat \<Rightarrow> Opcode option list \<Rightarrow> resource \<Rightarrow> bool \<Rightarrow> usize \<Rightarrow> world \<Rightarrow> bool" where
  "got_it limit as r b q w \<longleftrightarrow> is_sync_entry w q = b \<and> has_result 0 w q \<and>
     (\<exists>n. represents w (spec_run limit (take n as) r) \<and> \<not> queued_up q (spec_run limit (take n as) r))"

lemma queued_up_waiting: "represents w r \<Longrightarrow> queued_up q r \<Longrightarrow> waiting w q"
  using queue_facts(2) [of w "map fst (line r)" q] by (simp add: represents_def well_formed_def queued_up_def)

lemma handover_line: "handover (in_line limit as r b q) (got_it limit as r b q) 0 q"
  unfolding handover_def
proof (intro conjI allI impI)
  fix w w'
  show "in_line limit as r b q w \<Longrightarrow> waiting w q" "got_it limit as r b q w \<Longrightarrow> has_result 0 w q"
    using queued_up_waiting by (auto simp: in_line_def got_it_def)
  show "in_line limit as r b q w'" if "polls q w w'" "in_line limit as r b q w"
    using that represents_polls [OF _ that(1)] unfolding in_line_def polls_def by blast
  show "got_it limit as r b q w'" if "polls q w w'" "got_it limit as r b q w"
    using that represents_polls [OF _ that(1)] unfolding got_it_def polls_def by blast
qed

context sync_primitive
begin

lemma others_serve:
  fixes a :: "Opcode option"
  assumes rep: "represents w r" and q: "queued_up q r \<or> has_result 0 w q \<and> \<not> queued_up q r"
  defines "w' \<equiv> others_do most a w" and "r' \<equiv> spec_do (unat most) a r"
  shows "queued_up q r' \<or> has_result 0 w' q \<and> \<not> queued_up q r'" and "is_sync_entry w' q = is_sync_entry w q"
proof -
  note o = others_refine [OF rep, of a, folded w'_def r'_def]
  have "live w q"
    using q queued_up_waiting [OF rep] by (auto simp: has_result_def)
  then show "is_sync_entry w' q = is_sync_entry w q"
    by (rule sync_kind_same [OF o(4)])
  show "queued_up q r' \<or> has_result 0 w' q \<and> \<not> queued_up q r'"
  proof (cases "queued_up q r")
    case True
    then obtain opc where "(q, opc) \<in> set (line r)"
      by (auto simp: queued_up_def)
    with o(2) show ?thesis
      by (force simp: served_def queued_up_def)
  next
    case False
    then have "q \<notin> set (map fst (line r))" "\<not> queued_up q r'"
      using spec_do_queued [of q "unat most" a r] by (auto simp: queued_up_def r'_def)
    with False q show ?thesis
      using has_result_unchanged [OF o(3)] by blast
  qed
qed

lemma expects_line:
  assumes "represents w (spec_run (unat most) pre r)" "is_sync_entry w q = b"
    and "queued_up q (spec_run (unat most) pre r) \<or> has_result 0 w q \<and> \<not> queued_up q (spec_run (unat most) pre r)"
    and "as0 = pre @ as" "\<not> queued_up q (spec_run (unat most) as0 r)"
  shows "expects (in_line (unat most) as0 r b q) (got_it (unat most) as0 r b q) q (w, map (others_do most) as)"
  using assms
proof (induction as arbitrary: pre w)
  case Nil
  then show ?case
    by (auto simp: got_it_def intro: exI [of _ "length pre"])
next
  case (Cons a as)
  let ?r = "spec_run (unat most) pre r"
  have tk: "take (length pre) as0 = pre" "take (Suc (length pre)) as0 = pre @ [a]"
    using Cons.prems(4) by auto
  have here: "in_line (unat most) as0 r b q w \<or> got_it (unat most) as0 r b q w"
    using Cons.prems(1,2,3) tk(1) unfolding in_line_def got_it_def by metis
  have "expects (in_line (unat most) as0 r b q) (got_it (unat most) as0 r b q) q (others_do most a w', map (others_do most) as) \<and>
      (got_it (unat most) as0 r b q w' \<longrightarrow> got_it (unat most) as0 r b q (others_do most a w'))" if po: "polls q w w'" for w'
  proof -
    have w': "represents w' ?r" "is_sync_entry w' q = b" "queued_up q ?r \<or> has_result 0 w' q \<and> \<not> queued_up q ?r"
      using represents_polls [OF Cons.prems(1) po] Cons.prems(2,3) po by (auto simp: polls_def)
    note o = others_refine(1) [OF w'(1), of a] and s = others_serve [OF w'(1,3), of a]
    have "expects (in_line (unat most) as0 r b q) (got_it (unat most) as0 r b q) q (others_do most a w', map (others_do most) as)"
      by (rule Cons.IH [where pre = "pre @ [a]"]) (use o s w'(2) Cons.prems(4,5) in auto)
    moreover have "got_it (unat most) as0 r b q (others_do most a w')" if "got_it (unat most) as0 r b q w'"
    proof -
      have "\<not> queued_up q ?r"
        using that queued_up_waiting [OF w'(1)] not_finalized [of w' q] by (auto simp: got_it_def has_result_def)
      then show ?thesis
        using o s w'(2) tk(2) spec_do_queued [of q "unat most" a ?r] unfolding got_it_def by (intro conjI exI [of _ "Suc (length pre)"]) auto
    qed
    ultimately show ?thesis by blast
  qed
  with here show ?case by simp
qed

end

section \<open>Waiting for the turn\<close>

definition wait_resources ::
  "bool \<Rightarrow> drop_fn \<Rightarrow> (usize \<Rightarrow> sys \<Rightarrow> sys option) \<Rightarrow> usize \<Rightarrow> task \<Rightarrow> usize \<Rightarrow> usize \<Rightarrow> Opcode \<Rightarrow> callback
     \<Rightarrow> sys \<Rightarrow> ((u8, unit) result \<times> sys) option" where
  "wait_resources is_sync = (if is_sync then wait_resources_sync else wait_resources_async)"

lemma wait_resources_unfold:
  "wait_resources b kind drop_entry prim t q state opc begin_wait s =
     do { s \<leftarrow> construct q prim kind opc b (wait_queue_default q s);
          (pushed, s) \<leftarrow> try_push_wait_queue_entry q state s;
          if pushed then
            do { let s = begin_wait s;
                 p \<leftarrow> entry q s;
                 (result, s) \<leftarrow> (if b then poll_result_sync t p s else await_entry t p s);
                 s \<leftarrow> wait_queue_drop (\<lambda>_. drop_entry) q s;
                 Some (Ok result, s) }
          else
            do { s \<leftarrow> wait_queue_drop (\<lambda>_. drop_entry) q s; Some (Err (), s) } }"
  by (cases b) (simp_all add: wait_resources_def wait_resources_sync_def wait_resources_async_def cong: if_cong)

lemma represents_freed:
  assumes "represents w r" "live w q" "\<not> queued_up q r"
  shows "represents (fst (wait_queue_free q (w, es))) r"
  by (rule represents_unchanged [OF assms(1) free_entry(1) [OF assms(2)]])
     (use assms free_entry(3) in \<open>auto simp: queued_up_def\<close>)

lemma represents_joined:
  assumes rep: "represents w r" and fr: "fresh_entry w q" and op: "node_op w q = opc"
    and x: "x = (prim_state w AND NOT ADDR_MASK) OR anchor_addr q"
  shows "represents (pushed q x w) (joins q opc r)"
proof -
  let ?qs = "map fst (line r)"
  have qu: "queue w ?qs" and aq: "addr_of (anchor_addr q) = anchor_addr q"
    using rep fr by (auto simp: represents_def well_formed_def fresh_entry_def)
  note v = replace_addr_views [OF aq, of "prim_state w", folded x]
  note p = push_well_formed [OF qu fr v(1)]
  have "opcodes (pushed q x w) ?qs = opcodes w ?qs"
  proof (rule map_cong [OF refl])
    fix y assume y: "y \<in> set ?qs"
    then have "live w y" "y \<notin> {q}"
      using fresh_not_queued [OF qu fr] queue_facts(3) [OF qu y] by auto
    then show "opcode (node (pushed q x w) y) = opcode (node w y)"
      using p(5) unfolding unchanged_def by metis
  qed
  then show ?thesis
    using rep v p op by (simp add: represents_def joins_def node_op_def)
qed

lemma fresh_not_up: "represents w r \<Longrightarrow> fresh_entry w q \<Longrightarrow> \<not> queued_up q r"
  using fresh_not_queued [of w "map fst (line r)" q] by (simp add: represents_def well_formed_def queued_up_def)

lemma available_same_word:
  assumes "represents w r" "represents w' r'" "prim_state w' = prim_state w"
  shows "available limit opc r' = available limit opc r"
proof -
  have "line r = [] \<longleftrightarrow> addr_of (prim_state w) = 0" "line r' = [] \<longleftrightarrow> addr_of (prim_state w') = 0"
    using assms queue_empty_iff [of w "map fst (line r)"] queue_empty_iff [of w' "map fst (line r')"]
    by (auto simp: represents_def well_formed_def)
  then show ?thesis
    using assms by (simp add: represents_def available_def)
qed

text \<open>The entry is pushed, or the word has changed meanwhile.\<close>

lemma push_result:
  assumes "live w q" "next_entry_anchor (node w q) = addr_of (prim_state w)"
  shows "upd q (\<lambda>x. x\<lparr>pollable := True\<rparr>) (w\<lparr>prim_state := x\<rparr>) = pushed q x w"
proof -
  have "(node w q)\<lparr>next_entry_anchor := addr_of (prim_state w), pollable := True\<rparr> = (node w q)\<lparr>pollable := True\<rparr>"
    unfolding assms(2) [symmetric] by (cases "node w q") simp
  then show ?thesis
    by (simp add: pushed_def upd_def)
qed

context sync_primitive
begin

text \<open>After the push: the task polls, gets its result and drops its wait queue.\<close>

lemma line_wait_returns:
  assumes rep: "represents w r" and k: "is_sync_entry w q = b" and up: "queued_up q r"
    and turn: "\<not> queued_up q (spec_run (unat most) as r)"
  shows "\<exists>w' es' n. (do { p \<leftarrow> entry q (w, map (others_do most) as);
                        (result, s) \<leftarrow> (if b then poll_result_sync t p (w, map (others_do most) as)
                                       else await_entry t p (w, map (others_do most) as));
                        s \<leftarrow> wait_queue_drop cb q s;
                        Some (result, s) }) = Some (0, (w', es')) \<and>
    represents w' (spec_run (unat most) (take n as) r) \<and> \<not> queued_up q (spec_run (unat most) (take n as) r) \<and> unallocated w' q"
proof -
  let ?s = "(w, map (others_do most) as)"
  have l: "live w q"
    using queued_up_waiting [OF rep up] by auto
  have ex: "expects (in_line (unat most) as r b q) (got_it (unat most) as r b q) q ?s"
    by (rule expects_line [where pre = "[]"]) (use rep k up turn in auto)
  have "\<exists>u es'. (if b then poll_result_sync t (entry_addr q) ?s else await_entry t (entry_addr q) ?s) = Some (0, (consume q u, es')) \<and>
      got_it (unat most) as r b q u"
  proof (cases b)
    case True
    then obtain m where "monitor (node w q) = Sync m"
      using k sync_entry_iff(1) by blast
    then show ?thesis
      using poll_loop_returns [OF handover_line ex] l True by (simp add: poll_result_sync_def queue_simps)
  next
    case False
    have "\<not> is_sync_entry x q" if "in_line (unat most) as r b q x \<or> got_it (unat most) as r b q x" for x
      using that False by (auto simp: in_line_def got_it_def)
    then show ?thesis
      using await_returns [OF handover_line _ ex] False by simp
  qed
  then obtain u es' where po: "(if b then poll_result_sync t (entry_addr q) ?s else await_entry t (entry_addr q) ?s) =
      Some (0, (consume q u, es'))" and g: "got_it (unat most) as r b q u"
    by blast
  then obtain n where n: "represents u (spec_run (unat most) (take n as) r)" "\<not> queued_up q (spec_run (unat most) (take n as) r)"
    and lu: "live u q"
    by (auto simp: got_it_def has_result_def)
  have lc: "live (consume q u) q" "\<not> pollable (node (consume q u) q)"
    using lu by (simp_all add: consume_def)
  have "represents (consume q u) (spec_run (unat most) (take n as) r)"
    by (rule represents_unchanged [OF n(1) unchanged_consume [OF lu]]) (use n(2) in \<open>auto simp: queued_up_def consume_def\<close>)
  note f = represents_freed [OF this lc(1) n(2), of es'] free_entry [OF lc(1), of es']
  have "entry q ?s = Some (entry_addr q)"
    using l by (simp add: queue_simps)
  then show ?thesis
    using po drop_acknowledged [OF lc, of cb es'] f n(2)
    by (cases "wait_queue_free q (consume q u, es')") (auto split: if_splits)
qed

text \<open>The entry is constructed and linked to the tail that was seen; then another action happens.\<close>

lemma ready_to_push:
  assumes rep: "represents w r" and un: "unallocated w q" and ok: "opcode_ok opc" and r1_def: "r1 = spec_do (unat most) a r"
  obtains w1 w2 w3 where "construct q prim kind opc b (wait_queue_default q (w, es)) = Some (w1, es)" "live w1 q" "prim_state w1 = prim_state w"
    and "w2 = upd q (\<lambda>x. x\<lparr>next_entry_anchor := addr_of (prim_state w)\<rparr>) w1" "represents w2 r" "prim_state w2 = prim_state w"
    and "w3 = others_do most a w2" "represents w3 r1" "live w3 q" "fresh_entry w3 q" "node_op w3 q = opc" "is_sync_entry w3 q = b"
    and "next_entry_anchor (node w3 q) = addr_of (prim_state w)" "\<not> queued_up q r1"
proof -
  obtain w1 where c: "construct q prim kind opc b (wait_queue_default q (w, es)) = Some (w1, es)"
    and fr1: "fresh_entry w1 q" "prim_state w1 = prim_state w" "node_op w1 q = opc" "is_sync_entry w1 q = b" "unchanged {} w w1"
    using construct_fresh [OF un ok] by blast
  have l1: "live w1 q"
    using fr1(1) by (simp add: fresh_entry_def)
  have rep1: "represents w1 r"
    using represents_unchanged [OF rep fr1(5)] fr1(2) by simp
  note nq = fresh_not_up [OF rep1 fr1(1)]
  let ?w2 = "upd q (\<lambda>x. x\<lparr>next_entry_anchor := addr_of (prim_state w)\<rparr>) w1"
  have rep2: "represents ?w2 r"
    by (rule represents_unchanged [OF rep1, of "{q}"]) (use l1 nq in \<open>auto simp: unchanged_def queued_up_def\<close>)
  let ?w3 = "others_do most a ?w2"
  note o = others_refine [OF rep2, of a, folded r1_def]
  have "live ?w2 q" "q \<notin> set (map fst (line r))"
    using l1 nq by (simp_all add: queued_up_def)
  then have n3: "live ?w3 q" "node ?w3 q = node ?w2 q"
    using o(3) unfolding unchanged_def by blast+
  then have fr3: "fresh_entry ?w3 q" "node_op ?w3 q = opc" "is_sync_entry ?w3 q = b" "next_entry_anchor (node ?w3 q) = addr_of (prim_state w)"
    using fr1 l1 by (simp_all add: fresh_entry_def node_op_def is_sync_entry_def)
  have ps: "prim_state ?w2 = prim_state w"
    using fr1(2) by simp
  show thesis
    using that [OF c l1 fr1(2) refl rep2 ps refl o(1) n3(1) fr3 fresh_not_up [OF o(1) fr3(1)]] .
qed

lemma wait_resources_refines:
  assumes rep: "represents w r" and un: "unallocated w q" and ok: "opcode_ok opc"
    and nav: "\<not> available (unat most) opc r" and turn: "turn_comes (unat most) q opc (a # as) r"
    and out_def: "out = wait_resources b kind drop_entry prim t q (prim_state w) opc id (w, map (others_do most) (a # as))"
    and r1_def: "r1 = spec_do (unat most) a r"
  shows "(\<exists>w' es' n. out = Some (Ok 0, (w', es')) \<and> \<not> available (unat most) opc r1 \<and>
      represents w' (spec_run (unat most) (take n as) (joins q opc r1)) \<and>
      \<not> queued_up q (spec_run (unat most) (take n as) (joins q opc r1)) \<and> unallocated w' q) \<or>
    (\<exists>w'. out = Some (Err (), (w', map (others_do most) as)) \<and> represents w' r1 \<and> unallocated w' q)"
proof -
  let ?es = "map (others_do most) as" and ?state = "prim_state w"
  obtain w1 w2 w3 where c: "construct q prim kind opc b (wait_queue_default q (w, map (others_do most) (a # as))) =
      Some (w1, map (others_do most) (a # as))" "live w1 q" "prim_state w1 = ?state"
    and w2: "w2 = upd q (\<lambda>x. x\<lparr>next_entry_anchor := addr_of ?state\<rparr>) w1" "represents w2 r" "prim_state w2 = ?state"
    and w3: "w3 = others_do most a w2" "represents w3 r1" "live w3 q" "fresh_entry w3 q" "node_op w3 q = opc" "is_sync_entry w3 q = b"
      "next_entry_anchor (node w3 q) = addr_of ?state" "\<not> queued_up q r1"
    using ready_to_push [OF rep un ok r1_def, of prim kind b "map (others_do most) (a # as)"] by metis
  note push = push_env [OF c(2), of ?state "others_do most a" ?es, folded w2(1) w3(1)]
  show ?thesis
  proof (cases "prim_state w3 = ?state")
    case False
    then have "try_push_wait_queue_entry q ?state (w1, map (others_do most) (a # as)) = Some (False, (w3, ?es))"
      using push by simp
    moreover have "wait_queue_drop cb q (w3, ?es) = Some (wait_queue_free q (w3, ?es))" for cb
      using w3(4) by (intro drop_acknowledged) (simp_all add: fresh_entry_def)
    ultimately have "out = Some (Err (), wait_queue_free q (w3, ?es))"
      using c(1) by (simp add: out_def wait_resources_unfold)
    then show ?thesis
      using represents_freed [OF w3(2,3,8)] free_entry [OF w3(3)] by (metis prod.collapse)
  next
    case True
    let ?x = "(?state AND NOT ADDR_MASK) OR anchor_addr q"
    let ?w4 = "pushed q ?x w3"
    have "try_push_wait_queue_entry q ?state (w1, map (others_do most) (a # as)) = Some (True, (?w4, ?es))"
      using push True w3(3,7) push_result [OF w3(3), of ?x] by (simp add: queue_simps Let_def)
    then have o4: "out = do { p \<leftarrow> entry q (?w4, ?es);
          (result, s) \<leftarrow> (if b then poll_result_sync t p (?w4, ?es) else await_entry t p (?w4, ?es));
          s \<leftarrow> wait_queue_drop (\<lambda>_. drop_entry) q s;
          Some (Ok result, s) }"
      using c(1) by (simp add: out_def wait_resources_unfold)
    have nav1: "\<not> available (unat most) opc r1"
      using available_same_word [OF w2(2) w3(2)] True w2(3) nav by simp
    have "represents ?w4 (joins q opc r1)"
      using represents_joined [OF w3(2,4,5), of ?x] True by simp
    moreover have "is_sync_entry ?w4 q = b"
      using w3(3,6) by (simp add: is_sync_entry_def pushed_def)
    moreover have "queued_up q (joins q opc r1)"
      by (simp add: queued_up_def joins_def)
    moreover have "\<not> queued_up q (spec_run (unat most) as (joins q opc r1))"
      using turn_comes_served [OF _ nav1] turn by (simp add: r1_def)
    ultimately obtain w' es' n where
      "(do { p \<leftarrow> entry q (?w4, ?es);
             (result, s) \<leftarrow> (if b then poll_result_sync t p (?w4, ?es) else await_entry t p (?w4, ?es));
             s \<leftarrow> wait_queue_drop (\<lambda>_. drop_entry) q s;
             Some (result, s) }) = Some (0, (w', es'))"
      and r': "represents w' (spec_run (unat most) (take n as) (joins q opc r1))"
        "\<not> queued_up q (spec_run (unat most) (take n as) (joins q opc r1))" "unallocated w' q"
      using line_wait_returns by blast
    then have "out = Some (Ok 0, (w', es'))"
      unfolding o4 by (auto simp: bind_eq_Some_conv)
    with nav1 r' show ?thesis
      by blast
  qed
qed

end

lemma represents_word:
  assumes "represents w r"
  shows "line r = [] \<and> unat (prim_state w) = in_use r \<and> in_use r \<le> 63 \<or> line r \<noteq> [] \<and> 128 \<le> unat (prim_state w)"
proof (cases "line r = []")
  case True
  have "prim_state w = data_of (prim_state w)"
    by (rule state_eqI) (use assms True queue_empty_iff [of w "[]"] in \<open>auto simp: represents_def well_formed_def small_views data_of_le\<close>)
  then show ?thesis
    using assms True unat_data_of_le [of "prim_state w"] by (simp add: represents_def)
next
  case False
  then have "unat (addr_of (prim_state w)) \<noteq> 0"
    using assms queue_empty_iff [of w "map fst (line r)"] by (simp add: represents_def well_formed_def unat_eq_zero)
  then show ?thesis
    using False by (simp add: unat_addr_of)
qed

section \<open>The interface of the blocking calls\<close>

text \<open>A blocking call looks at the state word at one moment: it takes what it asks for, or waits and, if its
  entry could not be pushed, starts again.\<close>

definition acquire_or_wait ::
  "usize \<Rightarrow> Opcode \<Rightarrow> (sys \<Rightarrow> (bool \<times> sys) option) \<Rightarrow> (usize \<Rightarrow> sys \<Rightarrow> ((u8, unit) result \<times> sys) option) \<Rightarrow> (u8 \<Rightarrow> bool)
     \<Rightarrow> sys \<Rightarrow> resource \<Rightarrow> (bool \<times> sys) option" where
  "acquire_or_wait most opc call waits accepts = (\<lambda>(w, es) r.
     if available (unat most) opc r then Some (True, (w\<lparr>prim_state := prim_state w + acquired_count opc\<rparr>, es))
     else do { (waited, s) \<leftarrow> waits (prim_state w) (w, es);
               case waited of Ok result \<Rightarrow> Some (accepts result, s) | Err _ \<Rightarrow> call s })"

definition looks ::
  "usize \<Rightarrow> Opcode \<Rightarrow> (usize \<Rightarrow> sys \<Rightarrow> ((u8, unit) result \<times> sys) option) \<Rightarrow> (u8 \<Rightarrow> bool) \<Rightarrow> (sys \<Rightarrow> (bool \<times> sys) option) \<Rightarrow> bool" where
  "looks most opc waits accepts call \<longleftrightarrow>
     (\<forall>s. \<exists>k. \<forall>r. represents (fst ((interfere ^^ k) s)) r \<longrightarrow>
        call s = acquire_or_wait most opc call waits accepts ((interfere ^^ k) s) r)"

lemma looks_once:
  assumes "\<And>s w es r. interfere s = (w, es) \<Longrightarrow> represents w r \<Longrightarrow>
    call s = acquire_or_wait most opc call waits accepts (w, es) r"
  shows "looks most opc waits accepts call"
  unfolding looks_def
proof (intro allI exI [of _ 1] impI)
  fix s r assume "represents (fst ((interfere ^^ 1) s)) r"
  then show "call s = acquire_or_wait most opc call waits accepts ((interfere ^^ 1) s) r"
    using assms [of s "fst (interfere s)" "snd (interfere s)" r] by simp
qed

locale blocking_call = sync_primitive most for most +
  fixes opc :: Opcode and q :: usize and call :: "sys \<Rightarrow> (bool \<times> sys) option"
    and is_sync :: bool and kind :: drop_fn and drop_entry :: "usize \<Rightarrow> sys \<Rightarrow> sys option" and prim :: usize and t :: task
    and accepts :: "u8 \<Rightarrow> bool"
  assumes opc_ok: "opcode_ok opc"
    and call_looks: "looks most opc (\<lambda>state. wait_resources is_sync kind drop_entry prim t q state opc id) accepts call"
    and accepts_0: "accepts 0"
begin

lemma take_now:
  assumes "represents w r" "available (unat most) opc r"
  shows "represents (w\<lparr>prim_state := prim_state w + acquired_count opc\<rparr>) (r\<lparr>in_use := in_use r + acquired opc\<rparr>)"
proof -
  have l: "line r = []" and cg: "can_grant (unat most) (in_use r) opc"
    using assms(2) by (simp_all add: available_def)
  have b: "unat (data_of (prim_state w)) + acquired opc \<le> 63"
    using granted_bound [of "in_use r" "unat most" "[opc]"] cg most_le opc_ok assms(1) unat_data_of_le [of "prim_state w"]
    by (simp add: represents_def transferred_def)
  note v = add_data_views [OF b [unfolded acquired_def]]
  have "well_formed (w\<lparr>prim_state := prim_state w + acquired_count opc\<rparr>) []"
    by (rule well_formed_prim) (use assms(1) l v(1) in \<open>simp_all add: represents_def\<close>)
  then show ?thesis
    using assms(1) l v b unat_add_lem [of "data_of (prim_state w)" "acquired_count opc"] by (simp add: represents_def acquired_def)
qed

lemma acquires:
  "represents w r \<Longrightarrow> unallocated w q \<Longrightarrow> turn_comes (unat most) q opc as r \<Longrightarrow>
   \<exists>w' es' r'. call (w, map (others_do most) as) = Some (True, (w', es')) \<and> spec_acquire (unat most) q opc as r r' \<and>
     represents w' r' \<and> unallocated w' q"
proof (induction "length as" arbitrary: w as r rule: less_induct)
  case less
  let ?waits = "\<lambda>state. wait_resources is_sync kind drop_entry prim t q state opc id"
  obtain k w1 es1 where i: "(interfere ^^ k) (w, map (others_do most) as) = (w1, es1)"
    and c: "\<And>r. represents w1 r \<Longrightarrow>
      call (w, map (others_do most) as) = acquire_or_wait most opc call ?waits accepts (w1, es1) r"
    using call_looks unfolding looks_def by (metis fst_conv surj_pair)
  obtain as1 r1 where s1: "es1 = map (others_do most) as1" "represents w1 r1" "unallocated w1 q"
    "turn_comes (unat most) q opc as1 r1" "length as1 \<le> length as"
    and lift: "\<And>x. spec_acquire (unat most) q opc as1 r1 x \<Longrightarrow> spec_acquire (unat most) q opc as r x"
    using others_act [OF i less.prems] by blast
  show ?case
  proof (cases "available (unat most) opc r1")
    case True
    let ?w = "w1\<lparr>prim_state := prim_state w1 + acquired_count opc\<rparr>"
    have "unallocated ?w q"
      using s1(3) by (simp add: unallocated_def)
    then show ?thesis
      using c [OF s1(2)] True take_now [OF s1(2) True] lift [OF spec_acquire.now [OF True]] by (auto simp: acquire_or_wait_def)
  next
    case False
    then obtain a as2 where as1: "as1 = a # as2"
      using s1(4) by (cases as1) auto
    let ?r2 = "spec_do (unat most) a r1"
    from wait_resources_refines [OF s1(2,3) opc_ok False s1(4) [unfolded as1] refl refl, of is_sync kind drop_entry prim t]
    consider (got) w' es' n where "?waits (prim_state w1) (w1, es1) = Some (Ok 0, (w', es'))" "\<not> available (unat most) opc ?r2"
        "represents w' (spec_run (unat most) (take n as2) (joins q opc ?r2))"
        "\<not> queued_up q (spec_run (unat most) (take n as2) (joins q opc ?r2))" "unallocated w' q"
      | (again) w' where "?waits (prim_state w1) (w1, es1) = Some (Err (), (w', map (others_do most) as2))" "represents w' ?r2" "unallocated w' q"
      unfolding s1(1) as1 by blast
    then show ?thesis
    proof cases
      case got
      have "spec_acquire (unat most) q opc as r (spec_run (unat most) (take n as2) (joins q opc ?r2))"
        using lift spec_acquire.later [OF spec_acquire.served [OF got(2,4)]] by (simp add: as1)
      then show ?thesis
        using c [OF s1(2)] False got accepts_0 by (auto simp: acquire_or_wait_def)
    next
      case again
      have "length as2 < length as" "turn_comes (unat most) q opc as2 ?r2"
        using s1(4,5) as1 by auto
      from less.hyps [OF this(1) again(2,3) this(2)]
      obtain w2 es2 r' where "call (w', map (others_do most) as2) = Some (True, (w2, es2))"
        "spec_acquire (unat most) q opc as2 ?r2 r'" "represents w2 r'" "unallocated w2 q"
        by blast
      moreover from this(2) have "spec_acquire (unat most) q opc as r r'"
        using lift spec_acquire.later by (simp add: as1)
      ultimately show ?thesis
        using c [OF s1(2)] False again(1) by (auto simp: acquire_or_wait_def)
    qed
  qed
qed

end

end
