(* ===== verification/Lock_Blocking.thy ===== *)
theory Lock_Blocking
  imports Lock_Primitive Blocking_Acquire
begin

text \<open>
  The blocking and asynchronous calls of \<open>src/lock.rs\<close> (\<open>lock_sync\<close>, \<open>lock_async\<close>, \<open>share_sync\<close>, \<open>share_async\<close>) are
  instances of \<open>blocking_call\<close>; what that means for a lock whose owners release it at arbitrary moments.
\<close>

section \<open>The four blocking calls\<close>

lemma lock_word_cases:
  assumes "represents w r"
  shows "prim_state w \<noteq> POISONED_STATE" "prim_state w = 0 \<longleftrightarrow> available 62 Exclusive r"
    "MAX_SHARED_OWNERS \<le> prim_state w \<longleftrightarrow> \<not> available 62 Shared r"
  using represents_word [OF assms]
  by (auto simp: lock_consts available_def can_grant_def word_unat_eq_iff word_le_nat_alt)

lemmas lock_call_simps = acquire_or_wait_def spin_lock spin_share settle_def lock_step_def share_step_def wait_resources_def
  lock_consts Let_def

lemma lock_calls_look:
  "looks MAX_SHARED_OWNERS Exclusive
     (\<lambda>state. wait_resources True Lock_drop lock_drop_wait_queue_entry prim t q state Exclusive id)
     (\<lambda>result. result = ACQUIRED) (lock_sync prim t q)"
  "looks MAX_SHARED_OWNERS Exclusive
     (\<lambda>state. wait_resources False Lock_drop lock_drop_wait_queue_entry prim t q state Exclusive id)
     (\<lambda>result. result = ACQUIRED) (lock_async prim t q)"
  "looks MAX_SHARED_OWNERS Shared
     (\<lambda>state. wait_resources True Lock_drop lock_drop_wait_queue_entry prim t q state Shared id)
     (\<lambda>result. result = ACQUIRED) (share_sync prim t q)"
  "looks MAX_SHARED_OWNERS Shared
     (\<lambda>state. wait_resources False Lock_drop lock_drop_wait_queue_entry prim t q state Shared id)
     (\<lambda>result. result = ACQUIRED) (share_async prim t q)"
proof (rule_tac [!] looks_once, goal_cases)
  case (1 s w es r)
  then show ?case
    using lock_word_cases [OF 1(2)] unfolding lock_sync_def
    by (subst lock_sync_with.simps) (simp add: lock_call_simps cong: result.case_cong)
next
  case (2 s w es r)
  then show ?case
    using lock_word_cases [OF 2(2)] unfolding lock_async_def
    by (subst lock_async_with.simps) (simp add: lock_call_simps cong: result.case_cong)
next
  case (3 s w es r)
  then show ?case
    using lock_word_cases [OF 3(2)] unfolding share_sync_def
    by (subst share_sync_with.simps) (simp add: lock_call_simps cong: result.case_cong)
next
  case (4 s w es r)
  then show ?case
    using lock_word_cases [OF 4(2)] unfolding share_async_def
    by (subst share_async_with.simps) (simp add: lock_call_simps cong: result.case_cong)
qed

interpretation lock_blocking: blocking_call MAX_SHARED_OWNERS Exclusive q "lock_sync prim t q"
  True Lock_drop lock_drop_wait_queue_entry prim t "\<lambda>result. result = ACQUIRED" for prim t q
  by unfold_locales (simp, rule lock_calls_look, simp add: ACQUIRED_def)

interpretation lock_awaiting: blocking_call MAX_SHARED_OWNERS Exclusive q "lock_async prim t q"
  False Lock_drop lock_drop_wait_queue_entry prim t "\<lambda>result. result = ACQUIRED" for prim t q
  by unfold_locales (simp, rule lock_calls_look, simp add: ACQUIRED_def)

interpretation share_blocking: blocking_call MAX_SHARED_OWNERS Shared q "share_sync prim t q"
  True Lock_drop lock_drop_wait_queue_entry prim t "\<lambda>result. result = ACQUIRED" for prim t q
  by unfold_locales (simp, rule lock_calls_look, simp add: ACQUIRED_def)

interpretation share_awaiting: blocking_call MAX_SHARED_OWNERS Shared q "share_async prim t q"
  False Lock_drop lock_drop_wait_queue_entry prim t "\<lambda>result. result = ACQUIRED" for prim t q
  by unfold_locales (simp, rule lock_calls_look, simp add: ACQUIRED_def)

section \<open>Acquiring while others release\<close>

text \<open>The other tasks call \<open>release_lock\<close> and \<open>release_share\<close>.\<close>

definition lock_others :: "Opcode option \<Rightarrow> world \<Rightarrow> world" where
  "lock_others a w =
     (case a of None \<Rightarrow> w
      | Some opc \<Rightarrow>
          (case (if opc = Exclusive then release_lock (w, []) else release_share (w, [])) of
             Some (_, (w', _)) \<Rightarrow> w' | None \<Rightarrow> w))"

lemma lock_others_release:
  assumes "set as \<subseteq> {None, Some Exclusive, Some Shared}"
  shows "map lock_others as = map (others_do MAX_SHARED_OWNERS) as"
proof (rule map_cong [OF refl], rule ext)
  fix a w assume "a \<in> set as"
  with assms show "lock_others a w = others_do MAX_SHARED_OWNERS a w"
    by (auto simp: lock_others_def others_do_def release_lock_is_loop release_share_is_loop split: option.split)
qed

text \<open>C10: the blocking and the asynchronous calls acquire the lock: on a lock in any state, with any tasks waiting for
  it, while the owners release it one after the other at arbitrary moments, \<open>lock_sync\<close>, \<open>lock_async\<close>,
  \<open>share_sync\<close> and \<open>share_async\<close> return \<open>true\<close> if the turn of the caller comes.  What they do is something the
  abstract lock with its line allows: they take the lock at one moment when it is available and nobody waits,
  or join the end of the line at one moment and are served after those before them.  Then the wait queue of
  the caller is gone.\<close>

theorem lock_calls_refine:
  assumes "represents w r" "unallocated w q" "set as \<subseteq> {None, Some Exclusive, Some Shared}"
    and "(opc, call) \<in> {(Exclusive, lock_sync prim t q), (Exclusive, lock_async prim t q),
      (Shared, share_sync prim t q), (Shared, share_async prim t q)}"
    and "turn_comes 62 q opc as r"
  shows "\<exists>w' es' r'. call (w, map lock_others as) = Some (True, (w', es')) \<and>
    spec_acquire 62 q opc as r r' \<and> represents w' r' \<and> unallocated w' q"
proof -
  have m: "unat MAX_SHARED_OWNERS = 62"
    by (simp add: lock_consts)
  from assms(4) consider "opc = Exclusive" "call = lock_sync prim t q" | "opc = Exclusive" "call = lock_async prim t q"
    | "opc = Shared" "call = share_sync prim t q" | "opc = Shared" "call = share_async prim t q"
    by blast
  then show ?thesis
    unfolding lock_others_release [OF assms(3)]
    using lock_blocking.acquires [OF assms(1,2), unfolded m] lock_awaiting.acquires [OF assms(1,2), unfolded m]
      share_blocking.acquires [OF assms(1,2), unfolded m] share_awaiting.acquires [OF assms(1,2), unfolded m] assms(5)
    by cases simp_all
qed

theorem lock_calls_refine_witness:
  "\<exists>w' es' r'. lock_sync 0 3 256 (one_waiter 63 Shared (Sync None), map lock_others [None, None, Some Exclusive, None, Some Shared]) =
     Some (True, (w', es')) \<and> represents w' r' \<and> spec_acquire 62 256 Exclusive [None, None, Some Exclusive, None, Some Shared]
       \<lparr>in_use = 63, line = [(128, Shared)]\<rparr> r'"
proof -
  let ?w = "one_waiter 63 Shared (Sync None)" and ?r = "\<lparr>in_use = 63, line = [(128, Shared)]\<rparr>"
    and ?as = "[None, None, Some Exclusive, None, Some Shared]"
  have "represents ?w ?r" "unallocated ?w 256" "turn_comes 62 256 Exclusive ?as ?r"
    by code_simp+
  then show ?thesis
    using lock_calls_refine [of ?w ?r 256 ?as Exclusive "lock_sync 0 3 256" 0 3] by auto
qed

end
