(* ===== verification/Lock_Api.thy ===== *)
theory Lock_Api
  imports Lock_Blocking
begin

text \<open>
  \<open>src/lock_api.rs\<close>: the traits \<open>RawMutex\<close>, \<open>RawMutexFair\<close>, \<open>RawRwLock\<close> and \<open>RawRwLockFair\<close> of the crate
  \<open>lock_api\<close> implemented by \<open>Lock\<close>, and the asynchronous functions on \<open>Mutex\<close> and \<open>RwLock\<close>.  The guards
  belong to \<open>lock_api\<close>: the functions that make them are the argument \<open>make_guard\<close>.
\<close>

definition raw_INIT :: world where
  "raw_INIT = lock_new"

definition raw_lock :: "usize \<Rightarrow> task \<Rightarrow> usize \<Rightarrow> sys \<Rightarrow> sys option" where
  "raw_lock prim t q s = do { (_, s) \<leftarrow> lock_sync prim t q s; Some s }"

definition raw_try_lock :: "sys \<Rightarrow> bool \<times> sys" where
  "raw_try_lock s = try_lock s"

definition raw_unlock :: "sys \<Rightarrow> sys option" where
  "raw_unlock s = do { (_, s) \<leftarrow> release_lock s; Some s }"

definition raw_unlock_fair :: "sys \<Rightarrow> sys option" where
  "raw_unlock_fair s = do { (_, s) \<leftarrow> release_lock s; Some s }"

definition raw_lock_shared :: "usize \<Rightarrow> task \<Rightarrow> usize \<Rightarrow> sys \<Rightarrow> sys option" where
  "raw_lock_shared prim t q s = do { (_, s) \<leftarrow> share_sync prim t q s; Some s }"

definition raw_try_lock_shared :: "sys \<Rightarrow> bool \<times> sys" where
  "raw_try_lock_shared s = try_share s"

definition raw_unlock_shared :: "sys \<Rightarrow> sys option" where
  "raw_unlock_shared s = do { (_, s) \<leftarrow> release_share s; Some s }"

definition raw_lock_exclusive :: "usize \<Rightarrow> task \<Rightarrow> usize \<Rightarrow> sys \<Rightarrow> sys option" where
  "raw_lock_exclusive prim t q s = do { (_, s) \<leftarrow> lock_sync prim t q s; Some s }"

definition raw_try_lock_exclusive :: "sys \<Rightarrow> bool \<times> sys" where
  "raw_try_lock_exclusive s = try_lock s"

definition raw_unlock_exclusive :: "sys \<Rightarrow> sys option" where
  "raw_unlock_exclusive s = do { (_, s) \<leftarrow> release_lock s; Some s }"

definition raw_unlock_shared_fair :: "sys \<Rightarrow> sys option" where
  "raw_unlock_shared_fair s = do { (_, s) \<leftarrow> release_share s; Some s }"

definition raw_unlock_exclusive_fair :: "sys \<Rightarrow> sys option" where
  "raw_unlock_exclusive_fair s = do { (_, s) \<leftarrow> release_lock s; Some s }"

definition mutex_lock_async ::
  "(sys \<Rightarrow> 'g) \<Rightarrow> usize \<Rightarrow> task \<Rightarrow> usize \<Rightarrow> sys \<Rightarrow> ('g \<times> sys) option" where
  "mutex_lock_async make_guard prim t q s =
     do { (_, s) \<leftarrow> lock_async prim t q s; Some (make_guard s, s) }"

definition rwlock_read_async ::
  "(sys \<Rightarrow> 'g) \<Rightarrow> usize \<Rightarrow> task \<Rightarrow> usize \<Rightarrow> sys \<Rightarrow> ('g \<times> sys) option" where
  "rwlock_read_async make_read_guard prim t q s =
     do { (_, s) \<leftarrow> share_async prim t q s; Some (make_read_guard s, s) }"

definition rwlock_write_async ::
  "(sys \<Rightarrow> 'g) \<Rightarrow> usize \<Rightarrow> task \<Rightarrow> usize \<Rightarrow> sys \<Rightarrow> ('g \<times> sys) option" where
  "rwlock_write_async make_write_guard prim t q s =
     do { (_, s) \<leftarrow> lock_async prim t q s; Some (make_write_guard s, s) }"

section \<open>Guards of a lock\<close>

text \<open>The lock is acquired when it is the turn of the caller, and the wait queue of the caller is gone.\<close>

definition acquired_in_turn :: "usize \<Rightarrow> Opcode \<Rightarrow> Opcode option list \<Rightarrow> resource \<Rightarrow> sys \<Rightarrow> bool" where
  "acquired_in_turn q opc as r s \<longleftrightarrow> (\<exists>r'. spec_acquire 62 q opc as r r' \<and> represents (fst s) r' \<and> unallocated (fst s) q)"

lemma acquires_in_turn:
  assumes "represents w r" "unallocated w q" "set as \<subseteq> {None, Some Exclusive, Some Shared}"
  shows "turn_comes 62 q Exclusive as r \<Longrightarrow> \<exists>s. lock_sync prim t q (w, map lock_others as) = Some (True, s) \<and> acquired_in_turn q Exclusive as r s"
    and "turn_comes 62 q Exclusive as r \<Longrightarrow> \<exists>s. lock_async prim t q (w, map lock_others as) = Some (True, s) \<and> acquired_in_turn q Exclusive as r s"
    and "turn_comes 62 q Shared as r \<Longrightarrow> \<exists>s. share_sync prim t q (w, map lock_others as) = Some (True, s) \<and> acquired_in_turn q Shared as r s"
    and "turn_comes 62 q Shared as r \<Longrightarrow> \<exists>s. share_async prim t q (w, map lock_others as) = Some (True, s) \<and> acquired_in_turn q Shared as r s"
proof -
  have m: "unat MAX_SHARED_OWNERS = 62"
    by (simp add: lock_consts)
  note a = lock_blocking.acquires [OF assms(1,2), unfolded m] lock_awaiting.acquires [OF assms(1,2), unfolded m]
    share_blocking.acquires [OF assms(1,2), unfolded m] share_awaiting.acquires [OF assms(1,2), unfolded m]
  show "turn_comes 62 q Exclusive as r \<Longrightarrow> \<exists>s. lock_sync prim t q (w, map lock_others as) = Some (True, s) \<and> acquired_in_turn q Exclusive as r s"
    "turn_comes 62 q Exclusive as r \<Longrightarrow> \<exists>s. lock_async prim t q (w, map lock_others as) = Some (True, s) \<and> acquired_in_turn q Exclusive as r s"
    "turn_comes 62 q Shared as r \<Longrightarrow> \<exists>s. share_sync prim t q (w, map lock_others as) = Some (True, s) \<and> acquired_in_turn q Shared as r s"
    "turn_comes 62 q Shared as r \<Longrightarrow> \<exists>s. share_async prim t q (w, map lock_others as) = Some (True, s) \<and> acquired_in_turn q Shared as r s"
    unfolding lock_others_release [OF assms(3)] acquired_in_turn_def using a by fastforce+
qed

lemma released_in_turn:
  assumes "represents w r"
  shows "\<exists>w'. release_lock (w, []) = Some (fst (spec_release 62 Exclusive r), (w', [])) \<and> represents w' (snd (spec_release 62 Exclusive r))"
    and "\<exists>w'. release_share (w, []) = Some (fst (spec_release 62 Shared r), (w', [])) \<and> represents w' (snd (spec_release 62 Shared r))"
proof -
  have m: "unat MAX_SHARED_OWNERS = 62"
    by (simp add: lock_consts)
  note r = lockp.release_refines [OF assms, unfolded m]
  show "\<exists>w'. release_lock (w, []) = Some (fst (spec_release 62 Exclusive r), (w', [])) \<and> represents w' (snd (spec_release 62 Exclusive r))"
    "\<exists>w'. release_share (w, []) = Some (fst (spec_release 62 Shared r), (w', [])) \<and> represents w' (snd (spec_release 62 Shared r))"
    using r [of Exclusive] r [of Shared] unfolding release_lock_is_loop release_share_is_loop by blast+
qed

text \<open>C15: as long as the lock is not poisoned, \<open>Lock\<close> keeps what the traits of \<open>lock_api\<close> promise: while the owners
  release the lock one after the other at arbitrary moments, if the turn of the caller comes, \<open>lock\<close>, \<open>lock_exclusive\<close> and
  \<open>lock_shared\<close> return, and \<open>lock_async\<close>, \<open>write_async\<close> and \<open>read_async\<close> return a guard, with the lock acquired in turn
  and in the mode that the guard stands for; every \<open>unlock\<close> function, fair or not, gives the lock back and serves the line.\<close>

theorem lock_api_contract:
  assumes "represents w r" "unallocated w q" "set as \<subseteq> {None, Some Exclusive, Some Shared}"
  defines "s \<equiv> (w, map lock_others as)"
  shows "(turn_comes 62 q Exclusive as r \<longrightarrow>
      (\<forall>call \<in> {raw_lock prim t q, raw_lock_exclusive prim t q}. \<exists>s'. call s = Some s' \<and> acquired_in_turn q Exclusive as r s') \<and>
      (\<forall>call \<in> {mutex_lock_async make_guard prim t q, rwlock_write_async make_guard prim t q}.
         \<exists>s'. call s = Some (make_guard s', s') \<and> acquired_in_turn q Exclusive as r s')) \<and>
    (turn_comes 62 q Shared as r \<longrightarrow>
      (\<exists>s'. raw_lock_shared prim t q s = Some s' \<and> acquired_in_turn q Shared as r s') \<and>
      (\<exists>s'. rwlock_read_async make_guard prim t q s = Some (make_guard s', s') \<and> acquired_in_turn q Shared as r s')) \<and>
    (\<forall>call \<in> {raw_unlock, raw_unlock_fair, raw_unlock_exclusive, raw_unlock_exclusive_fair}.
      \<exists>w'. call (w, []) = Some (w', []) \<and> represents w' (snd (spec_release 62 Exclusive r))) \<and>
    (\<forall>call \<in> {raw_unlock_shared, raw_unlock_shared_fair}.
      \<exists>w'. call (w, []) = Some (w', []) \<and> represents w' (snd (spec_release 62 Shared r)))"
proof (intro conjI impI)
  note a = acquires_in_turn [OF assms(1-3), of prim t, folded s_def] and u = released_in_turn [OF assms(1)]
  show "\<forall>call \<in> {raw_lock prim t q, raw_lock_exclusive prim t q}. \<exists>s'. call s = Some s' \<and> acquired_in_turn q Exclusive as r s'"
    "\<forall>call \<in> {mutex_lock_async make_guard prim t q, rwlock_write_async make_guard prim t q}.
         \<exists>s'. call s = Some (make_guard s', s') \<and> acquired_in_turn q Exclusive as r s'"
    if "turn_comes 62 q Exclusive as r"
    using a(1,2) [OF that]
    by (auto simp: raw_lock_def raw_lock_exclusive_def mutex_lock_async_def rwlock_write_async_def)
  show "\<exists>s'. raw_lock_shared prim t q s = Some s' \<and> acquired_in_turn q Shared as r s'"
    "\<exists>s'. rwlock_read_async make_guard prim t q s = Some (make_guard s', s') \<and> acquired_in_turn q Shared as r s'"
    if "turn_comes 62 q Shared as r"
    using a(3,4) [OF that] by (auto simp: raw_lock_shared_def rwlock_read_async_def)
  show "\<forall>call \<in> {raw_unlock, raw_unlock_fair, raw_unlock_exclusive, raw_unlock_exclusive_fair}.
      \<exists>w'. call (w, []) = Some (w', []) \<and> represents w' (snd (spec_release 62 Exclusive r))"
    using u(1) by (auto simp: raw_unlock_def raw_unlock_fair_def raw_unlock_exclusive_def raw_unlock_exclusive_fair_def)
  show "\<forall>call \<in> {raw_unlock_shared, raw_unlock_shared_fair}.
      \<exists>w'. call (w, []) = Some (w', []) \<and> represents w' (snd (spec_release 62 Shared r))"
    using u(2) by (auto simp: raw_unlock_shared_def raw_unlock_shared_fair_def)
qed

theorem lock_api_contract_witness:
  "\<exists>s'. mutex_lock_async (\<lambda>_. 7 :: nat) 0 3 256 (one_waiter 63 Shared (Sync None), map lock_others [None, None, Some Exclusive, None, Some Shared]) =
     Some (7, s') \<and>
     acquired_in_turn 256 Exclusive [None, None, Some Exclusive, None, Some Shared] \<lparr>in_use = 63, line = [(128, Shared)]\<rparr> s'"
proof -
  let ?w = "one_waiter 63 Shared (Sync None)" and ?r = "\<lparr>in_use = 63, line = [(128, Shared)]\<rparr>"
    and ?as = "[None, None, Some Exclusive, None, Some Shared]"
  have "represents ?w ?r" "unallocated ?w 256" "turn_comes 62 256 Exclusive ?as ?r"
    by code_simp+
  then show ?thesis
    using lock_api_contract [of ?w ?r 256 ?as 0 3 "\<lambda>_. 7 :: nat"] by simp
qed

section \<open>Guards of a poisoned lock\<close>

lemma poisoned_spin:
  assumes "prim_state w = POISONED_STATE"
  shows "try_lock_internal_spin (w, []) = ((POISONED, POISONED_STATE), (w, []))"
    and "try_share_internal_spin (w, []) = ((POISONED, POISONED_STATE), (w, []))"
  using assms by (simp_all add: spin_lock spin_share settle_def lock_step_def share_step_def lock_consts)

lemma poisoned_fails:
  assumes "prim_state w = POISONED_STATE"
  shows "lock_sync prim t q (w, []) = Some (False, (w, []))" "share_sync prim t q (w, []) = Some (False, (w, []))"
    "lock_async prim t q (w, []) = Some (False, (w, []))" "share_async prim t q (w, []) = Some (False, (w, []))"
  unfolding lock_sync_def share_sync_def lock_async_def share_async_def
  using poisoned_spin [OF assms]
  by (simp_all add: lock_sync_with.simps share_sync_with.simps lock_async_with.simps share_async_with.simps
      POISONED_def ACQUIRED_def)

text \<open>C39: the traits of \<open>lock_api\<close> ignore that acquiring a poisoned lock fails: \<open>lock\<close> and \<open>lock_shared\<close> of the raw lock
  return at once, and \<open>lock_async\<close>, \<open>read_async\<close> and \<open>write_async\<close> make a guard, although the lock is not acquired
  and its state does not change, so that any number of guards, exclusive ones too, can exist at once.\<close>

theorem poisoned_guards:
  assumes "prim_state w = POISONED_STATE"
  shows "raw_lock prim t q (w, []) = Some (w, []) \<and> raw_lock_shared prim t q (w, []) = Some (w, []) \<and>
    raw_lock_exclusive prim t q (w, []) = Some (w, []) \<and>
    mutex_lock_async make_guard prim t q (w, []) = Some (make_guard (w, []), (w, [])) \<and>
    rwlock_read_async make_read_guard prim t q (w, []) = Some (make_read_guard (w, []), (w, [])) \<and>
    rwlock_write_async make_write_guard prim t q (w, []) = Some (make_write_guard (w, []), (w, []))"
  using poisoned_fails [OF assms]
  by (simp add: raw_lock_def raw_lock_shared_def raw_lock_exclusive_def mutex_lock_async_def rwlock_read_async_def
      rwlock_write_async_def)

text \<open>A task that holds the lock poisons it; two other tasks get exclusive guards.\<close>

theorem poisoned_guards_witness:
  "\<exists>w. poison_lock (fresh_world 63, []) = Some (True, (w, [])) \<and>
     mutex_lock_async (\<lambda>_. 1 :: nat) 0 3 128 (w, []) = Some (1, (w, [])) \<and>
     mutex_lock_async (\<lambda>_. 2 :: nat) 0 4 256 (w, []) = Some (2, (w, []))"
proof -
  let ?w = "(fresh_world 63)\<lparr>prim_state := POISONED_STATE\<rparr>"
  have "poison_lock (fresh_world 63, []) = Some (True, (?w, []))"
    by (simp add: poison_lock_def atomics fresh_world_def DATA_MASK_eq)
  moreover have "prim_state ?w = POISONED_STATE"
    by simp
  ultimately show ?thesis
    using poisoned_guards by metis
qed

end
