(* ===== verification/Lock_System.thy ===== *)
theory Lock_System
  imports Lock_Primitive Accounting
begin

text \<open>
  All the tasks that use one lock, as a transition system: each step is one complete operation of the lock
  on the shared memory (\<open>try_lock\<close>, \<open>try_share\<close>, the releases, registering, polling and dropping pagers,
  poisoning, also when they are refused), together with what it means for the books.  \<open>lock_inv\<close> is an invariant of every run; from it
  follow mutual exclusion, the absence of lost wake-ups, and that the queries and the releases behave.

  Two things tasks must not do, because the code has nothing against them.  \<open>release_lock\<close>, \<open>release_share\<close> and
  \<open>poison_lock\<close> cannot tell an owner from another task, so a call of a task that owns nothing is a step only if it is
  refused.  Dropping an entry with the result \<open>POISONED\<close> that was never polled releases the lock in the mode the entry
  asked for, if the lock is held in that mode by then (\<open>poisoned_drop_releases_other\<close> of \<open>Lock_Primitive\<close>); such an
  entry is dropped here only while the lock is not held in that mode.
\<close>

section \<open>Registering a pager\<close>

lemma spin_alone:
  "try_lock_internal_spin (w, []) = (fst (settle lock_step w), (snd (settle lock_step w), []))"
  "try_share_internal_spin (w, []) = (fst (settle share_step w), (snd (settle share_step w), []))"
  by (simp_all add: spin_lock spin_share Let_def)

text \<open>What one attempt of a pager mode finds out.\<close>

definition lock_attempt :: "Mode \<Rightarrow> world \<Rightarrow> u8" where
  "lock_attempt mode w =
     (case mode of
        Mode_Exclusive \<Rightarrow> fst (fst (settle lock_step w))
      | Mode_Shared \<Rightarrow> fst (fst (settle share_step w))
      | _ \<Rightarrow> fst (fst (lock_wait_check mode (w, []))))"

lemma lock_attempt_range: "lock_attempt mode w \<in> {NOT_ACQUIRED, ACQUIRED, POISONED}"
  by (cases mode) (simp_all add: lock_attempt_def settle_def lock_step_def share_step_def lock_wait_check_def atomics Let_def)

lemma register_loop_alone:
  assumes "fresh_entry w q" "node_op w q = mode_opcode mode"
  shows "lock_attempt mode w \<noteq> NOT_ACQUIRED \<Longrightarrow>
      lock_register_loop q mode (w, []) =
        Some (resolve (lock_attempt mode w) q
          (if lock_attempt mode w = ACQUIRED
           then w\<lparr>prim_state := prim_state w + acquired_count (mode_opcode mode)\<rparr> else w), [])"
    and "lock_attempt mode w = NOT_ACQUIRED \<Longrightarrow>
      try_push_wait_queue_entry q (prim_state w) (w, []) = Some (True, s) \<Longrightarrow>
      lock_register_loop q mode (w, []) = Some s"
proof -
  have l: "live w q"
    using assms(1) by (simp add: fresh_entry_def)
  have e: "entry q (w\<lparr>prim_state := x\<rparr>, []) = Some (entry_addr q)" "entry q (w, []) = Some (entry_addr q)" for x
    using l by (simp_all add: queue_simps)
  have sr: "set_result (entry_addr q) r (w\<lparr>prim_state := x\<rparr>, []) = Some (resolve r q (w\<lparr>prim_state := x\<rparr>), [])"
    "set_result (entry_addr q) r (w, []) = Some (resolve r q w, [])" for r x
    using l by (simp_all add: set_result_live)
  show "lock_register_loop q mode (w, []) =
        Some (resolve (lock_attempt mode w) q
          (if lock_attempt mode w = ACQUIRED
           then w\<lparr>prim_state := prim_state w + acquired_count (mode_opcode mode)\<rparr> else w), [])"
    if "lock_attempt mode w \<noteq> NOT_ACQUIRED"
    using that
    by (cases mode)
       (auto simp: lock_register_loop.simps lock_attempt_def spin_alone settle_def lock_step_def share_step_def
          lock_wait_check_def atomics e sr lock_consts Let_def split: if_splits)
  show "lock_register_loop q mode (w, []) = Some s" if "lock_attempt mode w = NOT_ACQUIRED"
    "try_push_wait_queue_entry q (prim_state w) (w, []) = Some (True, s)"
    using that
    by (cases mode)
       (auto simp: lock_register_loop.simps lock_attempt_def spin_alone settle_def lock_step_def share_step_def
          lock_wait_check_def atomics e sr lock_consts Let_def split: if_splits)
qed

section \<open>The system\<close>

type_synonym lock_system = "world \<times> bool \<times> books"

inductive lock_system_step :: "lock_system \<Rightarrow> lock_system \<Rightarrow> bool" where
  allocate: "unallocated w q \<Longrightarrow> wait_queue_default q (w, []) = (w', []) \<Longrightarrow>
     lock_system_step (w, p, g) (w', p, g)"
| try_lock: "try_lock (w, []) = (b, (w', [])) \<Longrightarrow>
     lock_system_step (w, p, g) (w', p, if b then g\<lparr>owners := add_mset Exclusive (owners g)\<rparr> else g)"
| try_share: "try_share (w, []) = (b, (w', [])) \<Longrightarrow>
     lock_system_step (w, p, g) (w', p, if b then g\<lparr>owners := add_mset Shared (owners g)\<rparr> else g)"
| release_lock: "release_lock (w, []) = Some (b, (w', [])) \<Longrightarrow> (b \<longrightarrow> Exclusive \<in># owners g) \<Longrightarrow>
     lock_system_step (w, p, g)
       (w', p, if b then settled w' (g\<lparr>owners := owners g - {#Exclusive#}\<rparr>) else g)"
| release_share: "release_share (w, []) = Some (b, (w', [])) \<Longrightarrow> (b \<longrightarrow> Shared \<in># owners g) \<Longrightarrow>
     lock_system_step (w, p, g)
       (w', p, if b then settled w' (g\<lparr>owners := owners g - {#Shared#}\<rparr>) else g)"
| register: "blank w q \<or> idle w q \<Longrightarrow> lock_register_pager prim q mode is_sync (w, []) = Some (b, (w', [])) \<Longrightarrow>
     lock_system_step (w, p, g) (w', p, settled w' (g\<lparr>pending := pending g @ [q]\<rparr>))"
| poll: "live w q \<Longrightarrow> try_poll lock_to_result q (w, []) = Some (res, (w', [])) \<Longrightarrow>
     lock_system_step (w, p, g)
       (w', p, if q \<in> set (ready g)
               then g\<lparr>ready := remove1 q (ready g), owners := add_mset (node_op w q) (owners g)\<rparr> else g)"
| cancel: "q \<in> set (pending g) \<or> q \<in> set (ready g) \<Longrightarrow>
     wait_queue_drop (\<lambda>_. lock_drop_wait_queue_entry) q (w, []) = Some (w', []) \<Longrightarrow>
     lock_system_step (w, p, g)
       (w', p, settled w' (g\<lparr>pending := remove1 q (pending g), ready := remove1 q (ready g)\<rparr>))"
| discard: "has_result POISONED w q \<Longrightarrow>
     acquired (node_op w q) = 0 \<or> \<not> releasable (node_op w q) (held w g) \<Longrightarrow>
     wait_queue_drop (\<lambda>_. lock_drop_wait_queue_entry) q (w, []) = Some (w', []) \<Longrightarrow>
     lock_system_step (w, p, g) (w', p, settled w' g)"
| deallocate: "blank w q \<or> idle w q \<Longrightarrow>
     wait_queue_drop (\<lambda>_. lock_drop_wait_queue_entry) q (w, []) = Some (w', []) \<Longrightarrow>
     lock_system_step (w, p, g) (w', p, g)"
| poison: "poison_lock (w, []) = Some (b, (w', [])) \<Longrightarrow> (b \<longrightarrow> Exclusive \<in># owners g) \<Longrightarrow>
     lock_system_step (w, p, g)
       (w', p \<or> b, if b then settled w' (g\<lparr>owners := owners g - {#Exclusive#}\<rparr>) else g)"
| clear: "clear_poison (w, []) = (b, (w', [])) \<Longrightarrow> lock_system_step (w, p, g) (w', p \<and> \<not> b, g)"

definition new_lock_system :: lock_system where
  "new_lock_system = (lock_new, False, \<lparr>pending = [], ready = [], owners = {#}\<rparr>)"

definition lock_reachable :: "lock_system \<Rightarrow> bool" where
  "lock_reachable s \<longleftrightarrow> lock_system_step\<^sup>*\<^sup>* new_lock_system s"

section \<open>The invariant\<close>

text \<open>A poisoned lock has the books of a free one.\<close>

definition calm :: "bool \<Rightarrow> world \<Rightarrow> world" where
  "calm p w = (if p then w\<lparr>prim_state := 0\<rparr> else w)"

definition lock_op :: "Opcode \<Rightarrow> bool" where
  "lock_op opc \<longleftrightarrow> opc \<in> range mode_opcode"

definition exclusively :: "world \<Rightarrow> books \<Rightarrow> bool" where
  "exclusively w g \<longleftrightarrow> (held w g = 63 \<longleftrightarrow> Exclusive \<in># holders w g)"

definition lock_ops :: "world \<Rightarrow> books \<Rightarrow> bool" where
  "lock_ops w g \<longleftrightarrow> (\<forall>q \<in> set (pending g). lock_op (node_op w q)) \<and> (\<forall>opc \<in># holders w g. lock_op opc)"

fun lock_inv :: "lock_system \<Rightarrow> bool" where
  "lock_inv (w, p, g) \<longleftrightarrow> accounted 62 (calm p w) g \<and> exclusively w g \<and> lock_ops w g \<and>
     (p \<longrightarrow> prim_state w = POISONED_STATE)"

lemma lock_op_cases: "lock_op opc \<longleftrightarrow> opc \<in> {Exclusive, Shared, Wait 63, Wait 1}"
proof -
  have "range mode_opcode = {Exclusive, Shared, Wait (ucast DATA_MASK), Wait 1}"
    by (auto simp: image_def split: Mode.splits) (metis Mode.exhaust mode_opcode.simps)+
  then show ?thesis
    by (simp add: lock_op_def DATA_MASK_eq)
qed

text \<open>Granting hands the lock either to one exclusive owner or to at most 62 shared ones.\<close>

lemma grant_exclusive:
  "\<forall>opc \<in> set ops. lock_op opc \<Longrightarrow> (h = 63 \<longleftrightarrow> E) \<Longrightarrow> h \<le> 63 \<Longrightarrow>
   h + transferred (take (granted 62 h ops) ops) = 63 \<longleftrightarrow> E \<or> Exclusive \<in> set (take (granted 62 h ops) ops)"
proof (induction ops arbitrary: h E)
  case (Cons opc ops)
  show ?case
  proof (cases "can_grant 62 h opc")
    case True
    then have "(h + acquired opc = 63) = (E \<or> opc = Exclusive)" "h + acquired opc \<le> 63"
      using Cons.prems by (auto simp: lock_op_cases can_grant_def)
    from Cons.IH [OF _ this] Cons.prems(1) True show ?thesis
      by (auto simp flip: add.assoc)
  qed (use Cons.prems in simp)
qed simp

lemma calm_simps [simp]:
  "live (calm p w) q = live w q" "node (calm p w) q = node w q" "node_op (calm p w) q = node_op w q"
  "holders (calm p w) g = holders w g" "held (calm p w) g = held w g" "calm False w = w"
  "granted_ops limit (calm p w) g = granted_ops limit w g"
proof -
  show n: "live (calm p w) q = live w q" "node (calm p w) q = node w q" "calm False w = w" for q
    by (simp_all add: calm_def)
  then show o: "node_op (calm p w) q = node_op w q" for q
    by (simp add: node_op_def)
  then have eq: "node_op (calm p w) = node_op w"
    by blast
  then show h: "holders (calm p w) g = holders w g"
    by (simp add: holders_def)
  then show h2: "held (calm p w) g = held w g"
    by (simp add: held_def)
  show "granted_ops limit (calm p w) g = granted_ops limit w g"
    by (simp add: granted_ops_def h2 eq)
qed

lemma lock_inv_served:
  assumes sv: "books_served 62 w g w'" and ex: "exclusively w g" and ops: "lock_ops w g" and le: "held w g \<le> 63"
  shows "lock_inv (w', False, settled w' g)"
proof -
  let ?ops = "map (node_op w) (pending g)"
  have ho: "holders w' (settled w' g) = holders w g + mset (granted_ops 62 w g)"
    and op: "\<And>q. q \<in> set (pending g) \<Longrightarrow> node_op w' q = node_op w q"
    and acc: "accounted 62 w' (settled w' g)"
    using sv by (auto simp: books_served_def)
  have he: "held w' (settled w' g) = held w g + transferred (granted_ops 62 w g)"
    unfolding held_def ho by (simp add: transferred_def sum_mset_sum_list flip: mset_map)
  have lo: "lock_op opc" if "opc \<in> set ?ops" for opc
    using that ops by (auto simp: lock_ops_def)
  have "exclusively w' (settled w' g)"
    using grant_exclusive [of ?ops "held w g" "Exclusive \<in># holders w g"] lo ex le
    unfolding exclusively_def he ho by (simp add: granted_ops_def Let_def)
  moreover have "lock_ops w' (settled w' g)"
    unfolding lock_ops_def ho using ops lo op
    by (auto simp: lock_ops_def granted_ops_def Let_def simp del: set_map dest: in_set_takeD)
  ultimately show ?thesis
    using acc by simp
qed

lemma drop_holder:
  assumes ho: "holders w g = add_mset opc (holders w g1)" and pe: "set (pending g1) \<subseteq> set (pending g)"
    and le: "held w g \<le> 63" and ex: "exclusively w g" and ops: "lock_ops w g"
  shows "exclusively w g1" "lock_ops w g1" "releasable opc (held w g)" "held w g1 \<le> 63"
proof -
  have h: "held w g = acquired opc + held w g1"
    by (simp add: held_def ho)
  have lo: "lock_op opc"
    using ops ho by (simp add: lock_ops_def)
  show "lock_ops w g1"
    using ops pe by (auto simp: lock_ops_def ho)
  have e: "Exclusive \<in># holders w g1 \<Longrightarrow> 63 \<le> held w g1"
    using holder_held [of Exclusive w g1] by simp
  show "exclusively w g1" "releasable opc (held w g)" "held w g1 \<le> 63"
    using lo h le ex e unfolding exclusively_def ho lock_op_cases by auto
qed

lemma lock_inv_same:
  assumes "lock_inv (w, p, g)" "accounted 62 (calm p w') g'" "holders w' g' = holders w g" "pending g' = pending g"
    and "\<And>q. q \<in> set (pending g) \<Longrightarrow> node_op w' q = node_op w q" "prim_state w' = prim_state w"
  shows "lock_inv (w', p, g')"
  using assms by (simp add: exclusively_def lock_ops_def held_def)

lemma lock_inv_frame:
  assumes inv: "lock_inv (w, p, g)" and un: "unchanged A w w'"
    and A: "A \<inter> set (pending g) = {}" "A \<inter> set (ready g) = {}" and ps: "prim_state w' = prim_state w"
  shows "lock_inv (w', p, g)"
proof -
  have acc: "accounted 62 (calm p w) g"
    using inv by simp
  note f = accounted_facts [OF acc]
  have un': "unchanged A (calm p w) (calm p w')"
    using un by (simp add: calm_def)
  have op: "node_op w' q = node_op w q" if "q \<in> set (pending g) \<or> q \<in> set (ready g)" for q
    using that f(5,7) A by (intro node_op_unchanged [OF un]) (auto simp: waiting_def)
  have ho: "holders w' g = holders w g"
    using holders_ready(1) [of g w' w] op by blast
  have "accounted 62 (calm p w') g"
    by (rule accounted_frame [OF acc un' A]) (use ps in \<open>simp add: calm_def\<close>)
  from lock_inv_same [OF inv this ho] op ps show ?thesis
    by blast
qed

text \<open>One operation at a time.\<close>

lemma lock_inv_facts:
  assumes "lock_inv (w, p, g)"
  shows "p \<Longrightarrow> pending g = []" "p \<Longrightarrow> held w g = 0" "held w g \<le> 63" "accounted 62 (calm p w) g"
    "exclusively w g" "lock_ops w g" "p \<Longrightarrow> prim_state w = POISONED_STATE"
    "\<not> p \<Longrightarrow> prim_state w = 0 \<longleftrightarrow> pending g = [] \<and> held w g = 0"
    "\<not> p \<Longrightarrow> prim_state w \<noteq> POISONED_STATE"
proof -
  show acc: "accounted 62 (calm p w) g" and "exclusively w g" "lock_ops w g" "p \<Longrightarrow> prim_state w = POISONED_STATE"
    using assms by simp_all
  note f = accounted_facts [OF acc]
  show "held w g \<le> 63"
    using f(9) by simp
  have c: "p \<Longrightarrow> prim_state (calm p w) = 0"
    by (simp add: calm_def)
  show "p \<Longrightarrow> pending g = []" "p \<Longrightarrow> held w g = 0"
    using queue_empty_iff [OF f(10)] f(12) c by (simp_all add: small_views)
  show "prim_state w = 0 \<longleftrightarrow> pending g = [] \<and> held w g = 0" if "\<not> p"
  proof -
    have "addr_of (prim_state w) = 0 \<longleftrightarrow> pending g = []" "\<not> locked (prim_state w)"
      "data_of (prim_state w) = 0 \<longleftrightarrow> held w g = 0"
      using queue_empty_iff [OF f(10)] f(11,12) that by (auto simp: unat_eq_0)
    moreover have "prim_state w = 0 \<longleftrightarrow> addr_of (prim_state w) = 0 \<and> \<not> locked (prim_state w) \<and> data_of (prim_state w) = 0"
      using state_eqI [of "prim_state w" 0] by (auto simp: small_views)
    ultimately show ?thesis
      by blast
  qed
  show "prim_state w \<noteq> POISONED_STATE" if "\<not> p"
    using f(11) that poisoned_views(3) by auto
qed

lemma lock_inv_try_lock:
  assumes inv: "lock_inv (w, p, g)" and op: "try_lock (w, []) = (b, (w', []))"
  shows "lock_inv (w', p, if b then g\<lparr>owners := add_mset Exclusive (owners g)\<rparr> else g)"
proof -
  note f = lock_inv_facts [OF inv]
  have r: "(b, w') = lock_spec w"
    using op by (auto simp: lock_spec_def try_lock_def atomics try_lock_internal.simps lock_consts split: if_splits)
  show ?thesis
  proof (cases "prim_state w = 0")
    case False
    with r inv show ?thesis
      by (simp add: lock_spec_def)
  next
    case True
    have np: "\<not> p"
      using f(7) True by (auto simp: lock_consts)
    then have b: "b" "w' = w\<lparr>prim_state := prim_state w + acquired_count Exclusive\<rparr>"
      and g: "pending g = []" "held w g = 0" "accounted 62 w g"
      using r True f(4,8) by (auto simp: lock_spec_def)
    have "accounted 62 w' (g\<lparr>owners := add_mset Exclusive (owners g)\<rparr>)"
      unfolding b(2) by (rule accounted_acquire [OF g(3,1)]) (simp add: g(2))
    moreover have "held w' (g\<lparr>owners := add_mset Exclusive (owners g)\<rparr>) = 63"
      using holders_ready(2) [of g w' w] g(2) by (simp add: held_owners(1) b node_op_def)
    ultimately show ?thesis
      using f(6) g(1) b np holders_ready(1) [of g w' w]
      by (simp add: exclusively_def lock_ops_def lock_op_cases node_op_def) (simp add: holders_def node_op_def)
  qed
qed

lemma lock_inv_try_share:
  assumes inv: "lock_inv (w, p, g)" and op: "try_share (w, []) = (b, (w', []))"
  shows "lock_inv (w', p, if b then g\<lparr>owners := add_mset Shared (owners g)\<rparr> else g)"
proof -
  note f = lock_inv_facts [OF inv]
  have r: "(b, w') = share_spec w"
    using op by (auto simp: share_spec_def try_share_def atomics try_share_internal.simps lock_consts word_le_nat_alt
        split: if_splits)
  show ?thesis
  proof (cases "unat (prim_state w) < 62")
    case False
    with r inv show ?thesis
      by (simp add: share_spec_def)
  next
    case True
    have np: "\<not> p"
      using f(7) True by (auto simp: lock_consts)
    have "prim_state w \<le> DATA_MASK"
      using True by (simp add: DATA_MASK_eq word_le_nat_alt)
    note v = small_views [OF this]
    have acc: "accounted 62 w g"
      using f(4) np by simp
    have b: "b" "w' = w\<lparr>prim_state := prim_state w + acquired_count Shared\<rparr>" and g: "pending g = []" "held w g < 62"
      using r True v queue_empty_iff [OF accounted_facts(10) [OF acc]] accounted_facts(12) [OF acc]
      by (auto simp: share_spec_def)
    have "accounted 62 w' (g\<lparr>owners := add_mset Shared (owners g)\<rparr>)"
      unfolding b(2) by (rule accounted_acquire [OF acc g(1)]) (use g(2) in simp)
    moreover have "held w' (g\<lparr>owners := add_mset Shared (owners g)\<rparr>) = held w g + 1"
      using holders_ready(2) [of g w' w] by (simp add: held_owners(1) b node_op_def)
    ultimately show ?thesis
      using f(5,6) g b np holders_ready(1) [of g w' w]
      by (simp add: exclusively_def lock_ops_def lock_op_cases node_op_def) (simp add: holders_def node_op_def)
  qed
qed

text \<open>A release or a poisoning that fails changes nothing.\<close>

lemma release_refused:
  assumes "release_loop most (prim_state w) opc (w, []) = Some (False, (w', es))"
  shows "w' = w"
  using assms by (subst (asm) release_loop_unfold) (auto simp: atomics split: if_splits bind_splits)

lemma poison_refused:
  assumes inv: "lock_inv (w, p, g)" and op: "poison_lock (w, []) = Some (False, (w', []))"
  shows "w' = w"
proof (cases p)
  case True
  then show ?thesis
    using op lock_inv_facts(7) [OF inv]
    by (auto simp: poison_lock_def atomics poison_lock_internal.simps split: if_splits)
next
  case False
  then have "accounted 62 w g"
    using lock_inv_facts(4) [OF inv] by simp
  note a = accounted_facts [OF this]
  have "well_formed w (pending g)"
    using a(1) by (simp add: represents_def o_def)
  with poison_alone [OF this a(11)] op show ?thesis
    by (cases "data_of (prim_state w) = DATA_MASK") auto
qed

lemma lock_inv_release:
  assumes inv: "lock_inv (w, p, g)" and own: "opc \<in># owners g" "acquired opc \<noteq> 0"
    and op: "release_loop MAX_SHARED_OWNERS (prim_state w) opc (w, []) = Some (b, (w', []))"
  shows "b \<and> \<not> p \<and> lock_inv (w', p, settled w' (g\<lparr>owners := owners g - {#opc#}\<rparr>))"
proof -
  let ?g = "g\<lparr>owners := owners g - {#opc#}\<rparr>"
  note f = lock_inv_facts [OF inv]
  have ho: "holders w g = add_mset opc (holders w ?g)"
    using own by (simp add: holders_def)
  have np: "\<not> p"
    using f(2) holder_held [of opc w g] own ho by auto
  note d = drop_holder [OF ho _ f(3,5,6)]
  have "unat MAX_SHARED_OWNERS = 62"
    by (simp add: lock_consts)
  then obtain w1 where "release_loop MAX_SHARED_OWNERS (prim_state w) opc (w, []) = Some (True, (w1, []))"
    "books_served 62 w ?g w1"
    using accounted_release [of MAX_SHARED_OWNERS w g opc] f(4) np own(1) d(3) by auto
  with op have "b" "books_served 62 w ?g w'"
    by auto
  with lock_inv_served [OF this(2)] d np show ?thesis
    by simp
qed

lemma lock_inv_poll:
  assumes inv: "lock_inv (w, p, g)" and l: "live w q"
    and op: "try_poll lock_to_result q (w, []) = Some (res, (w', []))"
  shows "lock_inv (w', p, if q \<in> set (ready g)
      then g\<lparr>ready := remove1 q (ready g), owners := add_mset (node_op w q) (owners g)\<rparr> else g)"
    and "q \<in> set (ready g) \<Longrightarrow> res = Ok True"
proof -
  note f = lock_inv_facts [OF inv]
  note a = accounted_facts [OF f(4)]
  note e = try_poll_effect(1) [OF l op]
  have rd: "w' = consume q w \<and> res = Ok True" if "q \<in> set (ready g)"
  proof -
    have "has_result 0 w q"
      using a(4) [OF that] by (simp add: has_result_def)
    then show ?thesis
      using try_poll_effect(2) [OF l op] by (simp add: lock_to_result_def ACQUIRED_def)
  qed
  then show "q \<in> set (ready g) \<Longrightarrow> res = Ok True"
    by blast
  show "lock_inv (w', p, if q \<in> set (ready g)
      then g\<lparr>ready := remove1 q (ready g), owners := add_mset (node_op w q) (owners g)\<rparr> else g)"
  proof (cases "q \<in> set (ready g)")
    case True
    let ?g = "g\<lparr>ready := remove1 q (ready g), owners := add_mset (node_op w q) (owners g)\<rparr>"
    have cw: "w' = consume q w" "calm p (consume q w) = consume q (calm p w)"
      using rd [OF True] by (simp_all add: calm_def consume_def upd_prim)
    have op: "node_op w' x = node_op w x" if "live w x" for x
      using node_op_consume [OF l that] cw by simp
    have ho: "holders w' ?g = holders w g"
      using holders_consume [OF True] a(5) cw by simp
    have "accounted 62 (calm p w') ?g"
      using accounted_consume [OF f(4) True] cw by simp
    from lock_inv_same [OF inv this ho] True op a(7) show ?thesis
      by (simp add: cw) (simp add: consume_def waiting_def)
  next
    case False
    show ?thesis
    proof (cases "w' = w")
      case True
      with False inv show ?thesis
        by simp
    next
      case ne: False
      then have cw: "w' = consume q w" and "entry_state (node w q) AND RESULT_FINALIZED = RESULT_FINALIZED"
        using e by auto
      then have "q \<notin> set (pending g)"
        using a(7) [of q] not_finalized [of "calm p w" q] by auto
      with False have "lock_inv (w', p, g)"
        unfolding cw by (intro lock_inv_frame [OF inv unchanged_consume [OF l]]) (auto simp: consume_def)
      with False show ?thesis
        by simp
    qed
  qed
qed

text \<open>No drop of a registered pager returns while the lock is poisoned.\<close>

lemma drop_unpoisoned:
  assumes "lock_inv (w, p, g)" "live w q" "pollable (node w q)"
    and "wait_queue_drop (\<lambda>_. lock_drop_wait_queue_entry) q (w, []) = Some s"
  shows "\<not> p"
  using assms(2-4) lock_drop_poisoned [OF lock_inv_facts(7) [OF assms(1)]]
  by (auto simp: wait_queue_drop_def prepare_drop_def queue_simps)

lemma lock_drop_is_removal:
  "lock_drop_wait_queue_entry = force_remove_wait_queue_entry MAX_SHARED_OWNERS" "unat MAX_SHARED_OWNERS = 62"
  by (intro ext) (simp_all add: lock_drop_wait_queue_entry_def lock_consts)

lemma lock_inv_cancel:
  assumes inv: "lock_inv (w, p, g)" and q: "q \<in> set (pending g) \<or> q \<in> set (ready g)"
    and op: "wait_queue_drop (\<lambda>_. lock_drop_wait_queue_entry) q (w, []) = Some (w', [])"
  shows "lock_inv (w', p, settled w' (g\<lparr>pending := remove1 q (pending g), ready := remove1 q (ready g)\<rparr>))"
proof -
  note f = lock_inv_facts [OF inv] and cb = lock_drop_is_removal(1) and m = lock_drop_is_removal(2)
  note a = accounted_facts [OF f(4)]
  have "live w q" "pollable (node w q)"
    using q a(4,7) by (auto simp: has_result_def waiting_def)
  then have np: "\<not> p"
    using drop_unpoisoned [OF inv _ _ op] by blast
  show ?thesis
  proof (cases "q \<in> set (pending g)")
    case True
    let ?g = "g\<lparr>pending := remove1 q (pending g)\<rparr>"
    have eq: "g\<lparr>pending := remove1 q (pending g), ready := remove1 q (ready g)\<rparr> = ?g"
      using True a(8) by (cases g) (simp add: remove1_idem disjoint_iff)
    have ho: "holders w ?g = holders w g"
      by (simp add: holders_def)
    have "exclusively w ?g" "lock_ops w ?g" "held w ?g \<le> 63"
      using f(3,5,6) by (auto simp: exclusively_def lock_ops_def held_def ho dest: notin_set_remove1)
    moreover obtain w1 where "wait_queue_drop (\<lambda>_. lock_drop_wait_queue_entry) q (w, []) = Some (w1, [])"
      "books_served 62 w ?g w1"
      using accounted_cancel_waiting [of MAX_SHARED_OWNERS w g q] f(4) np True m unfolding cb by auto
    ultimately show ?thesis
      using lock_inv_served [of w ?g w1] op np eq by simp
  next
    case False
    then have r: "q \<in> set (ready g)"
      using q by simp
    let ?g = "g\<lparr>ready := remove1 q (ready g)\<rparr>"
    have eq: "g\<lparr>pending := remove1 q (pending g), ready := remove1 q (ready g)\<rparr> = ?g"
      using False by (cases g) (auto simp: remove1_idem)
    note d = drop_holder [OF held_ready(2) [OF r] _ f(3,5,6)]
    obtain w1 where "wait_queue_drop (\<lambda>_. lock_drop_wait_queue_entry) q (w, []) = Some (w1, [])"
      "books_served 62 w ?g w1"
      using accounted_cancel_ready [of MAX_SHARED_OWNERS w g q] f(4) np r m d(3) unfolding cb by auto
    then show ?thesis
      using lock_inv_served [of w ?g w1] d op np eq by simp
  qed
qed

lemma lock_inv_discard:
  assumes inv: "lock_inv (w, p, g)" and q: "has_result POISONED w q"
    and rel: "acquired (node_op w q) = 0 \<or> \<not> releasable (node_op w q) (held w g)"
    and op: "wait_queue_drop (\<lambda>_. lock_drop_wait_queue_entry) q (w, []) = Some (w', [])"
  shows "lock_inv (w', p, settled w' g)"
proof -
  note f = lock_inv_facts [OF inv]
  have np: "\<not> p"
    using drop_unpoisoned [OF inv _ _ op] q by (simp add: has_result_def)
  have "books_served 62 w g w'"
    using accounted_discard [of MAX_SHARED_OWNERS w g POISONED q] f(4) np q rel op
    unfolding lock_drop_is_removal by (auto simp: POISONED_def)
  from lock_inv_served [OF this f(5,6,3)] np show ?thesis
    by simp
qed

lemma fresh_not_ready:
  assumes inv: "lock_inv (w, p, g)" and q: "blank w q \<or> idle w q"
  shows "q \<notin> set (pending g)" "q \<notin> set (ready g)"
  using accounted_facts(4,7) [OF lock_inv_facts(4) [OF inv]] q blank_not_live [of w q]
  by (auto simp: idle_def has_result_def waiting_def)

lemma resolve_calm: "calm p (resolve r q w) = resolve r q (calm p w)"
  by (cases w) (simp add: calm_def resolve_def upd_def node_def)

text \<open>What the state word says about the books when an attempt succeeds.\<close>

lemma attempt_fits:
  assumes inv: "lock_inv (w, p, g)" and at: "lock_attempt mode w = ACQUIRED"
  shows "p \<Longrightarrow> acquired (mode_opcode mode) = 0 \<and> acquired_count (mode_opcode mode) = 0"
    and "acquired (mode_opcode mode) = 0 \<or>
      pending g = [] \<and> held w g + acquired (mode_opcode mode) \<le> (if mode = Mode_Exclusive then 63 else 62) \<and>
      (mode = Mode_Exclusive \<longrightarrow> held w g = 0)"
proof -
  note f = lock_inv_facts [OF inv]
  note a = accounted_facts [OF f(4)]
  show pz: "acquired (mode_opcode mode) = 0 \<and> acquired_count (mode_opcode mode) = 0" if "p"
    using at f(7) [OF that]
    by (cases mode; simp add: lock_attempt_def settle_def lock_step_def share_step_def lock_consts)
  show "acquired (mode_opcode mode) = 0 \<or>
      pending g = [] \<and> held w g + acquired (mode_opcode mode) \<le> (if mode = Mode_Exclusive then 63 else 62) \<and>
      (mode = Mode_Exclusive \<longrightarrow> held w g = 0)"
  proof (cases mode)
    case Mode_Exclusive
    with at have "prim_state w = 0"
      by (auto simp: lock_attempt_def settle_def lock_step_def lock_consts split: if_splits)
    then show ?thesis
      using Mode_Exclusive f(8) pz by auto
  next
    case Mode_Shared
    with at have lt: "unat (prim_state w) < 62" and np: "\<not> p"
      using pz by (auto simp: lock_attempt_def settle_def share_step_def lock_consts word_le_nat_alt split: if_splits)
    then have "prim_state w \<le> DATA_MASK"
      by (simp add: DATA_MASK_eq word_le_nat_alt)
    note v = small_views [OF this]
    show ?thesis
      using v lt queue_empty_iff [OF a(10)] a(12) np Mode_Shared by simp
  qed simp_all
qed

lemma lock_inv_resolved:
  assumes inv: "lock_inv (w, p, g)" and fr: "fresh_entry w q" and op: "node_op w q = mode_opcode mode"
    and at: "lock_attempt mode w = ACQUIRED"
  shows "lock_inv (resolve 0 q (w\<lparr>prim_state := prim_state w + acquired_count (mode_opcode mode)\<rparr>), p,
    g\<lparr>ready := ready g @ [q]\<rparr>)" (is "lock_inv (?w, p, ?g)")
proof -
  note f = lock_inv_facts [OF inv]
  note a = accounted_facts [OF f(4)] and fits = attempt_fits [OF inv at]
  have l: "live w q" and frc: "fresh_entry (calm p w) q"
    using fr by (simp_all add: fresh_entry_def)
  let ?w1 = "(calm p w)\<lparr>prim_state := prim_state (calm p w) + acquired_count (node_op (calm p w) q)\<rparr>"
  have c: "node_op (calm p w) q = mode_opcode mode"
    using op by simp
  have "accounted 62 (resolve 0 q ?w1) ?g"
    by (rule accounted_resolve [OF f(4) frc]) (use fits(2) op in \<open>auto split: if_splits\<close>)
  moreover have "?w1 = calm p (w\<lparr>prim_state := prim_state w + acquired_count (mode_opcode mode)\<rparr>)"
    unfolding c by (cases p) (use fits(1) in \<open>simp_all add: calm_def\<close>)
  ultimately have acc: "accounted 62 (calm p ?w) ?g"
    unfolding resolve_calm by (simp only:)
  have nop: "node_op ?w x = node_op w x" if "live w x" for x
    using that l by (cases "x = q") (simp_all add: node_op_def)
  have ho: "holders ?w ?g = add_mset (mode_opcode mode) (holders w g)"
    using holders_ready(1) [of g ?w w] nop a(5) nop [OF l] op by (simp add: holders_add_ready)
  have "exclusively ?w ?g"
    using f(5) fits(2) holder_held [of Exclusive w g] unfolding exclusively_def held_def ho
    by (cases mode) (auto simp: held_def)
  moreover have "lock_ops ?w ?g"
    using f(6) nop a(7) by (auto simp: lock_ops_def ho lock_op_def waiting_def)
  moreover have "p \<longrightarrow> prim_state ?w = POISONED_STATE"
    using f(7) fits(1) by simp
  ultimately show ?thesis
    using acc by simp
qed

lemma lock_inv_pushed:
  assumes inv: "lock_inv (w, p, g)" and fr: "fresh_entry w q" and op: "node_op w q = mode_opcode mode"
    and at: "lock_attempt mode w = NOT_ACQUIRED"
  shows "\<exists>w'. try_push_wait_queue_entry q (prim_state w) (w, []) = Some (True, (w', [])) \<and> waiting w' q \<and>
    lock_inv (w', p, g\<lparr>pending := pending g @ [q]\<rparr>) \<and> (\<forall>x \<in> set (pending g). waiting w' x)"
proof -
  let ?g = "g\<lparr>pending := pending g @ [q]\<rparr>"
  note f = lock_inv_facts [OF inv]
  have p: "\<not> p"
    using at f(7) by (cases mode) (auto simp: lock_attempt_def settle_def lock_step_def share_step_def lock_wait_check_def atomics lock_consts Let_def)
  then have acc: "accounted 62 w g"
    using f(4) by simp
  note a = accounted_facts [OF acc]
  have busy: "\<not> can_grant 62 (held w g) (node_op w q)" if mt: "pending g = []"
  proof -
    have "addr_of (prim_state w) = 0" "\<not> locked (prim_state w)"
      using queue_empty_iff [OF a(10)] mt a(11) by auto
    then have "data_of (prim_state w) = prim_state w"
      by - (rule state_eqI, simp_all add: small_views [OF data_of_le])
    then have "unat (prim_state w) = held w g"
      using a(12) by simp
    then show ?thesis
      using at f(8) [OF p] mt \<open>data_of (prim_state w) = prim_state w\<close> unfolding op
      by (cases mode) (auto simp: lock_attempt_def settle_def lock_step_def share_step_def lock_wait_check_def atomics
          lock_consts Let_def word_le_nat_alt word_less_nat_alt can_grant_def data_of_def split: if_splits)
  qed
  obtain w' where w': "try_push_wait_queue_entry q (prim_state w) (w, []) = Some (True, (w', []))" "accounted 62 w' ?g"
    "waiting w' q" "node_op w' q = node_op w q" "unchanged {q} w w'"
    using accounted_push [OF acc fr busy] by blast
  have nop: "node_op w' x = node_op w x" if "x \<in> set (pending g) \<or> x \<in> set (ready g)" for x
    using that a(5,7) fresh_uninvolved [OF acc fr] by (intro node_op_unchanged [OF w'(5)]) (auto simp: waiting_def)
  have ho: "holders w' ?g = holders w g"
    using holders_ready(1) [of g w' w] nop by (simp add: holders_def)
  have "lock_inv (w', p, ?g)"
    using f(5,6) w'(2,4) nop p op by (auto simp: exclusively_def lock_ops_def held_def ho lock_op_def)
  with w' accounted_facts(7) [OF w'(2)] show ?thesis
    by auto
qed

text \<open>An attempt that ends at once gives the entry its result; the books take it in if the lock was acquired.\<close>

lemma lock_register_settles:
  assumes inv: "lock_inv (w, p, g)" and fr: "fresh_entry w q" and no: "node_op w q = mode_opcode mode"
    and at: "lock_attempt mode w \<noteq> NOT_ACQUIRED"
  shows "\<exists>w'. lock_register_loop q mode (w, []) = Some (w', []) \<and> lock_inv (w', p, settled w' (g\<lparr>pending := pending g @ [q]\<rparr>)) \<and>
    has_result (lock_attempt mode w) w' q"
proof -
  note nq = fresh_uninvolved [OF lock_inv_facts(4) [OF inv]]
  have l: "live w q" and q1: "q \<notin> set (pending g)" "q \<notin> set (ready g)"
    using fr nq [of q] by (auto simp: fresh_entry_def)
  have wt: "waiting (resolve r q (w\<lparr>prim_state := x\<rparr>)) y" if "y \<in> set (pending g)" for r x y
    using accounted_facts(7) [OF lock_inv_facts(4) [OF inv] that] q1 that l by (cases "y = q") (auto simp: waiting_def)
  show ?thesis
  proof (cases "lock_attempt mode w = ACQUIRED")
    case True
    let ?x = "prim_state w + acquired_count (mode_opcode mode)"
    let ?w' = "resolve 0 q (w\<lparr>prim_state := ?x\<rparr>)"
    have hr: "has_result 0 ?w' q"
      using fr by (intro resolve_fresh) (simp add: fresh_entry_def)
    have "settled ?w' (g\<lparr>pending := pending g @ [q]\<rparr>) = g\<lparr>ready := ready g @ [q]\<rparr>"
      using settled_snoc [of g ?w' q] wt [of _ 0 ?x] hr waiting_no_result [of ?w' q 0] by auto
    then show ?thesis
      using lock_inv_resolved [OF inv fr no True] register_loop_alone(1) [OF fr no] hr True
      by (intro exI [of _ ?w']) (simp add: lock_consts del: lock_inv.simps)
  next
    case False
    then have at: "lock_attempt mode w = POISONED"
      using at lock_attempt_range [of mode w] by auto
    let ?w' = "resolve POISONED q w"
    have hr: "has_result POISONED ?w' q"
      by (rule resolve_fresh [OF fr])
    then have "\<not> waiting ?w' q" "\<not> has_result 0 ?w' q"
      using waiting_no_result has_result_unique [of POISONED ?w' q 0] by (blast, auto simp: POISONED_def)
    then have "settled ?w' (g\<lparr>pending := pending g @ [q]\<rparr>) = g"
      using settled_snoc [of g ?w' q] wt [of _ POISONED "prim_state w"] by auto
    moreover have "lock_inv (?w', p, g)"
      by (rule lock_inv_frame [OF inv unchanged_resolve [OF l]]) (use q1 in auto)
    ultimately show ?thesis
      using register_loop_alone(1) [OF fr no] hr at
      by (intro exI [of _ ?w']) (simp add: lock_consts del: lock_inv.simps)
  qed
qed

lemma lock_register_alone:
  assumes inv: "lock_inv (w, p, g)" and q: "blank w q \<or> idle w q"
  shows "\<exists>w'. lock_register_pager prim q mode is_sync (w, []) = Some (True, (w', [])) \<and>
    lock_inv (w', p, settled w' (g\<lparr>pending := pending g @ [q]\<rparr>)) \<and>
    (if lock_attempt mode w = NOT_ACQUIRED then waiting w' q else has_result (lock_attempt mode w) w' q)"
proof -
  have "opcode_ok (mode_opcode mode)"
    by (cases mode) (simp_all add: DATA_MASK_eq)
  then obtain w1 where c: "construct q prim Lock_drop (mode_opcode mode) is_sync (w, []) = Some (w1, [])"
    and fr: "fresh_entry w1 q" and ps: "prim_state w1 = prim_state w" and no: "node_op w1 q = mode_opcode mode"
    and un: "unchanged {q} w w1"
    using construct_registrable(1) [OF q] by blast
  have inv1: "lock_inv (w1, p, g)"
    by (rule lock_inv_frame [OF inv un _ _ ps]) (use fresh_not_ready [OF inv q] in auto)
  have lp: "lock_register_pager prim q mode is_sync (w, []) = Some (True, s)"
    if "lock_register_loop q mode (w1, []) = Some s" for s
    using that c construct_registrable(2) [OF q \<open>opcode_ok (mode_opcode mode)\<close>] by (simp add: lock_register_pager_def)
  have at: "lock_attempt mode w1 = lock_attempt mode w"
    using ps by (cases mode) (simp_all add: lock_attempt_def settle_def lock_step_def share_step_def lock_wait_check_def atomics Let_def)
  show ?thesis
  proof (cases "lock_attempt mode w1 = NOT_ACQUIRED")
    case True
    obtain w2 where "try_push_wait_queue_entry q (prim_state w1) (w1, []) = Some (True, (w2, []))" "waiting w2 q"
      "lock_inv (w2, p, g\<lparr>pending := pending g @ [q]\<rparr>)" "\<forall>x \<in> set (pending g). waiting w2 x"
      using lock_inv_pushed [OF inv1 fr no True] by blast
    then show ?thesis
      using lp [OF register_loop_alone(2) [OF fr no True]] settled_snoc [of g w2 q] True at by simp
  next
    case False
    then show ?thesis
      using lock_register_settles [OF inv1 fr no False] lp at by auto
  qed
qed

lemma lock_inv_register:
  assumes "lock_inv (w, p, g)" "blank w q \<or> idle w q"
    and "lock_register_pager prim q mode is_sync (w, []) = Some (b, (w', []))"
  shows "lock_inv (w', p, settled w' (g\<lparr>pending := pending g @ [q]\<rparr>))"
  using lock_register_alone [OF assms(1,2), of prim mode is_sync] assms(3) by auto

lemma lock_inv_poison:
  assumes inv: "lock_inv (w, p, g)" and op: "poison_lock (w, []) = Some (True, (w', []))" and own: "Exclusive \<in># owners g"
  shows "lock_inv (w', True, settled w' (g\<lparr>owners := owners g - {#Exclusive#}\<rparr>))"
proof -
  let ?g = "g\<lparr>owners := owners g - {#Exclusive#}\<rparr>"
  note f = lock_inv_facts [OF inv]
  have ho: "holders w g = add_mset Exclusive (holders w ?g)"
    using own by (simp add: holders_def)
  have h: "held w g = 63" "held w ?g = 0"
    using holder_held [of Exclusive w g] f(3) ho by (auto simp: held_def)
  then have np: "\<not> p"
    using f(2) by auto
  then have acc: "accounted 62 w g"
    using f(4) by simp
  note a = accounted_facts [OF acc]
  let ?w = "w\<lparr>prim_state := POISONED_STATE\<rparr>"
  have wf: "well_formed w (pending g)" and d: "data_of (prim_state w) = DATA_MASK"
    using a(1,12) h(1) by (auto simp: represents_def o_def word_unat_eq_iff DATA_MASK_eq)
  have w': "w' = fold (resolve POISONED) (rev (pending g)) ?w"
    using poison_alone(1) [OF wf a(11) d] op by auto
  note dt = reset_detached [OF a(10) poisoned_views(1)]
  note r = detached_resolve [OF dt, where r = POISONED, folded w']
  have un: "unchanged (set (pending g)) w w'"
    using fold_resolve_others [OF dt, where r = POISONED, folded w'] by (simp add: unchanged_def)
  have hp: "has_result POISONED w' q" if "q \<in> set (pending g)" for q
    using r(4) that by blast
  have "filter (waiting w') (pending g) = []" "filter (has_result 0 w') (pending g) = []"
    unfolding filter_empty_conv using hp waiting_no_result by (auto simp: has_result_def lock_consts)
  then have se: "settled w' ?g = ?g\<lparr>pending := []\<rparr>"
    by (simp add: settled_def)
  have rd: "has_result 0 w' q" "node_op w' q = node_op w q" if "q \<in> set (ready g)" for q
    using that a(4,5,8) has_result_unchanged [OF un] node_op_unchanged [OF un] by blast+
  have ho': "holders w' (?g\<lparr>pending := []\<rparr>) = holders w ?g"
    using holders_ready(1) [of g w' w] rd(2) by (simp add: holders_def)
  have he: "held w' (?g\<lparr>pending := []\<rparr>) = 0"
    using h(2) by (simp add: held_def ho')
  have "represents (calm True w') \<lparr>in_use = 0, line = []\<rparr>"
    by (simp add: represents_def calm_def small_views well_formed_def queue_def)
  then have "accounted 62 (calm True w') (?g\<lparr>pending := []\<rparr>)"
    using he a(3) rd(1) by (simp add: accounted_def as_resource_def blocked_def has_result_def)
  moreover have "exclusively w' (?g\<lparr>pending := []\<rparr>)"
    using holder_held [of Exclusive w' "?g\<lparr>pending := []\<rparr>"] he by (auto simp: exclusively_def)
  moreover have "lock_ops w' (?g\<lparr>pending := []\<rparr>)"
    using f(6) unfolding lock_ops_def ho' ho by simp
  moreover have "prim_state w' = POISONED_STATE"
    using r(2) by simp
  ultimately show ?thesis
    unfolding se by simp
qed

lemma lock_inv_clear:
  assumes inv: "lock_inv (w, p, g)" and op: "clear_poison (w, []) = (b, (w', []))"
  shows "lock_inv (w', p \<and> \<not> b, g)"
proof (cases p)
  case True
  then have "b" "w' = calm True w"
    using op lock_inv_facts(7) [OF inv] by (auto simp: clear_poison_def atomics calm_def)
  then show ?thesis
    using inv True by (simp add: exclusively_def lock_ops_def)
next
  case False
  then show ?thesis
    using op inv lock_inv_facts(9) [OF inv] by (auto simp: clear_poison_def atomics)
qed

lemma lock_inv_allocate:
  assumes "lock_inv (w, p, g)" "unallocated w q" "wait_queue_default q (w, []) = (w', [])"
  shows "lock_inv (w', p, g)"
  using lock_inv_frame [OF assms(1), of "{}" w'] default_blank(2,3) [OF assms(2)] assms(3) by simp

lemma lock_inv_deallocate:
  assumes "lock_inv (w, p, g)" "blank w q \<or> idle w q"
    and "wait_queue_drop (\<lambda>_. lock_drop_wait_queue_entry) q (w, []) = Some (w', [])"
  shows "lock_inv (w', p, g)"
proof -
  have "unchanged {q} w w'" "prim_state w' = prim_state w"
    using drop_unused [OF assms(2), of "\<lambda>_. lock_drop_wait_queue_entry"] assms(3) by auto
  then show ?thesis
    using lock_inv_frame [OF assms(1), of "{q}" w'] fresh_not_ready [OF assms(1,2)] by auto
qed

lemmas lock_inv_preserved =
  lock_inv_allocate lock_inv_try_lock lock_inv_try_share lock_inv_register lock_inv_poll(1) lock_inv_cancel
  lock_inv_discard lock_inv_deallocate lock_inv_clear

lemma lock_inv_step: "lock_system_step s s' \<Longrightarrow> lock_inv s \<Longrightarrow> lock_inv s'"
proof (induction rule: lock_system_step.induct)
  case (release_lock w b w' g p)
  then show ?case
    using lock_inv_release [of w p g Exclusive b w'] release_refused [of MAX_SHARED_OWNERS w Exclusive w' "[]"]
    by (cases b) (auto simp: release_lock_is_loop simp del: lock_inv.simps)
next
  case (release_share w b w' g p)
  then show ?case
    using lock_inv_release [of w p g Shared b w'] release_refused [of MAX_SHARED_OWNERS w Shared w' "[]"]
    by (cases b) (auto simp: release_share_is_loop simp del: lock_inv.simps)
next
  case (poison w b w' g p)
  then show ?case
    using lock_inv_poison [of w p g w'] poison_refused [of w p g w'] by (cases b) (simp_all del: lock_inv.simps)
qed (rule lock_inv_preserved; assumption)+

lemma lock_inv_new: "lock_inv new_lock_system"
  by (simp add: new_lock_system_def lock_new_def fresh_world_def accounted_def as_resource_def held_def holders_def
      represents_def blocked_def well_formed_def queue_def exclusively_def lock_ops_def small_views)

lemma lock_inv_reachable: "lock_reachable s \<Longrightarrow> lock_inv s"
  unfolding lock_reachable_def by (induction rule: rtranclp_induct) (auto intro: lock_inv_new lock_inv_step)

section \<open>What every run guarantees\<close>

lemma holders_units:
  "63 * count (holders w g) Exclusive + count (holders w g) Shared \<le> held w g"
proof -
  have "63 * count M Exclusive + count M Shared \<le> \<Sum>\<^sub># (image_mset acquired M)" for M
    by (induction M) auto
  then show ?thesis
    by (simp add: held_def)
qed

lemma held_lock_ops:
  assumes "\<forall>opc \<in># M. lock_op opc"
  shows "\<Sum>\<^sub># (image_mset acquired M) = 63 * count M Exclusive + count M Shared"
  using assms by (induction M) (auto simp: lock_op_cases)

text \<open>C1: in every state that tasks can bring a lock to by allocating, locking, sharing, releasing, registering pagers
  in any mode, polling, cancelling, poisoning and clearing, there is at most one exclusive owner, never
  together with a shared one, and there are at most 62 shared owners; tasks that have been granted the lock
  but have not polled the result yet count as owners.  The tasks keep two rules: only an owner makes a release
  or a poisoning that succeeds, and an entry that was told \<open>POISONED\<close> is not dropped unpolled while the lock is
  held in the mode the entry asked for.\<close>

theorem lock_mutual_exclusion:
  assumes "lock_reachable (w, p, g)"
  shows "count (holders w g) Exclusive \<le> 1 \<and>
    (Exclusive \<in># holders w g \<longrightarrow> Shared \<notin># holders w g) \<and> count (holders w g) Shared \<le> 62"
proof -
  note f = lock_inv_facts [OF lock_inv_reachable [OF assms]]
  have "63 * count (holders w g) Exclusive + count (holders w g) Shared \<le> 63"
    using holders_units [of w g] f(3) by linarith
  moreover have "count (holders w g) Shared \<noteq> 63"
  proof
    assume s: "count (holders w g) Shared = 63"
    then have "held w g = 63"
      using holders_units [of w g] f(3) by linarith
    then have "Exclusive \<in># holders w g"
      using f(5) by (simp add: exclusively_def)
    with s f(3) holders_units [of w g] show False
      by (simp add: count_greater_zero_iff [symmetric] del: count_greater_zero_iff)
  qed
  ultimately show ?thesis
    by (auto simp: count_greater_zero_iff [symmetric] simp del: count_greater_zero_iff)
qed

text \<open>C2: no wake-up is lost: whenever a task waits for the lock, the lock has an owner, and the task at the
  head of the line cannot be let in next to the owners there are: an exclusive request waits for a shared
  or exclusive owner, a shared one, to own the lock or only to wait for it,
  for an exclusive owner or 62 shared ones.\<close>

theorem lock_no_lost_wakeup:
  assumes "lock_reachable (w, p, g)" "pending g \<noteq> []"
  shows "\<not> p \<and> (Exclusive \<in># holders w g \<or> Shared \<in># holders w g) \<and>
    (node_op w (hd (pending g)) \<in> {Shared, Wait 1} \<longrightarrow> Exclusive \<in># holders w g \<or> count (holders w g) Shared = 62)"
proof -
  note f = lock_inv_facts [OF lock_inv_reachable [OF assms(1)]]
  have np: "\<not> p"
    using f(1) assms(2) by auto
  have e: "held w g = 63 * count (holders w g) Exclusive + count (holders w g) Shared"
    using held_lock_ops [of "holders w g"] f(6) by (simp add: lock_ops_def held_def)
  have b: "\<not> can_grant 62 (held w g) (node_op w (hd (pending g)))"
    using accounted_facts(2) [OF f(4)] np assms(2) by (simp add: blocked_def hd_map)
  then have "held w g \<noteq> 0"
    by (simp add: can_grant_def)
  then have "Exclusive \<in># holders w g \<or> Shared \<in># holders w g"
    using e by (auto simp: count_greater_zero_iff [symmetric] simp del: count_greater_zero_iff)
  moreover have "Exclusive \<in># holders w g \<or> count (holders w g) Shared = 62"
    if "node_op w (hd (pending g)) \<in> {Shared, Wait 1}"
  proof (cases "Exclusive \<in># holders w g")
    case False
    then have "held w g = count (holders w g) Shared" "held w g \<noteq> 63"
      using e f(5) by (simp_all add: exclusively_def not_in_iff)
    then show ?thesis
      using b that f(3) by (auto simp: can_grant_def)
  qed simp
  ultimately show ?thesis
    using np by blast
qed

lemma lock_word_reports:
  assumes "lock_reachable (w, p, g)"
  shows "unat (data_of (prim_state w)) = held w g"
    and "data_of (prim_state w) = DATA_MASK \<longleftrightarrow> Exclusive \<in># holders w g"
    and "data_of (prim_state w) = 0 \<longleftrightarrow> Exclusive \<notin># holders w g \<and> Shared \<notin># holders w g"
    and "Shared \<in># holders w g \<longleftrightarrow> data_of (prim_state w) \<noteq> 0 \<and> data_of (prim_state w) \<noteq> DATA_MASK"
    and "Exclusive \<notin># holders w g \<Longrightarrow> held w g = count (holders w g) Shared"
    and "Exclusive \<in># holders w g \<Longrightarrow> count (holders w g) Shared = 0"
    and "prim_state w = POISONED_STATE \<longleftrightarrow> p"
proof -
  note f = lock_inv_facts [OF lock_inv_reachable [OF assms]]
  show d: "unat (data_of (prim_state w)) = held w g"
  proof (cases p)
    case True
    then show ?thesis
      using f(2,7) poisoned_views(2) by simp
  next
    case False
    then show ?thesis
      using accounted_facts(12) [OF f(4)] by simp
  qed
  have e: "held w g = 63 * count (holders w g) Exclusive + count (holders w g) Shared"
    using held_lock_ops [of "holders w g"] f(6) by (simp add: lock_ops_def held_def)
  have c: "data_of (prim_state w) = DATA_MASK \<longleftrightarrow> held w g = 63" "data_of (prim_state w) = 0 \<longleftrightarrow> held w g = 0"
    using d by (auto simp: DATA_MASK_eq word_unat_eq_iff)
  then show x: "data_of (prim_state w) = DATA_MASK \<longleftrightarrow> Exclusive \<in># holders w g"
    using f(5) by (simp add: exclusively_def)
  show z: "data_of (prim_state w) = 0 \<longleftrightarrow> Exclusive \<notin># holders w g \<and> Shared \<notin># holders w g"
    unfolding c e not_in_iff by auto
  show "Exclusive \<notin># holders w g \<Longrightarrow> held w g = count (holders w g) Shared"
    using e by (simp add: not_in_iff)
  show s: "count (holders w g) Shared = 0" if "Exclusive \<in># holders w g"
  proof -
    have "1 \<le> count (holders w g) Exclusive"
      using that by simp
    with e f(3) show ?thesis
      by linarith
  qed
  show "Shared \<in># holders w g \<longleftrightarrow> data_of (prim_state w) \<noteq> 0 \<and> data_of (prim_state w) \<noteq> DATA_MASK"
    using s [folded not_in_iff] unfolding x z by blast
  show "prim_state w = POISONED_STATE \<longleftrightarrow> p"
    using f(7,9) by blast
qed

text \<open>C19: the queries of the lock tell the truth in every reachable state: \<open>is_locked\<close> reports an exclusive
  owner, \<open>is_shared\<close> a shared one, \<open>is_free\<close> that there is neither and no poison, \<open>is_poisoned\<close> the poison.\<close>

theorem lock_queries_agree:
  assumes "lock_reachable (w, p, g)"
  shows "fst (is_locked (w, [])) = (Exclusive \<in># holders w g) \<and> fst (is_shared (w, [])) = (Shared \<in># holders w g) \<and>
    fst (is_poisoned (w, [])) = p \<and>
    fst (is_free (w, [])) = (\<not> p \<and> Exclusive \<notin># holders w g \<and> Shared \<notin># holders w g)"
  using lock_word_reports [OF assms]
  unfolding is_locked_def is_shared_def is_poisoned_def is_free_def atomics_alone Let_def prod.case fst_conv
    data_of_def [symmetric] by auto

text \<open>C20: an owner can always give back what it owns: in every reachable state \<open>release_lock\<close> succeeds for an
  exclusive owner and \<open>release_share\<close> for a shared one.\<close>

theorem lock_release_succeeds:
  assumes "lock_reachable (w, p, g)"
  shows "(Exclusive \<in># owners g \<longrightarrow> (\<exists>w'. release_lock (w, []) = Some (True, (w', [])))) \<and>
    (Shared \<in># owners g \<longrightarrow> (\<exists>w'. release_share (w, []) = Some (True, (w', []))))"
proof -
  note f = lock_inv_facts [OF lock_inv_reachable [OF assms]]
  have "\<exists>w'. release_loop MAX_SHARED_OWNERS (prim_state w) opc (w, []) = Some (True, (w', []))"
    if "opc \<in># owners g" "acquired opc \<noteq> 0" for opc
  proof -
    let ?g = "g\<lparr>owners := owners g - {#opc#}\<rparr>"
    have ho: "holders w g = add_mset opc (holders w ?g)"
      using that by (simp add: holders_def)
    then have np: "\<not> p"
      using f(2) holder_held [of opc w g] that by auto
    have m: "unat MAX_SHARED_OWNERS = 62"
      by (simp add: lock_consts)
    show ?thesis
      using accounted_release [of MAX_SHARED_OWNERS w g opc] f(4) np that(1) m drop_holder(3) [OF ho _ f(3,5,6)] by auto
  qed
  then show ?thesis
    by (simp add: release_lock_is_loop release_share_is_loop)
qed

text \<open>C35: what registering a pager that only waits reports, on every lock that tasks can bring about: the check
  compares the state word with the result code \<open>POISONED\<close> instead of \<open>POISONED_STATE\<close>.  So the pager is told that
  the lock is poisoned exactly when the lock is not poisoned, has two shared owners and nobody waits; on a
  poisoned lock, in both modes, it is told that the lock can be acquired.  In all other cases the answer is right:
  the pager has its result at once if a lock of the mode is available, and waits in the line otherwise.\<close>

theorem wait_modes_misreport_poison:
  assumes "lock_reachable (w, p, g)" "blank w q \<or> idle w q" "mode = WaitExclusive \<or> mode = WaitShared"
  shows "\<exists>w'. lock_register_pager prim q mode is_sync (w, []) = Some (True, (w', [])) \<and>
    (has_result POISONED w' q \<longleftrightarrow> \<not> p \<and> pending g = [] \<and> count (holders w g) Shared = 2) \<and>
    (p \<longrightarrow> has_result ACQUIRED w' q) \<and>
    (\<not> has_result POISONED w' q \<longrightarrow>
       (if held w g < (if mode = WaitExclusive then 1 else 62) then has_result ACQUIRED w' q else waiting w' q))"
proof -
  note f = lock_inv_facts [OF lock_inv_reachable [OF assms(1)]] and r = lock_word_reports [OF assms(1)]
  let ?two = "\<not> p \<and> pending g = [] \<and> count (holders w g) Shared = 2"
  let ?a = "lock_attempt mode w"
  have two: "prim_state w = 2 \<longleftrightarrow> ?two"
  proof (cases p)
    case True
    then show ?thesis
      using f(7) by (simp add: lock_consts)
  next
    case False
    then have a: "addr_of (prim_state w) = 0 \<longleftrightarrow> pending g = []" "\<not> locked (prim_state w)"
      using f(4) queue_empty_iff accounted_facts(10,11) [of 62 w g] by simp_all
    have "data_of (prim_state w) = 2 \<longleftrightarrow> count (holders w g) Shared = 2"
      using r(1,2,5,6) by (cases "Exclusive \<in># holders w g") (auto simp: word_unat_eq_iff DATA_MASK_eq)
    moreover have "(2::usize) \<le> DATA_MASK"
      by (simp add: DATA_MASK_eq)
    note v = small_views [OF this]
    have "prim_state w = 2 \<longleftrightarrow> addr_of (prim_state w) = 0 \<and> \<not> locked (prim_state w) \<and> data_of (prim_state w) = 2"
      using state_eqI [of "prim_state w" 2] v by metis
    ultimately show ?thesis
      using a False by blast
  qed
  have pz: "ucast POISONED = (2::usize)"
    by (simp add: lock_consts)
  have lt: "data_of (prim_state w) < MAX_SHARED_OWNERS \<longleftrightarrow> held w g < 62" "data_of (prim_state w) = 0 \<longleftrightarrow> held w g = 0"
    using r(1) by (auto simp: lock_consts word_less_nat_alt unat_eq_0)
  have e: "?a = (if prim_state w = 2 then POISONED
      else if mode = WaitExclusive \<and> data_of (prim_state w) = 0 \<or>
              mode = WaitShared \<and> data_of (prim_state w) < MAX_SHARED_OWNERS then ACQUIRED else NOT_ACQUIRED)"
    using assms(3) by (auto simp: lock_attempt_def lock_wait_check_def atomics Let_def pz data_of_def)
  have at: "?a = (if ?two then POISONED
      else if held w g < (if mode = WaitExclusive then 1 else 62) then ACQUIRED else NOT_ACQUIRED)"
    using assms(3) unfolding e two lt by auto
  obtain w' where w': "lock_register_pager prim q mode is_sync (w, []) = Some (True, (w', []))"
    "if ?a = NOT_ACQUIRED then waiting w' q else has_result ?a w' q"
    using lock_register_alone [OF lock_inv_reachable [OF assms(1)] assms(2), of prim mode is_sync] by blast
  have c: "POISONED \<noteq> NOT_ACQUIRED" "ACQUIRED \<noteq> NOT_ACQUIRED" "POISONED \<noteq> ACQUIRED"
    by (simp_all add: lock_consts)
  have "held w g = 0" if "p"
    using that f(2) by simp
  with w' at c has_result_unique [of POISONED w' q ACQUIRED] waiting_no_result [of w' q POISONED] show ?thesis
    by (intro exI [of _ w']) (auto split: if_splits)
qed

section \<open>A run\<close>

text \<open>One task locks, then another registers a pager for shared access and waits.\<close>

definition contended_books :: books where
  "contended_books = \<lparr>pending = [128], ready = [], owners = {#Exclusive#}\<rparr>"

lemma contended_reachable: "\<exists>w. lock_reachable (w, False, contended_books)"
proof -
  let ?g0 = "\<lparr>pending = [], ready = [], owners = {#}\<rparr>" and ?g1 = "\<lparr>pending = [], ready = [], owners = {#Exclusive#}\<rparr>"
  let ?w1 = "lock_new\<lparr>prim_state := DATA_MASK\<rparr>"
  let ?w2 = "fst (wait_queue_default 128 (?w1, []))"
  have tl: "try_lock (lock_new, []) = (True, (?w1, []))"
    by (simp add: try_lock_def lock_new_def fresh_world_def atomics try_lock_internal.simps lock_consts)
  have s1: "lock_system_step new_lock_system (?w1, False, ?g1)"
    using lock_system_step.try_lock [OF tl, of False ?g0] by (simp add: new_lock_system_def)
  have u: "unallocated ?w1 128"
    by code_simp
  have s2: "lock_system_step (?w1, False, ?g1) (?w2, False, ?g1)"
    by (rule lock_system_step.allocate [OF u]) (simp add: wait_queue_default_def)
  have b: "blank ?w2 128 \<or> idle ?w2 128"
    using default_blank(1) [OF u] by blast
  have r2: "lock_reachable (?w2, False, ?g1)"
    unfolding lock_reachable_def using s1 s2 by (meson rtranclp.rtrancl_into_rtrancl rtranclp.rtrancl_refl)
  have "lock_attempt Mode_Shared ?w2 = NOT_ACQUIRED"
    by (simp add: lock_attempt_def settle_def share_step_def wait_queue_default_def lock_consts)
  then obtain w where w: "lock_register_pager 0 128 Mode_Shared True (?w2, []) = Some (True, (w, []))" "waiting w 128"
    using lock_register_alone [OF lock_inv_reachable [OF r2] b, of 0 Mode_Shared True] by auto
  have "lock_system_step (?w2, False, ?g1) (w, False, contended_books)"
    using lock_system_step.register [OF b w(1), of False ?g1] w(2) waiting_no_result [OF w(2)]
    by (simp add: settled_def contended_books_def)
  with r2 show ?thesis
    unfolding lock_reachable_def by (meson rtranclp.rtrancl_into_rtrancl)
qed

theorem lock_mutual_exclusion_witness:
  "\<exists>w. lock_reachable (w, False, contended_books) \<and> Exclusive \<in># holders w contended_books \<and>
     Shared \<notin># holders w contended_books"
proof -
  obtain w where w: "lock_reachable (w, False, contended_books)"
    using contended_reachable by blast
  then show ?thesis
    using lock_mutual_exclusion [OF w] by (auto simp: holders_def contended_books_def)
qed

theorem lock_no_lost_wakeup_witness:
  "\<exists>w. lock_reachable (w, False, contended_books) \<and>
     (Exclusive \<in># holders w contended_books \<or> Shared \<in># holders w contended_books)"
proof -
  obtain w where w: "lock_reachable (w, False, contended_books)"
    using contended_reachable by blast
  then show ?thesis
    using lock_no_lost_wakeup [OF w] by (auto simp: contended_books_def)
qed

theorem lock_queries_agree_witness: "\<exists>w. lock_reachable (w, False, contended_books) \<and> fst (is_locked (w, []))"
proof -
  obtain w where w: "lock_reachable (w, False, contended_books)"
    using contended_reachable by blast
  then show ?thesis
    using lock_queries_agree [OF w] by (auto simp: holders_def contended_books_def)
qed

theorem lock_release_succeeds_witness:
  "\<exists>w w'. lock_reachable (w, False, contended_books) \<and> release_lock (w, []) = Some (True, (w', []))"
proof -
  obtain w where w: "lock_reachable (w, False, contended_books)"
    using contended_reachable by blast
  then show ?thesis
    using lock_release_succeeds [OF w] by (auto simp: contended_books_def)
qed

text \<open>Two tasks share a lock; a pager that waits for a shared lock is told that the lock is poisoned.\<close>

theorem wait_modes_misreport_poison_witness:
  "\<exists>w w' g. lock_reachable (w, False, g) \<and> owners g = {#Shared, Shared#} \<and>
     lock_register_pager 0 128 WaitShared True (w, []) = Some (True, (w', [])) \<and> has_result POISONED w' 128"
proof -
  let ?g = "\<lambda>M. \<lparr>pending = [], ready = [], owners = M\<rparr>" and ?w = "\<lambda>n. lock_new\<lparr>prim_state := n\<rparr>"
  let ?v = "fst (wait_queue_default 128 (?w 2, []))"
  have ts: "try_share (lock_new, []) = (True, (?w 1, []))" "try_share (?w 1, []) = (True, (?w 2, []))"
    by (simp_all add: try_share_def lock_new_def fresh_world_def atomics try_share_internal.simps lock_consts word_le_nat_alt)
  have u: "unallocated (?w 2) 128"
    by code_simp
  have "lock_system_step new_lock_system (?w 1, False, ?g {#Shared#})"
    using lock_system_step.try_share [OF ts(1), of False "?g {#}"] by (simp add: new_lock_system_def)
  moreover have "lock_system_step (?w 1, False, ?g {#Shared#}) (?w 2, False, ?g {#Shared, Shared#})"
    using lock_system_step.try_share [OF ts(2), of False "?g {#Shared#}"] by simp
  moreover have "lock_system_step (?w 2, False, ?g {#Shared, Shared#}) (?v, False, ?g {#Shared, Shared#})"
    by (rule lock_system_step.allocate [OF u]) (simp add: wait_queue_default_def)
  ultimately have r: "lock_reachable (?v, False, ?g {#Shared, Shared#})"
    unfolding lock_reachable_def by (meson rtranclp.rtrancl_into_rtrancl rtranclp.rtrancl_refl)
  have "blank ?v 128 \<or> idle ?v 128"
    using default_blank(1) [OF u] by blast
  then obtain w' where "lock_register_pager 0 128 WaitShared True (?v, []) = Some (True, (w', []))" "has_result POISONED w' 128"
    using wait_modes_misreport_poison [OF r, of 128 WaitShared 0 True] by (auto simp: holders_def)
  with r show ?thesis
    by (metis books.select_convs(3))
qed

end
