(* ===== verification/Semaphore_Primitive.thy ===== *)
theory Semaphore_Primitive
  imports Pager
begin

text \<open>
  \<open>src/semaphore.rs\<close>: a counting semaphore.  The data field of its state word counts the permits in
  use, so \<open>MAX_PERMITS\<close> minus it is the number of available permits.
\<close>

section \<open>Construction and queries\<close>

definition MAX_PERMITS :: usize where
  "MAX_PERMITS = DATA_MASK"

definition semaphore_new :: world where
  "semaphore_new = fresh_world 0"

definition with_permits :: "usize \<Rightarrow> world" where
  "with_permits permits =
     (let adjusted_permits = min permits MAX_PERMITS in fresh_world (MAX_PERMITS - adjusted_permits))"

definition is_open :: "sys \<Rightarrow> bool \<times> sys" where
  "is_open s = (case load s of (state, s) \<Rightarrow> (state AND DATA_MASK \<noteq> MAX_PERMITS, s))"

definition is_closed :: "sys \<Rightarrow> bool \<times> sys" where
  "is_closed s = (case load s of (state, s) \<Rightarrow> (state AND DATA_MASK = DATA_MASK, s))"

definition available_permits :: "sys \<Rightarrow> usize \<times> sys" where
  "available_permits s = (case load s of (state, s) \<Rightarrow> (MAX_PERMITS - (state AND DATA_MASK), s))"

section \<open>Acquiring\<close>

text \<open>\<open>u8::try_from\<close> on a \<open>usize\<close>.\<close>

definition u8_try_from :: "usize \<Rightarrow> u8 option" where
  "u8_try_from count = (if count \<le> 255 then Some (ucast count) else None)"

function try_acquire_loop :: "u8 \<Rightarrow> usize \<Rightarrow> sys \<Rightarrow> (bool \<times> usize) \<times> sys" where
  "try_acquire_loop count state s =
     (if state AND ADDR_MASK \<noteq> 0 \<or> MAX_PERMITS < (state AND DATA_MASK) + ucast count then ((False, state), s)
      else
        (case compare_exchange state (state + ucast count) s of
           (Ok _, s') \<Rightarrow> ((True, 0), s')
         | (Err new_state, s') \<Rightarrow> try_acquire_loop count new_state s'))"
  by pat_completeness auto
termination
  by (relation "measure (\<lambda>(count, state, s). retry_measure state s)")
     (auto intro: compare_exchange_retry simp: eq_commute [of "(_, _)"])

declare try_acquire_loop.simps [simp del]

definition try_acquire_internal :: "u8 \<Rightarrow> sys \<Rightarrow> (bool \<times> usize) \<times> sys" where
  "try_acquire_internal count s = (case load s of (state, s) \<Rightarrow> try_acquire_loop count state s)"

definition try_acquire :: "sys \<Rightarrow> bool \<times> sys" where
  "try_acquire s = (case try_acquire_internal 1 s of ((result, _), s) \<Rightarrow> (result, s))"

definition try_acquire_many :: "usize \<Rightarrow> sys \<Rightarrow> bool \<times> sys" where
  "try_acquire_many count s =
     (if MAX_PERMITS < count then (False, s)
      else
        (case u8_try_from count of
           None \<Rightarrow> (False, s)
         | Some count \<Rightarrow>
             (case try_acquire_internal count s of ((result, _), s) \<Rightarrow> (result, s))))"

text \<open>\<open>impl SyncPrimitive for Semaphore\<close>: dropping an entry that was not acknowledged.\<close>

definition semaphore_drop_wait_queue_entry :: "usize \<Rightarrow> sys \<Rightarrow> sys option" where
  "semaphore_drop_wait_queue_entry p s = force_remove_wait_queue_entry MAX_PERMITS p s"

partial_function (option) acquire_sync_loop ::
  "usize \<Rightarrow> task \<Rightarrow> usize \<Rightarrow> u8 \<Rightarrow> callback \<Rightarrow> sys \<Rightarrow> (bool \<times> sys) option" where
  "acquire_sync_loop prim t q count begin_wait s =
     (case try_acquire_internal count s of ((result, state), s) \<Rightarrow>
      if result then Some (True, s)
      else do {
        (waited, s) \<leftarrow>
          wait_resources_sync Semaphore_drop semaphore_drop_wait_queue_entry prim t q state
            (Semaphore count) begin_wait s;
        case waited of
          Err _ \<Rightarrow> acquire_sync_loop prim t q count begin_wait s
        | Ok _ \<Rightarrow> Some (True, s) })"

declare acquire_sync_loop.simps [code]

definition acquire_many_sync_with ::
  "usize \<Rightarrow> task \<Rightarrow> usize \<Rightarrow> usize \<Rightarrow> callback \<Rightarrow> sys \<Rightarrow> (bool \<times> sys) option" where
  "acquire_many_sync_with prim t q count begin_wait s =
     (if MAX_PERMITS < count then Some (False, s)
      else
        (case u8_try_from count of
           None \<Rightarrow> Some (False, s)
         | Some count \<Rightarrow> acquire_sync_loop prim t q count begin_wait s))"

partial_function (option) acquire_async_loop ::
  "usize \<Rightarrow> task \<Rightarrow> usize \<Rightarrow> u8 \<Rightarrow> callback \<Rightarrow> sys \<Rightarrow> (bool \<times> sys) option" where
  "acquire_async_loop prim t q count begin_wait s =
     (case try_acquire_internal count s of ((result, state), s) \<Rightarrow>
      if result then Some (True, s)
      else do {
        (waited, s) \<leftarrow>
          wait_resources_async Semaphore_drop semaphore_drop_wait_queue_entry prim t q state
            (Semaphore count) begin_wait s;
        case waited of
          Err _ \<Rightarrow> acquire_async_loop prim t q count begin_wait s
        | Ok _ \<Rightarrow> Some (True, s) })"

declare acquire_async_loop.simps [code]

definition acquire_many_async_with ::
  "usize \<Rightarrow> task \<Rightarrow> usize \<Rightarrow> usize \<Rightarrow> callback \<Rightarrow> sys \<Rightarrow> (bool \<times> sys) option" where
  "acquire_many_async_with prim t q count begin_wait s =
     (if MAX_PERMITS < count then Some (False, s)
      else
        (case u8_try_from count of
           None \<Rightarrow> Some (False, s)
         | Some count \<Rightarrow> acquire_async_loop prim t q count begin_wait s))"

definition acquire_many_sync :: "usize \<Rightarrow> task \<Rightarrow> usize \<Rightarrow> usize \<Rightarrow> sys \<Rightarrow> (bool \<times> sys) option" where
  "acquire_many_sync prim t q count s = acquire_many_sync_with prim t q count id s"

definition acquire_many_async :: "usize \<Rightarrow> task \<Rightarrow> usize \<Rightarrow> usize \<Rightarrow> sys \<Rightarrow> (bool \<times> sys) option" where
  "acquire_many_async prim t q count s = acquire_many_async_with prim t q count id s"

definition acquire_sync_with :: "usize \<Rightarrow> task \<Rightarrow> usize \<Rightarrow> callback \<Rightarrow> sys \<Rightarrow> sys option" where
  "acquire_sync_with prim t q begin_wait s =
     do { (_, s) \<leftarrow> acquire_many_sync_with prim t q 1 begin_wait s; Some s }"

definition acquire_async_with :: "usize \<Rightarrow> task \<Rightarrow> usize \<Rightarrow> callback \<Rightarrow> sys \<Rightarrow> sys option" where
  "acquire_async_with prim t q begin_wait s =
     do { (_, s) \<leftarrow> acquire_many_async_with prim t q 1 begin_wait s; Some s }"

definition acquire_sync :: "usize \<Rightarrow> task \<Rightarrow> usize \<Rightarrow> sys \<Rightarrow> sys option" where
  "acquire_sync prim t q s = do { (_, s) \<leftarrow> acquire_many_sync_with prim t q 1 id s; Some s }"

definition acquire_async :: "usize \<Rightarrow> task \<Rightarrow> usize \<Rightarrow> sys \<Rightarrow> sys option" where
  "acquire_async prim t q s = do { (_, s) \<leftarrow> acquire_many_async_with prim t q 1 id s; Some s }"

section \<open>Pagers\<close>

partial_function (option) semaphore_register_loop :: "usize \<Rightarrow> u8 \<Rightarrow> sys \<Rightarrow> sys option" where
  "semaphore_register_loop q count s =
     (case try_acquire_internal count s of ((result, state), s) \<Rightarrow>
      if result then do { p \<leftarrow> entry q s; set_result p 0 s }
      else do {
        (pushed, s) \<leftarrow> try_push_wait_queue_entry q state s;
        if pushed then Some s else semaphore_register_loop q count s })"

declare semaphore_register_loop.simps [code]

definition semaphore_register_pager ::
  "usize \<Rightarrow> usize \<Rightarrow> usize \<Rightarrow> bool \<Rightarrow> sys \<Rightarrow> (bool \<times> sys) option" where
  "semaphore_register_pager prim q count is_sync s =
     (if MAX_PERMITS < count then Some (False, s)
      else do {
        registered \<leftarrow> is_registered q s;
        if registered then Some (False, s)
        else
          (case u8_try_from count of
             None \<Rightarrow> Some (False, s)
           | Some count \<Rightarrow>
               do { s \<leftarrow> construct q prim Semaphore_drop (Semaphore count) is_sync s;
                    s \<leftarrow> semaphore_register_loop q count s;
                    Some (True, s) }) })"

definition semaphore_to_result :: "u8 \<Rightarrow> pager_error option \<Rightarrow> (unit, pager_error) result" where
  "semaphore_to_result value pager_error = (case pager_error of None \<Rightarrow> Ok () | Some e \<Rightarrow> Err e)"

section \<open>Releasing\<close>

definition release :: "sys \<Rightarrow> (bool \<times> sys) option" where
  "release s =
     (case compare_exchange 1 0 s of
        (Ok _, s) \<Rightarrow> Some (True, s)
      | (Err state, s) \<Rightarrow> release_loop MAX_PERMITS state (Semaphore 1) s)"

definition release_many :: "usize \<Rightarrow> sys \<Rightarrow> (bool \<times> sys) option" where
  "release_many count s =
     (case u8_try_from count of
        None \<Rightarrow> Some (False, s)
      | Some count \<Rightarrow>
          (case compare_exchange (ucast count) 0 s of
             (Ok _, s) \<Rightarrow> Some (True, s)
           | (Err state, s) \<Rightarrow> release_loop MAX_PERMITS state (Semaphore count) s))"

section \<open>Acquiring takes effect at one moment\<close>

definition acquire_step :: "u8 \<Rightarrow> usize \<Rightarrow> (bool \<times> usize) attempt" where
  "acquire_step count state =
     (if addr_of state \<noteq> 0 \<or> MAX_PERMITS < data_of state + ucast count then Stop (False, state)
      else Attempt (state + ucast count) (True, 0))"

interpretation acq: cas_loop "try_acquire_loop count" "acquire_step count" for count
  by unfold_locales (auto simp: acquire_step_def try_acquire_loop.simps addr_of_def data_of_def)

text \<open>The specification: permits are handed out when nobody waits and enough of them are available.\<close>

definition acquire_spec :: "nat \<Rightarrow> world \<Rightarrow> bool \<times> world" where
  "acquire_spec n w =
     (if addr_of (prim_state w) = 0 \<and> unat (data_of (prim_state w)) + n \<le> 63
      then (True, w\<lparr>prim_state := prim_state w + of_nat n\<rparr>) else (False, w))"

lemma MAX_PERMITS_eq: "MAX_PERMITS = 63"
  by (simp add: MAX_PERMITS_def mask_values)

lemma acquire_spec_settle:
  "acquire_spec (unat count) w = (fst (fst (settle (acquire_step count) w)), snd (settle (acquire_step count) w))"
proof -
  have c: "unat count < 256"
    using unsigned_less [of count] by simp
  have e: "data_of (prim_state w) + ucast count = of_nat (unat (data_of (prim_state w)) + unat count)"
    by simp
  have "unat (data_of (prim_state w)) + unat count < 2 ^ LENGTH(64)"
    using unat_data_of_le [of "prim_state w"] c by simp
  then have "unat (data_of (prim_state w) + ucast count) = unat (data_of (prim_state w)) + unat count"
    unfolding e by (simp only: unsigned_of_nat take_bit_nat_eq_self of_nat_id)
  then have "MAX_PERMITS < data_of (prim_state w) + ucast count \<longleftrightarrow>
      63 < unat (data_of (prim_state w)) + unat count"
    by (simp add: MAX_PERMITS_eq word_less_nat_alt)
  then show ?thesis
    by (auto simp: acquire_spec_def settle_def acquire_step_def)
qed

lemma try_acquire_internal_atomic:
  "atomically (settle (acquire_step count)) s (try_acquire_internal count s)"
  using acq.load_loop_atomic [of s] by (cases "load s") (simp add: try_acquire_internal_def)

lemma u8_try_from_small: "unat n \<le> 63 \<Longrightarrow> u8_try_from n = Some (ucast n) \<and> unat (ucast n :: u8) = unat n"
  by (simp add: u8_try_from_def word_le_nat_alt unsigned_ucast_eq take_bit_nat_eq_self)

lemma try_acquire_many_atomic:
  assumes "unat n \<le> 63"
  shows "atomically (acquire_spec (unat n)) s (try_acquire_many n s)"
proof -
  let ?c = "ucast n :: u8"
  obtain r x s' where t: "try_acquire_internal ?c s = ((r, x), s')"
    by (metis surj_pair)
  have sp: "acquire_spec (unat n) = (\<lambda>w. (fst (fst (settle (acquire_step ?c) w)), snd (settle (acquire_step ?c) w)))"
    using acquire_spec_settle [of ?c] u8_try_from_small [OF assms] by (intro ext) simp
  have "atomically (acquire_spec (unat n)) s (r, s')"
    unfolding sp using atomically_map [of _ s "(r, x)" s' fst] try_acquire_internal_atomic [of ?c s] t by simp
  then show ?thesis
    using t u8_try_from_small [OF assms] assms
    by (simp add: try_acquire_many_def MAX_PERMITS_eq word_less_nat_alt)
qed

lemma try_acquire_is_many: "try_acquire s = try_acquire_many 1 s"
  by (simp add: try_acquire_many_def MAX_PERMITS_eq word_less_nat_alt try_acquire_def u8_try_from_def)

section \<open>Releasing\<close>

interpretation semp: sync_primitive MAX_PERMITS
  by unfold_locales (simp add: MAX_PERMITS_eq)

lemma release_many_atomic:
  assumes "well_formed w qs" "env_ok K es" "unat n \<le> 63"
  shows "released K MAX_PERMITS (Semaphore (ucast n)) (w, es) (release_many n (w, es))"
proof -
  let ?c = "ucast n :: u8"
  have c: "u8_try_from n = Some ?c" "ucast ?c = n"
    using u8_try_from_small [OF assms(3)] unat_ucast_u8 [of ?c] by (auto simp: word_unat_eq_iff)
  obtain w1 es1 qs1 where i: "interfere (w, es) = (w1, es1)" "env_ok K es1" "well_formed w1 qs1"
    using env_ok_interfere [OF assms(2,1)] by metis
  have small: "n \<le> DATA_MASK"
    using assms(3) by (simp add: DATA_MASK_eq word_le_nat_alt)
  show ?thesis
  proof (cases "prim_state w1 = n")
    case True
    have "released K MAX_PERMITS (Semaphore ?c) (w, es) (Some (True, (w1\<lparr>prim_state := 0\<rparr>, es1)))"
      by (rule released_fast [OF i(1,3)]) (use small in \<open>simp_all add: True small_views c data_of_def [symmetric]\<close>)
    with i(1) True show ?thesis
      by (simp add: release_many_def compare_exchange_def c)
  next
    case False
    with i(1) semp.release_slow [OF i(1,3,2), of "Semaphore ?c"] show ?thesis
      by (simp add: release_many_def compare_exchange_def c)
  qed
qed

lemma release_is_release_many: "release s = release_many 1 s"
  by (simp add: release_def release_many_def u8_try_from_def)

lemma release_many_is_loop:
  assumes "unat n \<le> 63"
  shows "release_many n (w, []) = release_loop MAX_PERMITS (prim_state w) (Semaphore (ucast n)) (w, [])"
proof -
  let ?c = "ucast n :: u8"
  have c: "u8_try_from n = Some ?c" "ucast ?c = n"
    using u8_try_from_small [OF assms] unat_ucast_u8 [of ?c] by (auto simp: word_unat_eq_iff)
  have small: "n \<le> DATA_MASK"
    using assms by (simp add: DATA_MASK_eq word_le_nat_alt)
  show ?thesis
  proof (cases "prim_state w = n")
    case True
    with c small show ?thesis
      by (subst release_loop_unfold) (simp add: release_many_def atomics small_views data_of_def [symmetric] Let_def)
  qed (simp add: release_many_def atomics c)
qed

section \<open>Permits\<close>

text \<open>A semaphore made by \<open>with_permits\<close> has the requested number of permits available, capped at
  \<open>MAX_PERMITS\<close>, which is 63.\<close>

lemma with_permits_available:
  "unat (fst (available_permits (with_permits n, []))) = min (unat n) 63"
proof -
  have k: "unat (min n 63) = min (unat n) 63"
    by (simp add: min_def word_le_nat_alt)
  then have m: "unat (63 - min n 63) = 63 - min (unat n) 63" "63 - min n 63 \<le> DATA_MASK"
    by (simp_all add: unat_sub DATA_MASK_eq word_le_nat_alt)
  have "unat (63 - (63 - min n 63)) = min (unat n) 63"
    by (simp add: k)
  with m(2) show ?thesis
    by (simp add: available_permits_def atomics with_permits_def MAX_PERMITS_eq fresh_world_def
        data_of_def [symmetric] small_views Let_def)
qed

text \<open>Acquiring permits and giving the same number back restores the semaphore exactly.\<close>

theorem acquire_release_roundtrip:
  assumes "try_acquire_many n (w, []) = (True, (w', []))" "\<not> locked (prim_state w)"
  shows "release_many n (w', []) = Some (True, (w, []))"
proof -
  have n: "unat n \<le> 63"
  proof (rule ccontr)
    assume "\<not> unat n \<le> 63"
    with assms(1) show False
      by (simp add: try_acquire_many_def MAX_PERMITS_eq word_less_nat_alt)
  qed
  let ?c = "ucast n :: u8"
  have c: "u8_try_from n = Some ?c" "ucast ?c = n"
    using u8_try_from_small [OF n] unat_ucast_u8 [of ?c] by (auto simp: word_unat_eq_iff)
  have a: "addr_of (prim_state w) = 0" "unat (data_of (prim_state w)) + unat n \<le> 63"
    and w': "w' = w\<lparr>prim_state := prim_state w + n\<rparr>"
    using try_acquire_many_atomic [OF n, of "(w, [])"] assms(1)
    by (auto simp: atomically_alone acquire_spec_def split: if_splits)
  note v = add_data_views [OF a(2)]
  have "can_release (Semaphore ?c) (prim_state w')"
    using v(3) a(2) w' unat_plus_if' [of "data_of (prim_state w)" n]
    by (simp add: c data_of_def [symmetric] word_le_nat_alt)
  then show ?thesis
    using a v w' unfolding release_many_is_loop [OF n]
    by (subst release_loop_unfold) (simp add: atomics c)
qed

theorem acquire_release_roundtrip_witness:
  "release_many 5 (fresh_world 15, []) = Some (True, (fresh_world 10, []))"
proof -
  have "try_acquire_many 5 (fresh_world 10, []) = (True, (fresh_world 15, []))" "\<not> locked (prim_state (fresh_world 10))"
    by (simp_all add: try_acquire_many_def try_acquire_internal_def try_acquire_loop.simps MAX_PERMITS_eq
        u8_try_from_def atomics fresh_world_def mask_values ADDR_MASK_def locked_def)
  then show ?thesis
    by (rule acquire_release_roundtrip)
qed

interpretation sem_result: sync_result semaphore_to_result "\<lambda>_. Ok ()" id
  by unfold_locales (simp_all add: semaphore_to_result_def)

end
