(* ===== verification/Semaphore_Blocking.thy ===== *)
theory Semaphore_Blocking
  imports Semaphore_Primitive Blocking_Acquire
begin

text \<open>
  The blocking and asynchronous calls of \<open>src/semaphore.rs\<close> are instances of \<open>blocking_call\<close>; what that means for
  a semaphore whose owners release permits at arbitrary moments.
\<close>

section \<open>The blocking calls\<close>

lemma acquire_word_cases:
  assumes "represents w r" "unat c \<le> 63"
  shows "addr_of (prim_state w) \<noteq> 0 \<or> MAX_PERMITS < data_of (prim_state w) + ucast c \<longleftrightarrow>
    \<not> available 63 (Semaphore c) r"
proof -
  have a: "addr_of (prim_state w) = 0 \<longleftrightarrow> line r = []"
    using assms(1) queue_empty_iff [of w "map fst (line r)"] by (simp add: represents_def well_formed_def)
  have "unat (data_of (prim_state w) + ucast c) = in_use r + unat c"
    using assms unat_data_of_le [of "prim_state w"] unat_add_lem [of "data_of (prim_state w)" "ucast c"]
    by (simp add: represents_def)
  moreover have "in_use r \<le> 63"
    using assms(1) unat_data_of_le [of "prim_state w"] by (simp add: represents_def)
  ultimately show ?thesis
    using a assms(2) by (auto simp: available_def can_grant_def desired_def MAX_PERMITS_eq word_less_nat_alt)
qed

lemma acquire_internal_once:
  obtains k w es where "(interfere ^^ k) s = (w, es)"
    "try_acquire_internal c s = (fst (settle (acquire_step c) w), (snd (settle (acquire_step c) w), es))"
  using try_acquire_internal_atomic [of c s] unfolding atomically_def by blast

lemma acquire_calls_look:
  assumes "unat c \<le> 63"
  shows "looks MAX_PERMITS (Semaphore c)
     (\<lambda>state. wait_resources True Semaphore_drop semaphore_drop_wait_queue_entry prim t q state (Semaphore c) id)
     (\<lambda>_. True) (acquire_sync_loop prim t q c id)"
    and "looks MAX_PERMITS (Semaphore c)
     (\<lambda>state. wait_resources False Semaphore_drop semaphore_drop_wait_queue_entry prim t q state (Semaphore c) id)
     (\<lambda>_. True) (acquire_async_loop prim t q c id)"
proof -
  have look: "\<exists>k. \<forall>r. represents (fst ((interfere ^^ k) s)) r \<longrightarrow>
      call s = acquire_or_wait MAX_PERMITS (Semaphore c) call waits (\<lambda>_. True) ((interfere ^^ k) s) r"
    if eq: "call s = (case try_acquire_internal c s of ((result, state), s) \<Rightarrow>
        if result then Some (True, s)
        else do { (waited, s) \<leftarrow> waits state s; case waited of Err _ \<Rightarrow> call s | Ok _ \<Rightarrow> Some (True, s) })"
    for s call waits
  proof -
    obtain k w es where k: "(interfere ^^ k) s = (w, es)"
      "try_acquire_internal c s = (fst (settle (acquire_step c) w), (snd (settle (acquire_step c) w), es))"
      by (rule acquire_internal_once)
    have "call s = acquire_or_wait MAX_PERMITS (Semaphore c) call waits (\<lambda>_. True) (w, es) r" if "represents w r" for r
      using acquire_word_cases [OF that assms] unfolding eq k(2)
      by (auto simp: acquire_or_wait_def settle_def acquire_step_def MAX_PERMITS_eq cong: result.case_cong)
    with k(1) show ?thesis
      by (intro exI [of _ k]) simp
  qed
  show "looks MAX_PERMITS (Semaphore c)
     (\<lambda>state. wait_resources True Semaphore_drop semaphore_drop_wait_queue_entry prim t q state (Semaphore c) id)
     (\<lambda>_. True) (acquire_sync_loop prim t q c id)"
    unfolding looks_def
    by (intro allI look, unfold wait_resources_def if_True, rule acquire_sync_loop.simps)
  show "looks MAX_PERMITS (Semaphore c)
     (\<lambda>state. wait_resources False Semaphore_drop semaphore_drop_wait_queue_entry prim t q state (Semaphore c) id)
     (\<lambda>_. True) (acquire_async_loop prim t q c id)"
    unfolding looks_def
    by (intro allI look, unfold wait_resources_def if_False, rule acquire_async_loop.simps)
qed

text \<open>Every count up to 63, as the last six bits of a byte.\<close>

lemma six_bits: "unat (c AND 63 :: u8) \<le> 63" and six_bits_small: "unat c \<le> 63 \<Longrightarrow> c AND 63 = (c :: u8)"
proof -
  have e: "c AND 63 = take_bit 6 c"
    by (simp add: take_bit_eq_mask mask_numeral)
  show "unat (c AND 63) \<le> 63"
    using take_bit_nat_less_exp [of 6 "unat c"] unfolding e by (simp add: unsigned_take_bit_eq)
  show "unat c \<le> 63 \<Longrightarrow> c AND 63 = c"
    unfolding e by (simp add: word_unat_eq_iff unsigned_take_bit_eq take_bit_nat_eq_self)
qed

interpretation acquire_blocking: blocking_call MAX_PERMITS "Semaphore (c AND 63)" q
  "acquire_sync_loop prim t q (c AND 63) id" True Semaphore_drop semaphore_drop_wait_queue_entry prim t "\<lambda>_. True" for prim t q c
  by unfold_locales (simp add: six_bits, rule acquire_calls_look [OF six_bits], simp)

interpretation acquire_awaiting: blocking_call MAX_PERMITS "Semaphore (c AND 63)" q
  "acquire_async_loop prim t q (c AND 63) id" False Semaphore_drop semaphore_drop_wait_queue_entry prim t "\<lambda>_. True" for prim t q c
  by unfold_locales (simp add: six_bits, rule acquire_calls_look [OF six_bits], simp)

section \<open>Acquiring while others release\<close>

text \<open>The other tasks call \<open>release_many\<close>.\<close>

definition permit_others :: "usize option \<Rightarrow> world \<Rightarrow> world" where
  "permit_others a w =
     (case a of None \<Rightarrow> w | Some n \<Rightarrow> (case release_many n (w, []) of Some (_, (w', _)) \<Rightarrow> w' | None \<Rightarrow> w))"

definition permit_ops :: "usize option list \<Rightarrow> Opcode option list" where
  "permit_ops as = map (map_option (\<lambda>n. Semaphore (ucast n))) as"

lemma permit_others_release:
  assumes "\<forall>n. Some n \<in> set as \<longrightarrow> unat n \<le> 63"
  shows "map permit_others as = map (others_do MAX_PERMITS) (permit_ops as)"
  unfolding permit_ops_def map_map
proof (rule map_cong [OF refl], rule ext)
  fix a w assume "a \<in> set as"
  with assms show "permit_others a w = (others_do MAX_PERMITS \<circ> map_option (\<lambda>n. Semaphore (ucast n))) a w"
    by (cases a) (simp_all add: permit_others_def others_do_def release_many_is_loop)
qed

lemma acquire_many_loop:
  assumes "unat n \<le> 63"
  shows "acquire_many_sync prim t q n s = acquire_sync_loop prim t q (ucast n AND 63) id s"
    and "acquire_many_async prim t q n s = acquire_async_loop prim t q (ucast n AND 63) id s"
proof -
  note u = u8_try_from_small [OF assms]
  have "\<not> MAX_PERMITS < n" "(ucast n AND 63 :: u8) = ucast n"
    using assms u six_bits_small [of "ucast n"] by (simp_all add: MAX_PERMITS_eq word_less_nat_alt)
  then show "acquire_many_sync prim t q n s = acquire_sync_loop prim t q (ucast n AND 63) id s"
    "acquire_many_async prim t q n s = acquire_async_loop prim t q (ucast n AND 63) id s"
    using u by (simp_all add: acquire_many_sync_def acquire_many_sync_with_def acquire_many_async_def acquire_many_async_with_def)
qed

text \<open>C11: \<open>acquire_many_sync\<close> and \<open>acquire_many_async\<close> get their permits: on a semaphore in any state, with any tasks
  waiting, while the owners release permits at arbitrary moments, the call returns \<open>true\<close> if its turn comes,
  having taken the permits at one moment when nobody waited and enough were available, or having joined the
  end of the line at one moment and been served after those before it.\<close>

theorem acquire_calls_refine:
  assumes "represents w r" "unallocated w q" "\<forall>m. Some m \<in> set as \<longrightarrow> unat m \<le> 63" "unat n \<le> 63"
    and "turn_comes 63 q (Semaphore (ucast n)) (permit_ops as) r"
  shows "(\<exists>w' es' r'. acquire_many_sync prim t q n (w, map permit_others as) = Some (True, (w', es')) \<and>
      spec_acquire 63 q (Semaphore (ucast n)) (permit_ops as) r r' \<and> represents w' r' \<and> unallocated w' q) \<and>
    (\<exists>w' es' r'. acquire_many_async prim t q n (w, map permit_others as) = Some (True, (w', es')) \<and>
      spec_acquire 63 q (Semaphore (ucast n)) (permit_ops as) r r' \<and> represents w' r' \<and> unallocated w' q)"
proof -
  have c: "(ucast n AND 63 :: u8) = ucast n"
    using six_bits_small [of "ucast n"] u8_try_from_small [OF assms(4)] assms(4) by simp
  show ?thesis
    using acquire_blocking.acquires [OF assms(1,2), of "ucast n" "permit_ops as"]
      acquire_awaiting.acquires [OF assms(1,2), of "ucast n" "permit_ops as"] assms(5)
    unfolding acquire_many_loop [OF assms(4)] permit_others_release [OF assms(3)] c by (simp add: MAX_PERMITS_eq)
qed

theorem acquire_calls_refine_witness:
  "\<exists>w' es' r'. acquire_many_sync 0 3 256 5 (one_waiter 60 (Semaphore 10) (Sync None), map permit_others [None, Some 20, None, Some 30]) =
     Some (True, (w', es')) \<and> represents w' r'"
proof -
  let ?w = "one_waiter 60 (Semaphore 10) (Sync None)" and ?r = "\<lparr>in_use = 60, line = [(128, Semaphore 10)]\<rparr>"
    and ?as = "[None, Some 20, None, Some 30] :: usize option list"
  have "represents ?w ?r" "unallocated ?w 256" "turn_comes 63 256 (Semaphore (ucast (5 :: usize))) (permit_ops ?as) ?r"
    by code_simp+
  moreover have "\<forall>m. Some m \<in> set ?as \<longrightarrow> unat m \<le> 63"
    by auto
  ultimately show ?thesis
    using acquire_calls_refine [of ?w ?r 256 ?as 5 0 3] by auto
qed

end
