(* ===== verification/Semaphore_System.thy ===== *)
theory Semaphore_System
  imports Semaphore_Primitive Accounting
begin

text \<open>
  All the tasks that use one semaphore, as a transition system: each step is one complete operation of the
  semaphore on the shared memory, together with what it means for the books.  The permits that a new
  semaphore withholds count as owned by its creator.  The invariant gives the conservation of permits,
  that nobody waits for permits that are available, and that owners can give their permits back.
\<close>

section \<open>The system\<close>

type_synonym semaphore_system = "world \<times> books"

inductive semaphore_step :: "semaphore_system \<Rightarrow> semaphore_system \<Rightarrow> bool" where
  allocate: "unallocated w q \<Longrightarrow> wait_queue_default q (w, []) = (w', []) \<Longrightarrow> semaphore_step (w, g) (w', g)"
| acquire: "try_acquire_many n (w, []) = (b, (w', [])) \<Longrightarrow>
     semaphore_step (w, g) (w', if b then g\<lparr>owners := add_mset (Semaphore (ucast n)) (owners g)\<rparr> else g)"
| release: "unat n \<le> 63 \<Longrightarrow> Semaphore (ucast n) \<in># owners g \<Longrightarrow> release_many n (w, []) = Some (b, (w', [])) \<Longrightarrow>
     semaphore_step (w, g) (w', if b then settled w' (g\<lparr>owners := owners g - {#Semaphore (ucast n)#}\<rparr>) else g)"
| register: "blank w q \<or> idle w q \<Longrightarrow> semaphore_register_pager prim q n is_sync (w, []) = Some (b, (w', [])) \<Longrightarrow>
     semaphore_step (w, g) (w', if b then settled w' (g\<lparr>pending := pending g @ [q]\<rparr>) else g)"
| poll: "live w q \<Longrightarrow> try_poll semaphore_to_result q (w, []) = Some (res, (w', [])) \<Longrightarrow>
     semaphore_step (w, g)
       (w', if q \<in> set (ready g)
            then g\<lparr>ready := remove1 q (ready g), owners := add_mset (node_op w q) (owners g)\<rparr> else g)"
| cancel: "q \<in> set (pending g) \<or> q \<in> set (ready g) \<Longrightarrow>
     wait_queue_drop (\<lambda>_. semaphore_drop_wait_queue_entry) q (w, []) = Some (w', []) \<Longrightarrow>
     semaphore_step (w, g)
       (w', settled w' (g\<lparr>pending := remove1 q (pending g), ready := remove1 q (ready g)\<rparr>))"
| deallocate: "blank w q \<or> idle w q \<Longrightarrow>
     wait_queue_drop (\<lambda>_. semaphore_drop_wait_queue_entry) q (w, []) = Some (w', []) \<Longrightarrow>
     semaphore_step (w, g) (w', g)"

definition new_semaphore_system :: "usize \<Rightarrow> semaphore_system" where
  "new_semaphore_system permits =
     (with_permits permits,
      \<lparr>pending = [], ready = [], owners = {#Semaphore (63 - ucast (min permits MAX_PERMITS))#}\<rparr>)"

definition semaphore_reachable :: "usize \<Rightarrow> semaphore_system \<Rightarrow> bool" where
  "semaphore_reachable permits s \<longleftrightarrow> semaphore_step\<^sup>*\<^sup>* (new_semaphore_system permits) s"

section \<open>The invariant\<close>

fun semaphore_inv :: "semaphore_system \<Rightarrow> bool" where
  "semaphore_inv (w, g) \<longleftrightarrow> accounted 63 w g \<and>
     (\<forall>q \<in> set (pending g). \<exists>c. node_op w q = Semaphore c) \<and> (\<forall>opc \<in># holders w g. \<exists>c. opc = Semaphore c)"

lemma semaphore_inv_facts:
  assumes "semaphore_inv (w, g)"
  shows "accounted 63 w g" "held w g \<le> 63" "\<And>q. q \<in> set (pending g) \<Longrightarrow> \<exists>c. node_op w q = Semaphore c"
    "\<And>opc. opc \<in># holders w g \<Longrightarrow> \<exists>c. opc = Semaphore c"
  using assms accounted_facts(9) [of 63 w g] by auto

lemma semaphore_inv_served:
  assumes sv: "books_served 63 w g w'"
    and ops: "\<And>q. q \<in> set (pending g) \<Longrightarrow> \<exists>c. node_op w q = Semaphore c"
      "\<And>opc. opc \<in># holders w g \<Longrightarrow> \<exists>c. opc = Semaphore c"
  shows "semaphore_inv (w', settled w' g)"
proof -
  have ho: "holders w' (settled w' g) = holders w g + mset (granted_ops 63 w g)"
    and op: "\<And>q. q \<in> set (pending g) \<Longrightarrow> node_op w' q = node_op w q" and acc: "accounted 63 w' (settled w' g)"
    using sv by (auto simp: books_served_def)
  have "\<exists>c. opc = Semaphore c" if "opc \<in> set (granted_ops 63 w g)" for opc
    using that ops(1) by (auto simp: granted_ops_def Let_def dest!: in_set_takeD)
  then show ?thesis
    using acc ops op by (auto simp: ho)
qed

lemma semaphore_inv_same:
  assumes "semaphore_inv (w, g)" "accounted 63 w' g'" "holders w' g' = holders w g" "pending g' = pending g"
    and "\<And>q. q \<in> set (pending g) \<Longrightarrow> node_op w' q = node_op w q"
  shows "semaphore_inv (w', g')"
  using assms by simp

lemma semaphore_inv_frame:
  assumes inv: "semaphore_inv (w, g)" and un: "unchanged A w w'"
    and A: "A \<inter> set (pending g) = {}" "A \<inter> set (ready g) = {}" and ps: "prim_state w' = prim_state w"
  shows "semaphore_inv (w', g)"
proof -
  note f = semaphore_inv_facts [OF inv]
  note a = accounted_facts [OF f(1)]
  have op: "node_op w' q = node_op w q" if "q \<in> set (pending g) \<or> q \<in> set (ready g)" for q
    using that a(5,7) A by (intro node_op_unchanged [OF un]) (auto simp: waiting_def)
  show ?thesis
    by (rule semaphore_inv_same [OF inv accounted_frame [OF f(1) un A ps]])
       (use op in \<open>auto intro: holders_ready(1)\<close>)
qed

text \<open>One operation at a time.\<close>

lemma semaphore_inv_acquire:
  assumes inv: "semaphore_inv (w, g)" and op: "try_acquire_many n (w, []) = (b, (w', []))"
  shows "semaphore_inv (w', if b then g\<lparr>owners := add_mset (Semaphore (ucast n)) (owners g)\<rparr> else g)"
proof (cases b)
  case False
  have "w' = w"
  proof (cases "unat n \<le> 63")
    case True
    then show ?thesis
      using try_acquire_many_atomic [OF True, of "(w, [])"] op False
      by (auto simp: atomically_alone acquire_spec_def split: if_splits)
  next
    case False
    then show ?thesis
      using op by (simp add: try_acquire_many_def MAX_PERMITS_eq word_less_nat_alt)
  qed
  with False inv show ?thesis
    by simp
next
  case True
  note f = semaphore_inv_facts [OF inv]
  note a = accounted_facts [OF f(1)]
  have n: "unat n \<le> 63"
  proof (rule ccontr)
    assume "\<not> unat n \<le> 63"
    with op True show False
      by (simp add: try_acquire_many_def MAX_PERMITS_eq word_less_nat_alt)
  qed
  let ?c = "ucast n :: u8" and ?g = "g\<lparr>owners := add_mset (Semaphore (ucast n)) (owners g)\<rparr>"
  have c: "unat ?c = unat n" "ucast ?c = n"
    using u8_try_from_small [OF n] unat_ucast_u8 [of ?c] by (auto simp: word_unat_eq_iff)
  have fit: "addr_of (prim_state w) = 0" "held w g + unat n \<le> 63" and w': "w' = w\<lparr>prim_state := prim_state w + n\<rparr>"
    using try_acquire_many_atomic [OF n, of "(w, [])"] op True a(12)
    by (auto simp: atomically_alone acquire_spec_def split: if_splits)
  have "accounted 63 w' ?g"
    using accounted_acquire [OF f(1), of "Semaphore ?c"] queue_empty_iff [OF a(10)] fit c w' by simp
  moreover have "holders w' ?g = add_mset (Semaphore ?c) (holders w g)"
    using holders_ready(1) [of g w' w] by (simp add: w' node_op_def holders_def)
  ultimately show ?thesis
    using inv True by (auto simp: w' node_op_def)
qed

lemma semaphore_release_alone:
  assumes inv: "semaphore_inv (w, g)" and own: "Semaphore (ucast n) \<in># owners g" and n: "unat n \<le> 63"
  shows "\<exists>w'. release_many n (w, []) = Some (True, (w', [])) \<and>
    semaphore_inv (w', settled w' (g\<lparr>owners := owners g - {#Semaphore (ucast n)#}\<rparr>))"
proof -
  let ?o = "Semaphore (ucast n)"
  let ?g = "g\<lparr>owners := owners g - {#?o#}\<rparr>"
  note f = semaphore_inv_facts [OF inv]
  have ho: "holders w g = add_mset ?o (holders w ?g)"
    using own by (simp add: holders_def)
  have "releasable ?o (held w g)"
    using holder_held [of ?o w g] ho by simp
  then obtain w' where w': "release_many n (w, []) = Some (True, (w', []))" "books_served 63 w ?g w'"
    using accounted_release [of MAX_PERMITS w g ?o] f(1) own release_many_is_loop [OF n] by (auto simp: MAX_PERMITS_eq)
  have "semaphore_inv (w', settled w' ?g)"
    by (rule semaphore_inv_served [OF w'(2)]) (use f(3,4) ho in auto)
  with w' show ?thesis
    by blast
qed

lemma semaphore_uninvolved:
  assumes inv: "semaphore_inv (w, g)" and q: "blank w q \<or> idle w q"
  shows "q \<notin> set (pending g)" "q \<notin> set (ready g)"
  using accounted_facts(4,7) [OF semaphore_inv_facts(1) [OF inv]] q blank_not_live [of w q]
  by (auto simp: idle_def has_result_def waiting_def)

text \<open>Without interference a registration takes the permits or joins the line.\<close>

lemma register_loop_step:
  assumes inv: "semaphore_inv (w, g)" and fr: "fresh_entry w q" and n: "unat n \<le> 63"
  shows "pending g = [] \<and> held w g + unat n \<le> 63 \<Longrightarrow>
      semaphore_register_loop q (ucast n) (w, []) = Some (resolve 0 q (w\<lparr>prim_state := prim_state w + n\<rparr>), [])"
    and "\<not> (pending g = [] \<and> held w g + unat n \<le> 63) \<Longrightarrow> try_push_wait_queue_entry q (prim_state w) (w, []) = Some (True, (w', [])) \<Longrightarrow>
      semaphore_register_loop q (ucast n) (w, []) = Some (w', [])"
proof -
  let ?c = "ucast n :: u8" and ?fits = "pending g = [] \<and> held w g + unat n \<le> 63"
  have c: "unat ?c = unat n" "ucast ?c = n"
    using u8_try_from_small [OF n] unat_ucast_u8 [of ?c] by (auto simp: word_unat_eq_iff)
  note a = accounted_facts [OF semaphore_inv_facts(1) [OF inv]]
  have fit: "acquire_spec (unat n) w = (?fits, if ?fits then w\<lparr>prim_state := prim_state w + n\<rparr> else w)"
    using a(12) queue_empty_iff [OF a(10)] by (simp add: acquire_spec_def)
  have at: "try_acquire_internal ?c (w, []) = (fst (settle (acquire_step ?c) w), (snd (settle (acquire_step ?c) w), []))"
    using try_acquire_internal_atomic [of ?c "(w, [])"] by (simp add: atomically_alone)
  note sp = acquire_spec_settle [of ?c w, unfolded c fit prod.inject, THEN conjunct1, symmetric]
    acquire_spec_settle [of ?c w, unfolded c fit prod.inject, THEN conjunct2, symmetric]
  have st: "\<not> ?fits \<Longrightarrow> snd (fst (settle (acquire_step ?c) w)) = prim_state w"
    using sp(1) by (auto simp: settle_def acquire_step_def split: if_splits)
  have l: "live w q"
    using fr by (simp add: fresh_entry_def)
  show "semaphore_register_loop q ?c (w, []) = Some (resolve 0 q (w\<lparr>prim_state := prim_state w + n\<rparr>), [])" if ?fits
    using that l sp by (subst semaphore_register_loop.simps) (simp add: at split_beta queue_simps set_result_live)
  show "semaphore_register_loop q ?c (w, []) = Some (w', [])"
    if nf: "\<not> ?fits" and "try_push_wait_queue_entry q (prim_state w) (w, []) = Some (True, (w', []))"
  proof -
    have "\<not> fst (fst (settle (acquire_step ?c) w))" "snd (settle (acquire_step ?c) w) = w"
      unfolding sp if_not_P [OF nf] by (rule nf, rule refl)
    with that(2) st [OF nf] show ?thesis
      by (subst semaphore_register_loop.simps) (simp add: at split_beta)
  qed
qed

lemma semaphore_inv_taken:
  fixes n :: usize
  assumes inv: "semaphore_inv (w, g)" and fr: "fresh_entry w q" and no: "node_op w q = Semaphore (ucast n)" and n: "unat n \<le> 63"
    and fits: "pending g = []" "held w g + unat n \<le> 63"
  shows "semaphore_inv (resolve 0 q (w\<lparr>prim_state := prim_state w + n\<rparr>), g\<lparr>ready := ready g @ [q]\<rparr>)"
proof -
  let ?c = "ucast n :: u8" and ?w' = "resolve 0 q (w\<lparr>prim_state := prim_state w + n\<rparr>)" and ?g = "g\<lparr>ready := ready g @ [q]\<rparr>"
  have c: "unat ?c = unat n" "ucast ?c = n"
    using u8_try_from_small [OF n] unat_ucast_u8 [of ?c] by (auto simp: word_unat_eq_iff)
  note f = semaphore_inv_facts [OF inv] and a = accounted_facts [OF semaphore_inv_facts(1) [OF inv]]
  have l: "live w q"
    using fr by (simp add: fresh_entry_def)
  have acc: "accounted 63 ?w' ?g"
    using accounted_resolve [OF f(1) fr] fits no c by simp
  have nop: "node_op ?w' x = node_op w x" if "live w x" for x
    using that l by (cases "x = q") (simp_all add: node_op_def)
  have "holders ?w' ?g = add_mset (Semaphore ?c) (holders w g)"
    using holders_ready(1) [of g ?w' w] nop a(5) nop [OF l] no by (simp add: holders_add_ready)
  then show ?thesis
    using acc f(4) fits by auto
qed

lemma semaphore_inv_joined:
  fixes n :: usize
  assumes inv: "semaphore_inv (w, g)" and fr: "fresh_entry w q" and no: "node_op w q = Semaphore (ucast n)" and n: "unat n \<le> 63"
    and full: "\<not> (pending g = [] \<and> held w g + unat n \<le> 63)"
  shows "\<exists>w'. try_push_wait_queue_entry q (prim_state w) (w, []) = Some (True, (w', [])) \<and> waiting w' q \<and>
    (\<forall>x \<in> set (pending g). waiting w' x) \<and> semaphore_inv (w', g\<lparr>pending := pending g @ [q]\<rparr>)"
proof -
  note f = semaphore_inv_facts [OF inv] and a = accounted_facts [OF semaphore_inv_facts(1) [OF inv]]
  have c: "unat (ucast n :: u8) = unat n"
    using u8_try_from_small [OF n] by auto
  have busy: "\<not> can_grant 63 (held w g) (node_op w q)" if "pending g = []"
    using that full n unfolding no by (auto simp: can_grant_def c)
  obtain w' where w': "try_push_wait_queue_entry q (prim_state w) (w, []) = Some (True, (w', []))"
    "accounted 63 w' (g\<lparr>pending := pending g @ [q]\<rparr>)" "waiting w' q" "node_op w' q = node_op w q" "unchanged {q} w w'"
    using accounted_push [OF f(1) fr busy] by blast
  have nop: "node_op w' x = node_op w x" if "x \<in> set (pending g) \<or> x \<in> set (ready g)" for x
    using that a(5,7) fresh_uninvolved [OF f(1) fr] by (intro node_op_unchanged [OF w'(5)]) (auto simp: waiting_def)
  have "holders w' (g\<lparr>pending := pending g @ [q]\<rparr>) = holders w g"
    using holders_ready(1) [of g w' w] nop by (simp add: holders_def)
  then have "semaphore_inv (w', g\<lparr>pending := pending g @ [q]\<rparr>)"
    using f(3,4) w'(2,4) nop no by auto
  then show ?thesis
    using w' accounted_facts(7) [OF w'(2)] by auto
qed

lemma semaphore_register_alone:
  assumes inv: "semaphore_inv (w, g)" and q: "blank w q \<or> idle w q" and n: "unat n \<le> 63"
  shows "\<exists>w'. semaphore_register_pager prim q n is_sync (w, []) = Some (True, (w', [])) \<and>
    semaphore_inv (w', settled w' (g\<lparr>pending := pending g @ [q]\<rparr>)) \<and>
    (if pending g = [] \<and> held w g + unat n \<le> 63 then has_result 0 w' q else waiting w' q)"
proof -
  let ?c = "ucast n :: u8"
  have c: "u8_try_from n = Some ?c" and ok: "opcode_ok (Semaphore ?c)"
    using u8_try_from_small [OF n] n by auto
  obtain w1 where cn: "construct q prim Semaphore_drop (Semaphore ?c) is_sync (w, []) = Some (w1, [])"
    and fr: "fresh_entry w1 q" and ps: "prim_state w1 = prim_state w" and no: "node_op w1 q = Semaphore ?c"
    and un: "unchanged {q} w w1"
    using construct_registrable(1) [OF q ok] by blast
  have inv1: "semaphore_inv (w1, g)"
    by (rule semaphore_inv_frame [OF inv un _ _ ps]) (use semaphore_uninvolved [OF inv q] in auto)
  have he: "held w1 g = held w g"
    using accounted_facts(12) [OF semaphore_inv_facts(1)] inv inv1 ps by metis
  have reg: "semaphore_register_pager prim q n is_sync (w, []) = Some (True, s)"
    if "semaphore_register_loop q ?c (w1, []) = Some s" for s
    using that cn c construct_registrable(2) [OF q ok] n
    by (simp add: semaphore_register_pager_def MAX_PERMITS_eq word_less_nat_alt)
  note loop = register_loop_step [OF inv1 fr n, unfolded he]
  show ?thesis
  proof (cases "pending g = [] \<and> held w g + unat n \<le> 63")
    case True
    let ?w' = "resolve 0 q (w1\<lparr>prim_state := prim_state w1 + n\<rparr>)"
    have hr: "has_result 0 ?w' q"
      using fr by (intro resolve_fresh) (simp add: fresh_entry_def)
    have "settled ?w' (g\<lparr>pending := pending g @ [q]\<rparr>) = g\<lparr>ready := ready g @ [q]\<rparr>"
      using settled_snoc [of g ?w' q] True hr waiting_no_result [of ?w' q 0] by auto
    then show ?thesis
      using reg [OF loop(1) [OF True]] semaphore_inv_taken [OF inv1 fr no n] hr True he
      by (intro exI [of _ ?w']) (simp del: semaphore_inv.simps)
  next
    case False
    then obtain w' where w': "try_push_wait_queue_entry q (prim_state w1) (w1, []) = Some (True, (w', []))" "waiting w' q"
      "\<forall>x \<in> set (pending g). waiting w' x" "semaphore_inv (w', g\<lparr>pending := pending g @ [q]\<rparr>)"
      using semaphore_inv_joined [OF inv1 fr no n] he by auto
    then have "settled w' (g\<lparr>pending := pending g @ [q]\<rparr>) = g\<lparr>pending := pending g @ [q]\<rparr>"
      using settled_snoc [of g w' q] by auto
    then show ?thesis
      using reg [OF loop(2) [OF False w'(1)]] w'(2,4) False by (intro exI [of _ w']) (auto simp del: semaphore_inv.simps)
  qed
qed

lemma semaphore_inv_register:
  assumes inv: "semaphore_inv (w, g)" and q: "blank w q \<or> idle w q"
    and op: "semaphore_register_pager prim q n is_sync (w, []) = Some (b, (w', []))"
  shows "semaphore_inv (w', if b then settled w' (g\<lparr>pending := pending g @ [q]\<rparr>) else g)"
proof (cases "unat n \<le> 63")
  case True
  from semaphore_register_alone [OF inv q this, of prim is_sync] op show ?thesis
    by auto
next
  case False
  with op inv show ?thesis
    by (simp add: semaphore_register_pager_def MAX_PERMITS_eq word_less_nat_alt)
qed

lemma semaphore_inv_poll:
  assumes inv: "semaphore_inv (w, g)" and l: "live w q"
    and op: "try_poll semaphore_to_result q (w, []) = Some (res, (w', []))"
  shows "semaphore_inv (w', if q \<in> set (ready g)
      then g\<lparr>ready := remove1 q (ready g), owners := add_mset (node_op w q) (owners g)\<rparr> else g)"
proof -
  note f = semaphore_inv_facts [OF inv]
  note a = accounted_facts [OF f(1)]
  show ?thesis
  proof (cases "q \<in> set (ready g)")
    case True
    let ?g = "g\<lparr>ready := remove1 q (ready g), owners := add_mset (node_op w q) (owners g)\<rparr>"
    have w': "w' = consume q w"
      using try_poll_effect(2) [OF l op a(4) [OF True]] by simp
    have "semaphore_inv (w', ?g)"
      unfolding w'
      by (rule semaphore_inv_same [OF inv accounted_consume [OF f(1) True] holders_consume [OF True a(5)]])
         (use node_op_consume [OF l] a(7) in \<open>auto simp: waiting_def\<close>)
    with True show ?thesis
      by simp
  next
    case False
    show ?thesis
    proof (cases "w' = w")
      case True
      with False inv show ?thesis
        by simp
    next
      case ne: False
      then have cw: "w' = consume q w" and "q \<notin> set (pending g)"
        using try_poll_effect(1) [OF l op] a(7) [of q] not_finalized [of w q] by auto
      with False have "semaphore_inv (w', g)"
        unfolding cw by (intro semaphore_inv_frame [OF inv unchanged_consume [OF l]]) (auto simp: consume_def)
      with False show ?thesis
        by simp
    qed
  qed
qed

lemma semaphore_inv_cancel:
  assumes inv: "semaphore_inv (w, g)" and q: "q \<in> set (pending g) \<or> q \<in> set (ready g)"
    and op: "wait_queue_drop (\<lambda>_. semaphore_drop_wait_queue_entry) q (w, []) = Some (w', [])"
  shows "semaphore_inv (w', settled w' (g\<lparr>pending := remove1 q (pending g), ready := remove1 q (ready g)\<rparr>))"
proof -
  note f = semaphore_inv_facts [OF inv]
  note a = accounted_facts [OF f(1)]
  have cb: "semaphore_drop_wait_queue_entry = force_remove_wait_queue_entry MAX_PERMITS"
    by (intro ext) (simp add: semaphore_drop_wait_queue_entry_def)
  have m: "unat MAX_PERMITS = 63"
    by (simp add: MAX_PERMITS_eq)
  show ?thesis
  proof (cases "q \<in> set (pending g)")
    case True
    let ?g = "g\<lparr>pending := remove1 q (pending g)\<rparr>"
    have eq: "g\<lparr>pending := remove1 q (pending g), ready := remove1 q (ready g)\<rparr> = ?g"
      using True a(8) by (cases g) (simp add: remove1_idem disjoint_iff)
    have "books_served 63 w ?g w'"
      using accounted_cancel_waiting [of MAX_PERMITS w g q] f(1) True m op unfolding cb by auto
    then show ?thesis
      unfolding eq
      by (rule semaphore_inv_served) (use f(3,4) in \<open>auto simp: holders_def dest: notin_set_remove1\<close>)
  next
    case False
    then have r: "q \<in> set (ready g)"
      using q by simp
    let ?g = "g\<lparr>ready := remove1 q (ready g)\<rparr>"
    have eq: "g\<lparr>pending := remove1 q (pending g), ready := remove1 q (ready g)\<rparr> = ?g"
      using False by (cases g) (auto simp: remove1_idem)
    note ho = held_ready(2) [OF r, of w]
    have "releasable (node_op w q) (held w g)"
      using f(4) [of "node_op w q"] holder_held [of "node_op w q" w g] ho by auto
    then have "books_served 63 w ?g w'"
      using accounted_cancel_ready [of MAX_PERMITS w g q] f(1) r m op unfolding cb by auto
    then show ?thesis
      unfolding eq by (rule semaphore_inv_served) (use f(3,4) ho in auto)
  qed
qed

lemma semaphore_inv_allocate:
  assumes "semaphore_inv (w, g)" "unallocated w q" "wait_queue_default q (w, []) = (w', [])"
  shows "semaphore_inv (w', g)"
  using semaphore_inv_frame [OF assms(1), of "{}" w'] default_blank(2,3) [OF assms(2)] assms(3) by simp

lemma semaphore_inv_deallocate:
  assumes "semaphore_inv (w, g)" "blank w q \<or> idle w q"
    and "wait_queue_drop (\<lambda>_. semaphore_drop_wait_queue_entry) q (w, []) = Some (w', [])"
  shows "semaphore_inv (w', g)"
proof -
  have "unchanged {q} w w'" "prim_state w' = prim_state w"
    using drop_unused [OF assms(2), of "\<lambda>_. semaphore_drop_wait_queue_entry"] assms(3) by auto
  then show ?thesis
    using semaphore_inv_frame [OF assms(1), of "{q}" w'] semaphore_uninvolved [OF assms(1,2)] by auto
qed

lemmas semaphore_inv_preserved =
  semaphore_inv_allocate semaphore_inv_acquire semaphore_inv_register semaphore_inv_poll semaphore_inv_cancel
  semaphore_inv_deallocate

lemma semaphore_inv_step: "semaphore_step s s' \<Longrightarrow> semaphore_inv s \<Longrightarrow> semaphore_inv s'"
proof (induction rule: semaphore_step.induct)
  case (release n g w b w')
  with semaphore_release_alone [of w g n] show ?case
    by (auto simp del: semaphore_inv.simps)
qed (rule semaphore_inv_preserved; assumption)+

lemma semaphore_inv_new: "semaphore_inv (new_semaphore_system permits)"
proof -
  define m where "m = min permits (63 :: usize)"
  have m: "unat m \<le> 63"
    by (auto simp: m_def min_def word_le_nat_alt)
  have s: "63 - m \<le> DATA_MASK" "unat (63 - m) = 63 - unat m"
    using m by (simp_all add: unat_sub DATA_MASK_eq word_le_nat_alt)
  have "unat (ucast m :: u8) = unat m"
    using u8_try_from_small [OF m] by simp
  then have u: "unat (63 - ucast m :: u8) = 63 - unat m"
    using m by (simp add: unat_sub word_le_nat_alt)
  show ?thesis
    using s u small_views [OF s(1)]
    by (simp add: new_semaphore_system_def with_permits_def MAX_PERMITS_eq m_def [symmetric] fresh_world_def accounted_def
        as_resource_def held_def holders_def represents_def blocked_def well_formed_def queue_def)
qed

lemma semaphore_inv_reachable: "semaphore_reachable permits s \<Longrightarrow> semaphore_inv s"
  unfolding semaphore_reachable_def by (induction rule: rtranclp_induct) (auto intro: semaphore_inv_new semaphore_inv_step)

section \<open>What every run guarantees\<close>


text \<open>C18: no task waits for permits that are available: in every reachable state the task at the head of the
  line asks for more permits than there are, and some permit is in use; the tasks behind it keep their
  place in the line.\<close>

theorem semaphore_no_lost_wakeup:
  assumes "semaphore_reachable permits (w, g)" "pending g = q # qs"
  shows "\<exists>c. node_op w q = Semaphore c \<and> unat (fst (available_permits (w, []))) < unat c \<and>
    unat (fst (available_permits (w, []))) < 63 \<and> queue w (q # qs)"
proof -
  note inv = semaphore_inv_reachable [OF assms(1)]
  note f = semaphore_inv_facts [OF inv]
  note a = accounted_facts [OF f(1)]
  obtain c where c: "node_op w q = Semaphore c"
    using f(3) assms(2) by auto
  have b: "\<not> can_grant 63 (held w g) (Semaphore c)"
    using a(2) assms(2) c by (simp add: blocked_def)
  have "unat (63 - data_of (prim_state w)) = 63 - held w g"
    using f(2) a(12) by (simp add: unat_sub word_le_nat_alt)
  then have "unat (fst (available_permits (w, []))) = 63 - held w g"
    by (simp add: available_permits_def atomics MAX_PERMITS_eq data_of_def Let_def)
  then show ?thesis
    using b f(2) c a(10) assms(2) by (auto simp: can_grant_def)
qed

section \<open>A run\<close>

text \<open>A semaphore with two permits: a task registers for three of them and waits.\<close>

definition waiting_books :: books where
  "waiting_books = \<lparr>pending = [128], ready = [], owners = {#Semaphore 61#}\<rparr>"

lemma waiting_reachable: "\<exists>w. semaphore_reachable 2 (w, waiting_books) \<and> waiting w 128"
proof -
  let ?w1 = "with_permits 2" and ?g = "\<lparr>pending = [], ready = [], owners = {#Semaphore 61#}\<rparr>"
  let ?w2 = "fst (wait_queue_default 128 (?w1, []))"
  have new: "new_semaphore_system 2 = (?w1, ?g)"
    by (simp add: new_semaphore_system_def MAX_PERMITS_eq min_def)
  have u: "unallocated ?w1 128"
    by code_simp
  have s: "semaphore_step (?w1, ?g) (?w2, ?g)"
    by (rule semaphore_step.allocate [OF u]) (simp add: wait_queue_default_def)
  then have r2: "semaphore_reachable 2 (?w2, ?g)"
    unfolding semaphore_reachable_def new by blast
  have b: "blank ?w2 128 \<or> idle ?w2 128"
    using default_blank(1) [OF u] by blast
  have "held ?w2 ?g = 61"
    by (simp add: held_def holders_def)
  then obtain w where w: "semaphore_register_pager 0 128 3 True (?w2, []) = Some (True, (w, []))" "waiting w 128"
    using semaphore_register_alone [OF semaphore_inv_reachable [OF r2] b, of 3 0 True] by auto
  have "semaphore_step (?w2, ?g) (w, waiting_books)"
    using semaphore_step.register [OF b w(1), of ?g] w(2) waiting_no_result [OF w(2)]
    by (simp add: settled_def waiting_books_def)
  with r2 w(2) show ?thesis
    unfolding semaphore_reachable_def by (meson rtranclp.rtrancl_into_rtrancl)
qed


theorem semaphore_no_lost_wakeup_witness:
  "\<exists>w c. semaphore_reachable 2 (w, waiting_books) \<and> unat (fst (available_permits (w, []))) < unat (c :: u8)"
proof -
  obtain w where w: "semaphore_reachable 2 (w, waiting_books)"
    using waiting_reachable by blast
  then show ?thesis
    using semaphore_no_lost_wakeup [OF w, of 128 "[]"] by (auto simp: waiting_books_def)
qed

end
