(* ===== verification/Barrier_Primitive.thy ===== *)
theory Barrier_Primitive
  imports Pager
begin

text \<open>
  \<open>src/barrier.rs\<close>: the barrier.  The data field of its state word counts the tasks that still have to
  arrive; the wait queue holds the tasks that have arrived.
\<close>

section \<open>Operations\<close>

definition MAX_TASKS :: usize where
  "MAX_TASKS = DATA_MASK"

definition with_count :: "usize \<Rightarrow> world" where
  "with_count count = (let adjusted_count = min MAX_TASKS count in fresh_world adjusted_count)"

definition barrier_default :: world where
  "barrier_default = fresh_world MAX_TASKS"

definition barrier_count :: "sys \<Rightarrow> usize \<times> sys" where
  "barrier_count s = (case load s of (state, s) \<Rightarrow> (state AND DATA_MASK, s))"

definition barrier_to_result :: "u8 \<Rightarrow> pager_error option \<Rightarrow> (bool, pager_error) result" where
  "barrier_to_result value pager_error = (case pager_error of None \<Rightarrow> Ok (value = 1) | Some e \<Rightarrow> Err e)"

text \<open>\<open>impl SyncPrimitive for Barrier\<close>: dropping an entry that was not acknowledged.\<close>

definition barrier_drop_wait_queue_entry :: "usize \<Rightarrow> sys \<Rightarrow> sys option" where
  "barrier_drop_wait_queue_entry p s = force_remove_wait_queue_entry MAX_TASKS p s"

text \<open>The closure that counts the waiting tasks while it resolves them.\<close>

definition arrive_closure :: "usize visitor" where
  "arrive_closure entry_ptr next_ptr count s =
     do { s \<leftarrow> set_result entry_ptr 0 s; Some (False, count + 1, s) }"

text \<open>\<open>count_down\<close>: \<open>True\<close> stands for \<open>Some(begin_wait)\<close>, the callback handed back for a retry.\<close>

partial_function (option) count_down_loop ::
  "usize \<Rightarrow> usize \<Rightarrow> bool \<Rightarrow> callback \<Rightarrow> usize \<Rightarrow> sys \<Rightarrow> (bool \<times> sys) option" where
  "count_down_loop prim q is_sync begin_wait state s =
     (let count = state AND DATA_MASK in
      if count = 0 then
        do { s \<leftarrow> construct q prim Barrier_drop (Barrier True) is_sync s;
             (pushed, s) \<leftarrow> try_push_wait_queue_entry q state s;
             if pushed then Some (True, s)
             else (case load s of (state, s) \<Rightarrow> count_down_loop prim q is_sync begin_wait state s) }
      else if count = 1 then
        (case compare_exchange state 0 s of
           (Ok value, s) \<Rightarrow>
             do { (count, s) \<leftarrow>
                    (let anchor = to_anchor_ptr value in
                     if anchor = 0 then Some (count, s)
                     else do { tail \<leftarrow> to_entry_ptr anchor s;
                               iter_forward False arrive_closure tail count s });
                  case swap count s of (prev, s) \<Rightarrow>
                  do { (u, s) \<leftarrow>
                         (let anchor = to_anchor_ptr prev in
                          if anchor = 0 then Some ((), s)
                          else do { tail \<leftarrow> to_entry_ptr anchor s;
                                    iter_forward False (set_result_closure 2) tail () s });
                       p \<leftarrow> entry q s;
                       s \<leftarrow> set_result p 1 s;
                       Some (False, s) } }
         | (Err new_state, s) \<Rightarrow> count_down_loop prim q is_sync begin_wait new_state s)
      else
        do { p \<leftarrow> entry q s;
             s \<leftarrow> update_next_entry_anchor_ptr p (to_anchor_ptr state) s;
             let next_state = ((state - 1) AND NOT ADDR_MASK) OR anchor_addr q;
             case compare_exchange state next_state s of
               (Ok _, s) \<Rightarrow>
                 do { p \<leftarrow> entry q s; s \<leftarrow> set_pollable p s; Some (False, begin_wait s) }
             | (Err new_state, s) \<Rightarrow> count_down_loop prim q is_sync begin_wait new_state s })"

declare count_down_loop.simps [code]

definition count_down :: "usize \<Rightarrow> usize \<Rightarrow> bool \<Rightarrow> callback \<Rightarrow> sys \<Rightarrow> (bool \<times> sys) option" where
  "count_down prim q is_sync begin_wait s =
     (case load s of (state, s) \<Rightarrow> count_down_loop prim q is_sync begin_wait state s)"

text \<open>\<open>unwrap_or(false)\<close> on the result of polling.\<close>

definition unwrap_or_false :: "(bool, pager_error) result \<Rightarrow> bool" where
  "unwrap_or_false r = (case r of Ok b \<Rightarrow> b | Err _ \<Rightarrow> False)"

partial_function (option) wait_sync_loop ::
  "usize \<Rightarrow> task \<Rightarrow> usize \<Rightarrow> callback \<Rightarrow> sys \<Rightarrow> (bool \<times> sys) option" where
  "wait_sync_loop prim t q begin_wait s =
     do { s \<leftarrow> construct q prim Barrier_drop (Barrier False) True s;
          (retry, s) \<leftarrow> count_down prim q True begin_wait s;
          (result, s) \<leftarrow> poll_sync barrier_to_result t q s;
          if retry then wait_sync_loop prim t q begin_wait s
          else Some (unwrap_or_false result, s) }"

declare wait_sync_loop.simps [code]

definition wait_sync_with :: "usize \<Rightarrow> task \<Rightarrow> usize \<Rightarrow> callback \<Rightarrow> sys \<Rightarrow> (bool \<times> sys) option" where
  "wait_sync_with prim t q begin_wait s =
     do { (result, s) \<leftarrow> wait_sync_loop prim t q begin_wait (wait_queue_default q s);
          s \<leftarrow> wait_queue_drop (\<lambda>_. barrier_drop_wait_queue_entry) q s;
          Some (result, s) }"

partial_function (option) wait_async_loop ::
  "usize \<Rightarrow> task \<Rightarrow> usize \<Rightarrow> callback \<Rightarrow> sys \<Rightarrow> (bool \<times> sys) option" where
  "wait_async_loop prim t q begin_wait s =
     do { s \<leftarrow> construct q prim Barrier_drop (Barrier False) False s;
          (retry, s) \<leftarrow> count_down prim q False begin_wait s;
          (result, s) \<leftarrow> poll_async barrier_to_result t q s;
          if retry then wait_async_loop prim t q begin_wait s
          else Some (unwrap_or_false result, s) }"

declare wait_async_loop.simps [code]

definition wait_async_with :: "usize \<Rightarrow> task \<Rightarrow> usize \<Rightarrow> callback \<Rightarrow> sys \<Rightarrow> (bool \<times> sys) option" where
  "wait_async_with prim t q begin_wait s =
     do { (result, s) \<leftarrow> wait_async_loop prim t q begin_wait (wait_queue_default q s);
          s \<leftarrow> wait_queue_drop (\<lambda>_. barrier_drop_wait_queue_entry) q s;
          Some (result, s) }"

definition wait_sync :: "usize \<Rightarrow> task \<Rightarrow> usize \<Rightarrow> sys \<Rightarrow> (bool \<times> sys) option" where
  "wait_sync prim t q s = wait_sync_with prim t q id s"

definition wait_async :: "usize \<Rightarrow> task \<Rightarrow> usize \<Rightarrow> sys \<Rightarrow> (bool \<times> sys) option" where
  "wait_async prim t q s = wait_async_with prim t q id s"

section \<open>Arriving\<close>

lemma arrive_visitor: "arrive_closure = resolve_visitor 0 (\<lambda>n. n + 1)"
  by (intro ext) (simp add: arrive_closure_def resolve_visitor_def)

text \<open>The world after the last arrival: the waiting tasks have the result 0, the last one has the result 1, and
  the counter is the number of both.\<close>

definition completed :: "usize \<Rightarrow> usize list \<Rightarrow> world \<Rightarrow> world" where
  "completed q qs w =
     resolve 1 q ((fold (resolve 0) (rev qs) (w\<lparr>prim_state := 0\<rparr>))\<lparr>prim_state := of_nat (length qs + 1)\<rparr>)"

lemma completed_effect:
  assumes "queue w qs" "fresh_entry w q"
  shows "prim_state (completed q qs w) = of_nat (length qs + 1)" "has_result 1 (completed q qs w) q"
    and "p \<in> set qs \<Longrightarrow> has_result 0 (completed q qs w) p" "unchanged (insert q (set qs)) w (completed q qs w)"
    and "live w p \<Longrightarrow> is_sync_entry (completed q qs w) p = is_sync_entry w p"
proof -
  let ?w0 = "w\<lparr>prim_state := 0\<rparr>"
  let ?w1 = "fold (resolve 0) (rev qs) ?w0"
  let ?w2 = "?w1\<lparr>prim_state := of_nat (length qs + 1)\<rparr>"
  have nq: "q \<notin> set qs"
    using fresh_not_queued [OF assms] .
  have d: "detached ?w0 qs []"
    by (rule reset_detached [OF assms(1)]) simp
  note r = detached_resolve(4) [OF d, where r = 0]
  have o1: "live ?w1 x \<and> node ?w1 x = node w x" if "live w x" "x \<notin> set qs" for x
    using fold_resolve_others [OF d, of x 0] that by simp
  have f2: "fresh_entry ?w2 q"
    using o1 [of q] nq assms(2) by (simp add: fresh_entry_def)
  then have lv: "live ?w2 q"
    by (simp add: fresh_entry_def)
  show "prim_state (completed q qs w) = of_nat (length qs + 1)"
    by (simp add: completed_def)
  show "has_result 1 (completed q qs w) q"
    unfolding completed_def by (rule resolve_fresh [OF f2])
  show "has_result 0 (completed q qs w) p" if "p \<in> set qs"
  proof -
    have "has_result 0 ?w2 p"
      using r [OF that] by (simp add: has_result_def)
    moreover have "p \<notin> {q}"
      using that nq by auto
    ultimately show ?thesis
      unfolding completed_def by (intro has_result_unchanged [OF unchanged_resolve [OF lv]])
  qed
  show "unchanged (insert q (set qs)) w (completed q qs w)"
    using o1 lv by (auto simp: unchanged_def completed_def)
  show "is_sync_entry (completed q qs w) p = is_sync_entry w p" if "live w p"
  proof -
    have l0: "\<forall>x \<in> set (rev qs). live ?w0 x" "live ?w0 p"
      using queue_facts(3) [OF assms(1)] that by simp_all
    note k = fold_resolve_kind [OF l0, of 0]
    then have "is_sync_entry (completed q qs w) p = is_sync_entry ?w2 p"
      unfolding completed_def by (intro resolve_kind [OF lv]) simp
    with k show ?thesis
      by (simp add: is_sync_entry_def)
  qed
qed

lemma arrive_walk:
  assumes "queue w qs"
  shows "(let anchor = to_anchor_ptr (prim_state w) in
      if anchor = 0 then Some (1, (w\<lparr>prim_state := 0\<rparr>, es))
      else do { tail \<leftarrow> to_entry_ptr anchor (w\<lparr>prim_state := 0\<rparr>, es);
                iter_forward False arrive_closure tail 1 (w\<lparr>prim_state := 0\<rparr>, es) }) =
      Some (of_nat (length qs + 1), (fold (resolve 0) (rev qs) (w\<lparr>prim_state := 0\<rparr>), es))"
proof (cases "qs = []")
  case True
  then show ?thesis
    using queue_empty_iff [OF assms] by (simp add: to_anchor_ptr_def addr_of_def Let_def)
next
  case False
  let ?w = "w\<lparr>prim_state := 0\<rparr>"
  have l: "live ?w (last qs)" and a: "to_anchor_ptr (prim_state w) = anchor_addr (last qs)"
    using queue_addr [OF assms False] queue_facts(3) [OF assms] False
    by (auto simp: to_anchor_ptr_def addr_of_def Let_def)
  have c: "chain ?w (anchor_addr (last qs)) (rev qs)"
    using reset_detached [OF assms, of 0] False by (simp add: detached_def)
  have "iter_forward False arrive_closure (entry_addr (last qs)) 1 (?w, es) =
      Some (of_nat (length qs + 1), (fold (resolve 0) (rev qs) ?w, es))"
    using iter_forward_resolve [OF c refl, of 0 "\<lambda>n. n + 1 :: usize" 1 es] False
    by (simp add: arrive_visitor count_up hd_rev)
  with l a show ?thesis
    by (simp add: to_entry_live Let_def)
qed

text \<open>Nobody else acts any more: all but one of the tasks have arrived.\<close>

lemma last_arrival_idle:
  assumes "queue w qs" "fresh_entry w q" "data_of (prim_state w) = 1" and idle: "\<forall>e \<in> set es. e = id"
  shows "count_down_loop prim q is_sync cb (prim_state w) (w, es) = Some (False, (completed q qs w, tl (tl es)))"
proof -
  let ?w1 = "fold (resolve 0) (rev qs) (w\<lparr>prim_state := 0\<rparr>)"
  have t: "\<forall>e \<in> set (tl es). e = id"
    using idle by (cases es) auto
  note i = interfere_idle [OF idle] interfere_idle [OF t]
  have d: "detached (w\<lparr>prim_state := 0\<rparr>) qs []"
    by (rule reset_detached [OF assms(1)]) simp
  have p1: "prim_state ?w1 = 0"
    using detached_resolve(2) [OF d, where r = 0] by simp
  have lv: "live ?w1 q"
    using fold_resolve_others [OF d, of q 0] assms(2) fresh_not_queued [OF assms(1,2)] by (simp add: fresh_entry_def)
  have c1: "prim_state w AND DATA_MASK = 1"
    using assms(3) by (simp add: data_of_def)
  show ?thesis
    using c1 arrive_walk [OF assms(1), of "tl es"] lv p1 i
    by (subst count_down_loop.simps)
       (simp add: compare_exchange_def swap_def to_anchor_ptr_def [of 0] queue_simps completed_def Let_def)
qed

lemma last_arrival:
  assumes "queue w qs" "fresh_entry w q" "data_of (prim_state w) = 1"
  shows "count_down prim q is_sync cb (w, []) = Some (False, (completed q qs w, []))"
  using last_arrival_idle [OF assms, of "[]"] by (simp add: count_down_def atomics)

lemma early_arrival:
  assumes "well_formed w qs" "fresh_entry w q" "2 \<le> unat (data_of (prim_state w))" "\<not> locked (prim_state w)"
  shows "\<exists>w'. count_down prim q is_sync cb (w, []) = Some (False, cb (w', [])) \<and>
    well_formed w' (qs @ [q]) \<and> \<not> locked (prim_state w') \<and>
    data_of (prim_state w') = data_of (prim_state w) - 1 \<and> unchanged {q} w w'"
proof -
  let ?s = "prim_state w"
  define x where "x = ((?s - 1) AND NOT ADDR_MASK) OR anchor_addr q"
  have qu: "queue w qs" and lq: "live w q"
    using assms(1,2) by (auto simp: well_formed_def fresh_entry_def)
  have "1 \<le> data_of ?s"
    using assms(3) by (simp add: word_le_nat_alt)
  note sv = sub_data_views [OF this]
  have xv: "addr_of x = anchor_addr q" "\<not> locked x" "data_of x = data_of ?s - 1"
    using replace_addr_views [of "anchor_addr q" "?s - 1"] sv assms(4) lq by (auto simp: x_def)
  have ne: "?s AND DATA_MASK \<noteq> 0" "?s AND DATA_MASK \<noteq> 1"
    using assms(3) by (auto simp: data_of_def)
  have "count_down prim q is_sync cb (w, []) = Some (False, cb (pushed q x w, []))"
    unfolding count_down_def using ne lq
    by (simp add: atomics count_down_loop.simps queue_simps upd_prim pushed_def x_def to_anchor_ptr_def addr_of_def Let_def)
  with push_well_formed [OF qu assms(2) xv(1)] xv show ?thesis
    by auto
qed

section \<open>A full round of the barrier\<close>

fun arrive_all :: "usize \<Rightarrow> bool \<Rightarrow> usize list \<Rightarrow> sys \<Rightarrow> sys option" where
  "arrive_all prim is_sync [] s = Some s"
| "arrive_all prim is_sync (q # qs) s =
     do { (_, s) \<leftarrow> count_down prim q is_sync id s; arrive_all prim is_sync qs s }"

lemma fresh_unchanged: "fresh_entry w q \<Longrightarrow> unchanged A w w' \<Longrightarrow> q \<notin> A \<Longrightarrow> fresh_entry w' q"
  by (auto simp: fresh_entry_def unchanged_def)

lemma arrivals:
  "well_formed w qs \<Longrightarrow> \<not> locked (prim_state w) \<Longrightarrow> unat (data_of (prim_state w)) = length ps + 1 \<Longrightarrow>
   distinct (ps @ [q]) \<Longrightarrow> \<forall>p \<in> set (ps @ [q]). fresh_entry w p \<Longrightarrow>
   \<exists>w'. arrive_all prim is_sync (ps @ [q]) (w, []) = Some (w', []) \<and>
     prim_state w' = of_nat (length (qs @ ps) + 1) \<and> has_result 1 w' q \<and>
     (\<forall>p \<in> set (qs @ ps). has_result 0 w' p)"
proof (induction ps arbitrary: w qs)
  case Nil
  then have "data_of (prim_state w) = 1"
    by (simp add: word_unat_eq_iff)
  with last_arrival [of w qs q prim is_sync id] completed_effect [of w qs q] Nil show ?case
    by (auto simp: well_formed_def)
next
  case (Cons p ps)
  obtain w1 where w1: "count_down prim p is_sync id (w, []) = Some (False, (w1, []))"
    "well_formed w1 (qs @ [p])" "\<not> locked (prim_state w1)"
    "data_of (prim_state w1) = data_of (prim_state w) - 1" "unchanged {p} w w1"
    using early_arrival [of w qs p prim is_sync id] Cons.prems by auto
  have "1 \<le> data_of (prim_state w)"
    using Cons.prems(3) by (simp add: word_le_nat_alt)
  then have "unat (data_of (prim_state w1)) = length ps + 1"
    using w1(4) Cons.prems(3) by (simp add: unat_sub)
  moreover have "\<forall>p' \<in> set (ps @ [q]). fresh_entry w1 p'"
    using Cons.prems(4,5) fresh_unchanged [OF _ w1(5)] by auto
  ultimately obtain w' where "arrive_all prim is_sync (ps @ [q]) (w1, []) = Some (w', [])"
     "prim_state w' = of_nat (length ((qs @ [p]) @ ps) + 1)" "has_result 1 w' q"
     "\<forall>p' \<in> set ((qs @ [p]) @ ps). has_result 0 w' p'"
    using Cons.IH [OF w1(2,3)] Cons.prems(4) by auto
  with w1(1) show ?case
    by auto
qed

text \<open>A full round of a barrier: if it counts as many tasks as arrive, every arrival but the last waits,
  and the last one gives every waiting task the result 0 and itself the result 1, so that exactly one task
  is told it is the last; the counter is then what it was before the round.\<close>

theorem barrier_round:
  assumes "well_formed w []" "\<not> locked (prim_state w)" "unat (data_of (prim_state w)) = length ps + 1"
    and "distinct (ps @ [q])" "\<forall>p \<in> set (ps @ [q]). fresh_entry w p"
  shows "\<exists>w'. arrive_all prim is_sync (ps @ [q]) (w, []) = Some (w', []) \<and>
     prim_state w' = prim_state w \<and> has_result 1 w' q \<and> (\<forall>p \<in> set ps. has_result 0 w' p)"
proof -
  have "addr_of (prim_state w) = 0"
    using assms(1) queue_empty_iff by (auto simp: well_formed_def)
  then have "prim_state w = data_of (prim_state w)"
    using assms(2) small_views [OF data_of_le] by - (rule state_eqI, simp_all)
  then have "prim_state w = of_nat (length ps + 1)"
    using assms(3) by (metis of_nat_unat ucast_id)
  with arrivals [OF assms(1-5), of prim is_sync] show ?thesis
    by simp
qed

text \<open>A barrier for two tasks whose wait queues are at the addresses 128 and 384.\<close>

definition two_arrivals :: world where
  "two_arrivals =
     (let e = \<lparr>next_entry_anchor = 0, prev_entry = 0, opcode = Barrier False, entry_state = 0, pollable = False,
               monitor = Sync None, drop_callback = Barrier_drop, prim_addr = 0, offset = 64\<rparr>
      in \<lparr>prim_state = 2, anchors = [128 \<mapsto> - 1, 384 \<mapsto> - 1], entries = [192 \<mapsto> e, 448 \<mapsto> e], events = []\<rparr>)"

theorem barrier_round_witness:
  "\<exists>w'. arrive_all 0 True ([128] @ [384]) (two_arrivals, []) = Some (w', []) \<and>
     prim_state w' = prim_state two_arrivals \<and> has_result 1 w' 384 \<and> (\<forall>p \<in> set [128]. has_result 0 w' p)"
proof (rule barrier_round)
  show "well_formed two_arrivals []" "\<not> locked (prim_state two_arrivals)"
    "unat (data_of (prim_state two_arrivals)) = length [128 :: usize] + 1"
    "\<forall>p \<in> set ([128] @ [384]). fresh_entry two_arrivals p" "distinct ([128 :: usize] @ [384])"
    by code_simp+
qed

interpretation barrierp: sync_primitive MAX_TASKS
  by unfold_locales (simp add: MAX_TASKS_def mask_values)

interpretation barrier_result: sync_result barrier_to_result "\<lambda>v. Ok (v = 1)" id
  by unfold_locales (simp_all add: barrier_to_result_def)

section \<open>Cancelling a wait\<close>

lemma barrier_grants_all:
  assumes "n \<le> 62" "\<forall>opc \<in> set ops. opc = Barrier False"
  shows "granted 63 n ops = length ops \<and> transferred ops = 0"
  using assms(2) by (induction ops) (use assms(1) in \<open>auto simp: can_grant_def acquired_def desired_def\<close>)

text \<open>C38: when one of the tasks that wait at the barrier is cancelled while others have yet to arrive, all
  the other waiting tasks are released at once, with the result of a completed round, and the counter
  keeps the value it had: the queue processing that runs after the removal grants every barrier entry
  because it acquires nothing.\<close>

theorem barrier_cancel_wakes_others:
  assumes "represents w r" "in_use r \<le> 62" "\<forall>p \<in> set (line r). snd p = Barrier False" "q \<in> set (map fst (line r))"
  shows "\<exists>w'. barrier_drop_wait_queue_entry (entry_addr q) (w, []) = Some (w', []) \<and>
    represents w' \<lparr>in_use = in_use r, line = []\<rparr> \<and>
    (\<forall>p \<in> set (map fst (line r)) - {q}. has_result 0 w' p)"
proof -
  let ?ls = "filter (\<lambda>p. fst p \<noteq> q) (line r)"
  have "granted 63 (in_use r) (map snd ?ls) = length ?ls" "transferred (map snd ?ls) = 0"
    using barrier_grants_all [OF assms(2), of "map snd ?ls"] assms(3) by auto
  then have c: "spec_cancel 63 q r = \<lparr>in_use = in_use r, line = []\<rparr>"
    by (simp add: spec_cancel_def grant_def)
  have mt: "unat MAX_TASKS = 63"
    by (simp add: MAX_TASKS_def DATA_MASK_eq)
  obtain opc where "(q, opc) \<in> set (line r)"
    using assms(4) by auto
  from cancel_waiting [OF _ assms(1) this, of MAX_TASKS]
  obtain w' where w': "force_remove_wait_queue_entry MAX_TASKS (entry_addr q) (w, []) = Some (w', [])"
    "represents w' \<lparr>in_use = in_use r, line = []\<rparr>"
    "served (r\<lparr>line := ?ls\<rparr>) \<lparr>in_use = in_use r, line = []\<rparr> w'"
    unfolding mt c by auto
  have "set (map fst (line r)) - {q} \<subseteq> fst ` set ?ls"
    by auto
  with w'(3) have "\<forall>p \<in> set (map fst (line r)) - {q}. has_result 0 w' p"
    unfolding served_def by auto
  with w' show ?thesis
    by (auto simp: barrier_drop_wait_queue_entry_def)
qed

text \<open>A barrier for three tasks at which two wait, with their wait queues at 128 and 384.\<close>

definition two_at_barrier :: world where
  "two_at_barrier =
     (let e = \<lparr>next_entry_anchor = 0, prev_entry = 0, opcode = Barrier False, entry_state = 0, pollable = True,
               monitor = Sync None, drop_callback = Barrier_drop, prim_addr = 0, offset = 64\<rparr>
      in \<lparr>prim_state = 385, anchors = [128 \<mapsto> - 1, 384 \<mapsto> - 1],
          entries = [192 \<mapsto> e, 448 \<mapsto> e\<lparr>next_entry_anchor := 128\<rparr>], events = []\<rparr>)"

theorem barrier_cancel_wakes_others_witness:
  "\<exists>w'. barrier_drop_wait_queue_entry (entry_addr 384) (two_at_barrier, []) = Some (w', []) \<and> has_result 0 w' 128"
proof -
  let ?r = "\<lparr>in_use = 1, line = [(128, Barrier False), (384, Barrier False)]\<rparr>"
  have "represents two_at_barrier ?r"
    by code_simp
  then show ?thesis
    using barrier_cancel_wakes_others [of two_at_barrier ?r 384] by auto
qed

end
