(* ===== verification/Barrier_Waiting.thy ===== *)
theory Barrier_Waiting
  imports Barrier_Primitive Blocking_Wait
begin

text \<open>
  Tasks at the barrier: \<open>Barrier::wait_sync\<close> and \<open>Barrier::wait_async\<close> from the first look at the counter to the end of
  the wait queue, while the other tasks of the round arrive at arbitrary moments.
\<close>

section \<open>The other tasks\<close>

definition arrive :: "usize \<Rightarrow> usize \<Rightarrow> world \<Rightarrow> world" where
  "arrive prim p w = (case count_down prim p True id (w, []) of Some (_, (w', _)) \<Rightarrow> w' | None \<Rightarrow> w)"

text \<open>Between two accesses of a task nothing happens or another task arrives.\<close>

definition happens :: "usize \<Rightarrow> usize option \<Rightarrow> world \<Rightarrow> world" where
  "happens prim a = (case a of None \<Rightarrow> id | Some p \<Rightarrow> arrive prim p)"

fun comers :: "usize option list \<Rightarrow> usize list" where
  "comers [] = []"
| "comers (None # as) = comers as"
| "comers (Some p # as) = p # comers as"

text \<open>The tasks \<open>qs\<close> wait, and exactly the tasks \<open>ps\<close> are still to arrive in this round.\<close>

definition at_barrier :: "usize list \<Rightarrow> usize list \<Rightarrow> world \<Rightarrow> bool" where
  "at_barrier qs ps w \<longleftrightarrow> well_formed w qs \<and> \<not> locked (prim_state w) \<and> unat (data_of (prim_state w)) = length ps \<and>
     distinct ps \<and> (\<forall>p \<in> set ps. fresh_entry w p)"

text \<open>The round is over: the counter is set for the next one, the task \<open>l\<close> is told that it was the last, the tasks in
  \<open>A\<close> that they were not.\<close>

definition round_over :: "nat \<Rightarrow> usize set \<Rightarrow> usize \<Rightarrow> world \<Rightarrow> bool" where
  "round_over n A l w \<longleftrightarrow> prim_state w = of_nat n \<and> has_result 1 w l \<and> (\<forall>p \<in> A. has_result 0 w p)"

lemma happens_simps [simp]: "happens prim None = id" "happens prim (Some p) = arrive prim p"
  by (simp_all add: happens_def)

lemma comers_none: "comers as = [] \<Longrightarrow> e \<in> set (map (happens prim) as) \<Longrightarrow> e = id"
  by (induction as rule: comers.induct) auto

lemma at_barrier_swap: "at_barrier qs (p # q # ps) w = at_barrier qs (q # p # ps) w"
  by (auto simp: at_barrier_def)

lemma at_barrier_last:
  assumes "at_barrier qs [p] w"
  shows "queue w qs" "fresh_entry w p" "data_of (prim_state w) = 1"
  using assms by (auto simp: at_barrier_def well_formed_def word_unat_eq_iff)

lemma arrive_last:
  assumes "at_barrier qs [p] w"
  shows "arrive prim p w = completed p qs w" "round_over (length qs + 1) (set qs) p (arrive prim p w)"
proof -
  note l = at_barrier_last [OF assms]
  show "arrive prim p w = completed p qs w"
    using last_arrival [OF l, of prim True id] by (simp add: arrive_def)
  with completed_effect [OF l(1,2)] show "round_over (length qs + 1) (set qs) p (arrive prim p w)"
    by (simp add: round_over_def)
qed

lemma at_barrier_many:
  assumes "at_barrier qs (p # ps) w" "ps \<noteq> []"
  shows "2 \<le> unat (data_of (prim_state w))"
  using assms by (cases ps) (auto simp: at_barrier_def)

lemma joined_barrier:
  assumes b: "at_barrier qs (p # ps) w" and wf: "well_formed w' (qs @ [p])" "\<not> locked (prim_state w')"
    and d: "data_of (prim_state w') = data_of (prim_state w) - 1" and u: "unchanged {p} w w'"
  shows "at_barrier (qs @ [p]) ps w'"
proof -
  have "1 \<le> data_of (prim_state w)" "unat (data_of (prim_state w)) = Suc (length ps)"
    using b by (auto simp: at_barrier_def word_le_nat_alt)
  then have "unat (data_of (prim_state w')) = length ps"
    using d by (simp add: unat_sub)
  moreover have "\<forall>x \<in> set ps. fresh_entry w' x"
    using b fresh_unchanged [OF _ u] by (auto simp: at_barrier_def)
  ultimately show ?thesis
    using b wf by (simp add: at_barrier_def)
qed

lemma arrive_early:
  assumes "at_barrier qs (p # ps) w" "ps \<noteq> []"
  shows "at_barrier (qs @ [p]) ps (arrive prim p w)" "unchanged {p} w (arrive prim p w)"
    "prim_state (arrive prim p w) \<noteq> prim_state w"
proof -
  have a: "well_formed w qs" "fresh_entry w p" "\<not> locked (prim_state w)"
    using assms(1) by (auto simp: at_barrier_def)
  obtain w' where w': "count_down prim p True id (w, []) = Some (False, (w', []))"
    "well_formed w' (qs @ [p])" "\<not> locked (prim_state w')"
    "data_of (prim_state w') = data_of (prim_state w) - 1" "unchanged {p} w w'"
    using early_arrival [OF a(1,2) at_barrier_many [OF assms] a(3), of prim True id] by auto
  then have e: "arrive prim p w = w'"
    by (simp add: arrive_def)
  show "at_barrier (qs @ [p]) ps (arrive prim p w)" "unchanged {p} w (arrive prim p w)"
    using joined_barrier [OF assms(1) w'(2-5)] w'(5) by (simp_all add: e)
  show "prim_state (arrive prim p w) \<noteq> prim_state w"
    using w'(4) by (auto simp: e)
qed

section \<open>Waiting\<close>

definition waits_at :: "bool \<Rightarrow> usize \<Rightarrow> world \<Rightarrow> bool" where
  "waits_at b q w \<longleftrightarrow> is_sync_entry w q = b \<and> (\<exists>qs ps. at_barrier qs ps w \<and> q \<in> set qs)"

definition let_through :: "bool \<Rightarrow> nat \<Rightarrow> usize set \<Rightarrow> usize \<Rightarrow> usize \<Rightarrow> world \<Rightarrow> bool" where
  "let_through b n A l q w \<longleftrightarrow> is_sync_entry w q = b \<and> round_over n A l w"

lemma at_barrier_waiting: "at_barrier qs ps w \<Longrightarrow> q \<in> set qs \<Longrightarrow> waiting w q"
  using queue_facts(2) by (auto simp: at_barrier_def well_formed_def)

lemma at_barrier_polls:
  assumes "at_barrier qs ps w" "q \<in> set qs" "polls q w w'"
  shows "at_barrier qs ps w'"
proof -
  have "fresh_entry w' p" if "p \<in> set ps" for p
  proof -
    have "fresh_entry w p" "p \<noteq> q"
      using assms(1) that at_barrier_waiting [OF assms(1,2)] by (auto simp: at_barrier_def fresh_entry_def waiting_def)
    then show ?thesis
      using fresh_unchanged [of w p "{q}" w'] assms(3) by (simp add: polls_def)
  qed
  then show ?thesis
    using assms well_formed_polls [of w qs q w'] by (simp add: at_barrier_def polls_def)
qed

lemma handover_barrier:
  assumes "q \<in> insert l A" "q \<in> A \<longrightarrow> l \<noteq> q"
  shows "handover (waits_at b q) (let_through b n A l q) (if l = q then 1 else 0) q"
  unfolding handover_def
proof (intro conjI allI impI)
  fix w w'
  show "waiting w q" if "waits_at b q w"
    using that at_barrier_waiting by (auto simp: waits_at_def)
  show "has_result (if l = q then 1 else 0) w q" if "let_through b n A l q w"
    using that assms by (auto simp: let_through_def round_over_def)
  show "waits_at b q w'" if "polls q w w'" "waits_at b q w"
    using that at_barrier_polls unfolding waits_at_def by (metis polls_def)
  show "let_through b n A l q w'" if "polls q w w'" "let_through b n A l q w"
    using that has_result_polls [OF that(1)] by (auto simp: let_through_def round_over_def polls_def)
qed

lemma expects_round:
  assumes "at_barrier qs (comers as) w" "comers as \<noteq> []" "q \<in> set qs" "is_sync_entry w q = b"
    and "n = length qs + length (comers as)" "A = set qs \<union> set (butlast (comers as))" "l = last (comers as)"
  shows "expects (waits_at b q) (let_through b n A l q) q (w, map (happens prim) as)"
  using assms
proof (induction as arbitrary: w qs)
  case (Cons a as)
  let ?G = "waits_at b q" and ?H = "let_through b n A l q"
  have g: "?G w"
    using Cons.prems by (auto simp: waits_at_def)
  have nl: "l \<noteq> q"
    using Cons.prems(1,2,3,7) at_barrier_waiting [OF Cons.prems(1,3)] last_in_set [of "comers (a # as)"]
    by (auto simp: at_barrier_def fresh_entry_def waiting_def)
  have ho: "handover ?G ?H 0 q"
    using handover_barrier [of q l A b n] nl Cons.prems(3,6) by simp
  have "expects ?G ?H q (happens prim a w', map (happens prim) as) \<and> (?H w' \<longrightarrow> ?H (happens prim a w'))"
    if po: "polls q w w'" for w'
  proof -
    have b': "at_barrier qs (comers (a # as)) w'" and k': "is_sync_entry w' q = b"
      using at_barrier_polls [OF Cons.prems(1,3) po] Cons.prems(4) po by (simp_all add: polls_def)
    have nh: "\<not> ?H w'"
      using handover_facts(2) [OF ho] at_barrier_waiting [OF b' Cons.prems(3)] not_finalized [of w' q] by (auto simp: has_result_def)
    have "expects ?G ?H q (happens prim a w', map (happens prim) as)"
    proof (cases a)
      case None
      then show ?thesis
        using Cons.IH [of qs w'] Cons.prems b' k' by simp
    next
      case (Some p)
      show ?thesis
      proof (cases "comers as = []")
        case True
        then have o: "at_barrier qs [p] w'" "n = length qs + 1" "A = set qs" "l = p"
          using b' Some Cons.prems(5-7) by auto
        note e = arrive_last [OF o(1), of prim] and c = completed_effect(5) [OF at_barrier_last(1,2) [OF o(1)]]
        have "live w' q"
          using at_barrier_waiting [OF b' Cons.prems(3)] by (simp add: waiting_def)
        with e c k' o have "?H (arrive prim p w')"
          by (simp add: let_through_def)
        moreover have "\<forall>e \<in> set (map (happens prim) as). e = id"
          using comers_none [OF True] by blast
        ultimately show ?thesis
          using expects_idle [OF ho] Some by simp
      next
        case False
        have b2: "at_barrier qs (p # comers as) w'"
          using b' Some by simp
        note e = arrive_early [OF b2 False, of prim]
        have "live w' q" "q \<notin> {p}"
          using at_barrier_waiting [OF b' Cons.prems(3)] b2 by (auto simp: waiting_def at_barrier_def fresh_entry_def)
        then have "is_sync_entry (arrive prim p w') q = b"
          using e(2) k' by (simp add: unchanged_def is_sync_entry_def)
        then show ?thesis
          using Cons.IH [OF e(1) False] Cons.prems Some False by (simp add: Un_assoc)
      qed
    qed
    with nh show ?thesis by blast
  qed
  with g show ?case by simp
qed simp

section \<open>The arrival of the task\<close>

text \<open>Either the task itself is the last one to arrive or the last of the others is.\<close>

definition one_last :: "usize \<Rightarrow> usize list \<Rightarrow> usize list \<Rightarrow> usize set \<Rightarrow> usize \<Rightarrow> bool" where
  "one_last q qs ps A l \<longleftrightarrow>
     l = q \<and> A = set qs \<union> set ps \<or>
     ps \<noteq> [] \<and> l = last ps \<and> l \<noteq> q \<and> A = insert q (set qs \<union> set (butlast ps))"

lemma one_last_Cons: "one_last q (qs @ [p]) ps A l \<Longrightarrow> one_last q qs (p # ps) A l"
  by (auto simp: one_last_def)

lemma count_down_meets:
  assumes "live w q" "2 \<le> unat (data_of (prim_state w))"
  shows "count_down_loop prim q b id (prim_state w) (w, e # es) =
    (let w1 = e (upd q (\<lambda>x. x\<lparr>next_entry_anchor := addr_of (prim_state w)\<rparr>) w);
         x = ((prim_state w - 1) AND NOT ADDR_MASK) OR anchor_addr q
     in if prim_state w1 = prim_state w
        then do { p \<leftarrow> entry q (w1\<lparr>prim_state := x\<rparr>, es); s \<leftarrow> set_pollable p (w1\<lparr>prim_state := x\<rparr>, es); Some (False, s) }
        else count_down_loop prim q b id (prim_state w1) (w1, es))"
proof -
  have "prim_state w AND DATA_MASK \<noteq> 0" "prim_state w AND DATA_MASK \<noteq> 1"
    using assms(2) by (auto simp: data_of_def)
  then show ?thesis
    using assms(1)
    by (subst count_down_loop.simps) (simp add: queue_simps compare_exchange_def to_anchor_ptr_def addr_of_def Let_def)
qed

lemma linked_barrier:
  assumes "at_barrier qs (q # ps) w"
  shows "at_barrier qs (q # ps) (upd q (\<lambda>x. x\<lparr>next_entry_anchor := a\<rparr>) w)"
    "is_sync_entry (upd q (\<lambda>x. x\<lparr>next_entry_anchor := a\<rparr>) w) q = is_sync_entry w q"
proof -
  let ?w = "upd q (\<lambda>x. x\<lparr>next_entry_anchor := a\<rparr>) w"
  have wf: "well_formed w qs" and fr: "fresh_entry w q" and l: "live w q"
    using assms by (auto simp: at_barrier_def fresh_entry_def)
  have u: "unchanged {q} w ?w"
    using l by (simp add: unchanged_def)
  have "q \<notin> set qs"
    using fresh_not_queued [OF _ fr] wf by (simp add: well_formed_def)
  then have "well_formed ?w qs"
    by (intro well_formed_unchanged(1) [OF wf u]) simp_all
  moreover have "fresh_entry ?w q"
    using fr l by (simp add: fresh_entry_def)
  moreover have "\<forall>p \<in> set ps. fresh_entry ?w p"
    using assms fresh_unchanged [OF _ u] by (auto simp: at_barrier_def)
  ultimately show "at_barrier qs (q # ps) ?w"
    using assms by (simp add: at_barrier_def)
  show "is_sync_entry ?w q = is_sync_entry w q"
    using l by (simp add: is_sync_entry_def)
qed

lemma count_down_pushes:
  assumes b: "at_barrier qs (q # ps) w" and ne: "ps \<noteq> []"
  shows "\<exists>w'. count_down_loop prim q b id (prim_state w) (w, id # es) = Some (False, (w', es)) \<and>
    at_barrier (qs @ [q]) ps w' \<and> is_sync_entry w' q = is_sync_entry w q"
proof -
  let ?x = "((prim_state w - 1) AND NOT ADDR_MASK) OR anchor_addr q"
  have qu: "queue w qs" and fr: "fresh_entry w q" and l: "live w q" and nl: "\<not> locked (prim_state w)"
    using b by (auto simp: at_barrier_def well_formed_def fresh_entry_def)
  note two = at_barrier_many [OF b ne]
  then have "1 \<le> data_of (prim_state w)"
    by (simp add: word_le_nat_alt)
  note sv = sub_data_views [OF this]
  have xv: "addr_of ?x = anchor_addr q" "\<not> locked ?x" "data_of ?x = data_of (prim_state w) - 1"
    using replace_addr_views [of "anchor_addr q" "prim_state w - 1"] sv nl l by auto
  note p = push_well_formed [OF qu fr xv(1)]
  have "count_down_loop prim q b id (prim_state w) (w, id # es) = Some (False, (pushed q ?x w, es))"
    using count_down_meets [OF l two, of prim b id es] l by (simp add: queue_simps upd_prim pushed_def Let_def)
  moreover have "at_barrier (qs @ [q]) ps (pushed q ?x w)"
    using joined_barrier [OF b p(1)] p(3,5) xv by simp
  moreover have "is_sync_entry (pushed q ?x w) q = is_sync_entry w q"
    using l by (simp add: is_sync_entry_def pushed_def)
  ultimately show ?thesis by blast
qed

lemma count_down_retries:
  assumes b: "at_barrier qs (q # p # ps) w"
  shows "\<exists>w'. count_down_loop prim q b id (prim_state w) (w, arrive prim p # es) =
      count_down_loop prim q b id (prim_state w') (w', es) \<and>
    at_barrier (qs @ [p]) (q # ps) w' \<and> is_sync_entry w' q = is_sync_entry w q"
proof -
  let ?w = "upd q (\<lambda>x. x\<lparr>next_entry_anchor := addr_of (prim_state w)\<rparr>) w"
  have l: "live w q" "live ?w q" "q \<notin> {p}"
    using b by (auto simp: at_barrier_def fresh_entry_def)
  note k = linked_barrier [OF b, of "addr_of (prim_state w)"]
  note e = arrive_early [OF k(1) [unfolded at_barrier_swap [of qs q p]], of prim]
  have "is_sync_entry (arrive prim p ?w) q = is_sync_entry w q"
    using e(2) l k(2) by (simp add: unchanged_def is_sync_entry_def)
  moreover have "prim_state ?w = prim_state w"
    by simp
  ultimately show ?thesis
    using count_down_meets [OF l(1) at_barrier_many [OF b], of prim b "arrive prim p" es] e by (auto simp: Let_def)
qed

lemma count_down_closes:
  assumes b: "at_barrier qs [q] w" and k: "is_sync_entry w q = b" and none: "comers as = []"
  shows "\<exists>w' es' l A. count_down_loop prim q b id (prim_state w) (w, map (happens prim) as) = Some (False, (w', es')) \<and>
    is_sync_entry w' q = b \<and> one_last q qs [] A l \<and>
    expects (waits_at b q) (let_through b (length qs + 1) A l q) q (w', es')"
proof -
  let ?es = "map (happens prim) as"
  have id: "\<forall>e \<in> set ?es. e = id"
    using comers_none [OF none] by blast
  then have id': "\<forall>e \<in> set (tl (tl ?es)). e = id"
    by (cases ?es; cases "tl ?es") auto
  note f = at_barrier_last [OF b]
  note c = completed_effect [OF f(1,2)]
  have "live w q" and nq: "q \<notin> set qs"
    using f(2) fresh_not_queued [OF f(1,2)] by (simp_all add: fresh_entry_def)
  with c k have h: "let_through b (length qs + 1) (set qs) q q (completed q qs w)" "is_sync_entry (completed q qs w) q = b"
    by (simp_all add: let_through_def round_over_def)
  have "expects (waits_at b q) (let_through b (length qs + 1) (set qs) q q) q (completed q qs w, tl (tl ?es))"
    by (rule expects_idle [OF handover_barrier id' h(1)]) (use nq in simp_all)
  moreover have "one_last q qs [] (set qs) q"
    by (simp add: one_last_def)
  ultimately show ?thesis
    using last_arrival_idle [OF f id, of prim b id] h(2) by blast
qed

lemma count_down_arrives:
  assumes "at_barrier qs (q # comers as) w" "is_sync_entry w q = b"
  shows "\<exists>w' es' l A. count_down_loop prim q b id (prim_state w) (w, map (happens prim) as) = Some (False, (w', es')) \<and>
    is_sync_entry w' q = b \<and> one_last q qs (comers as) A l \<and>
    expects (waits_at b q) (let_through b (length qs + length (comers as) + 1) A l q) q (w', es')"
  using assms
proof (induction as arbitrary: w qs)
  case Nil
  then show ?case
    using count_down_closes [of qs q w b "[]" prim] by simp (simp add: id_def)
next
  case (Cons a as)
  show ?case
  proof (cases a)
    case None
    show ?thesis
    proof (cases "comers as = []")
      case True
      with None Cons.prems show ?thesis
        using count_down_closes [of qs q w b "a # as" prim] by simp (simp add: id_def)
    next
      case False
      let ?A = "set (qs @ [q]) \<union> set (butlast (comers as))" and ?n = "length qs + length (comers as) + 1"
      obtain w' where w': "count_down_loop prim q b id (prim_state w) (w, id # map (happens prim) as) = Some (False, (w', map (happens prim) as))"
        "at_barrier (qs @ [q]) (comers as) w'" "is_sync_entry w' q = b"
        using count_down_pushes [OF _ False, of qs q w prim b "map (happens prim) as"] Cons.prems None by auto
      have "expects (waits_at b q) (let_through b ?n ?A (last (comers as)) q) q (w', map (happens prim) as)"
        by (rule expects_round [OF w'(2) False _ w'(3)]) simp_all
      moreover have "one_last q qs (comers as) ?A (last (comers as))"
        using False Cons.prems(1) None last_in_set [OF False] by (auto simp: one_last_def at_barrier_def)
      ultimately show ?thesis
        using w'(1,3) None by (auto simp: id_def)
    qed
  next
    case (Some p)
    obtain w' where w': "count_down_loop prim q b id (prim_state w) (w, arrive prim p # map (happens prim) as) =
        count_down_loop prim q b id (prim_state w') (w', map (happens prim) as)"
      "at_barrier (qs @ [p]) (q # comers as) w'" "is_sync_entry w' q = b"
      using count_down_retries [of qs q p "comers as" w prim b "map (happens prim) as"] Cons.prems Some by auto
    obtain v es' l A where v: "count_down_loop prim q b id (prim_state w') (w', map (happens prim) as) = Some (False, (v, es'))"
      "is_sync_entry v q = b" "one_last q (qs @ [p]) (comers as) A l"
      "expects (waits_at b q) (let_through b (length (qs @ [p]) + length (comers as) + 1) A l q) q (v, es')"
      using Cons.IH [OF w'(2,3)] by blast
    have "count_down_loop prim q b id (prim_state w) (w, map (happens prim) (a # as)) = Some (False, (v, es'))"
      using w'(1) v(1) Some by simp
    moreover have "one_last q qs (comers (a # as)) A l"
      using one_last_Cons [OF v(3)] Some by simp
    moreover have "length (qs @ [p]) + length (comers as) + 1 = length qs + length (comers (a # as)) + 1"
      using Some by simp
    ultimately show ?thesis
      using v(2,4) by metis
  qed
qed

section \<open>The blocking calls\<close>

definition barrier_wait :: "bool \<Rightarrow> usize \<Rightarrow> task \<Rightarrow> usize \<Rightarrow> sys \<Rightarrow> (bool \<times> sys) option" where
  "barrier_wait is_sync = (if is_sync then wait_sync else wait_async)"

definition barrier_poll :: "bool \<Rightarrow> task \<Rightarrow> usize \<Rightarrow> sys \<Rightarrow> ((bool, pager_error) result \<times> sys) option" where
  "barrier_poll is_sync = (if is_sync then poll_sync barrier_to_result else poll_async barrier_to_result)"

lemma barrier_wait_once:
  assumes "construct q prim Barrier_drop (Barrier False) b (wait_queue_default q s) = Some s1"
    and "count_down prim q b id s1 = Some (False, s2)" "barrier_poll b t q s2 = Some (r, s3)"
    and "wait_queue_drop (\<lambda>_. barrier_drop_wait_queue_entry) q s3 = Some s4"
  shows "barrier_wait b prim t q s = Some (unwrap_or_false r, s4)"
proof (cases b)
  case True
  then have "wait_sync_loop prim t q id (wait_queue_default q s) = Some (unwrap_or_false r, s3)"
    using assms by (subst wait_sync_loop.simps) (simp add: barrier_poll_def)
  with True assms(4) show ?thesis
    by (simp add: barrier_wait_def wait_sync_def wait_sync_with_def)
next
  case False
  then have "wait_async_loop prim t q id (wait_queue_default q s) = Some (unwrap_or_false r, s3)"
    using assms by (subst wait_async_loop.simps) (simp add: barrier_poll_def)
  with False assms(4) show ?thesis
    by (simp add: barrier_wait_def wait_async_def wait_async_with_def)
qed

lemma barrier_poll_returns:
  assumes "expects (waits_at b q) (let_through b n A l q) q (w, es)" "is_sync_entry w q = b"
    and "q \<in> insert l A" "q \<in> A \<longrightarrow> l \<noteq> q"
  shows "\<exists>u es'. barrier_poll b t q (w, es) = Some (Ok (l = q), (consume q u, es')) \<and> let_through b n A l q u"
proof -
  note ho = handover_barrier [OF assms(3,4), of b n]
  have r: "(if l = q then 1 else 0) \<noteq> ERROR_WRONG_MODE" and v: "((if l = q then 1 else 0) = (1 :: u8)) = (l = q)"
    by (simp_all add: ERROR_WRONG_MODE_def)
  show ?thesis
  proof (cases b)
    case True
    with barrier_result.poll_sync_returns [OF ho assms(1) _ r, of t] assms(2) show ?thesis
      unfolding v by (simp add: barrier_poll_def)
  next
    case False
    then have "\<And>w. waits_at b q w \<or> let_through b n A l q w \<Longrightarrow> \<not> is_sync_entry w q"
      by (auto simp: waits_at_def let_through_def)
    from barrier_result.poll_async_returns [OF ho this assms(1) r, of t] False show ?thesis
      unfolding v by (simp add: barrier_poll_def)
  qed
qed

lemma count_down_starts:
  assumes "at_barrier qs (q # comers as) w" "is_sync_entry w q = b"
  shows "\<exists>w' es' l A. count_down prim q b id (w, map (happens prim) as) = Some (False, (w', es')) \<and>
    is_sync_entry w' q = b \<and> one_last q qs (comers as) A l \<and>
    expects (waits_at b q) (let_through b (length qs + length (comers as) + 1) A l q) q (w', es')"
proof (cases as rule: comers.cases)
  case 1
  then show ?thesis
    using count_down_arrives [OF assms, of prim] by (simp add: count_down_def load_def)
next
  case (2 as')
  then show ?thesis
    using count_down_arrives [of qs q as' w b prim] assms by (simp add: count_down_def load_def)
next
  case (3 p as')
  then have b: "at_barrier qs (p # q # comers as') w"
    using assms(1) at_barrier_swap by simp
  note e = arrive_early [OF b, of prim]
  have "live w q" "q \<notin> {p}"
    using b by (auto simp: at_barrier_def fresh_entry_def)
  then have "is_sync_entry (arrive prim p w) q = b"
    using e(2) assms(2) by (simp add: unchanged_def is_sync_entry_def)
  then show ?thesis
    using count_down_arrives [OF e(1), of b prim] 3 one_last_Cons by (fastforce simp: count_down_def load_def)
qed

lemma has_result_left:
  assumes "has_result r u p" "p \<noteq> q" "live u q"
  shows "has_result r (fst (wait_queue_free q (consume q u, es))) p"
proof -
  have "live (consume q u) q"
    using assms(3) by (simp add: consume_def)
  from unchanged_trans [OF unchanged_consume [OF assms(3)] free_entry(1) [OF this], of "{q}" es]
  have "unchanged {q} u (fst (wait_queue_free q (consume q u, es)))"
    by simp
  then show ?thesis
    using has_result_unchanged assms(1,2) by blast
qed

lemma barrier_leaves:
  assumes h: "let_through b n A l q x" and mem: "q \<in> insert l A" "q \<in> A \<longrightarrow> l \<noteq> q"
  shows "\<exists>w'. wait_queue_drop cb q (consume q x, es) = Some (w', es) \<and> prim_state w' = of_nat n \<and>
    entries w' (entry_addr q) = None \<and> (l \<noteq> q \<longrightarrow> has_result 1 w' l) \<and> (\<forall>p \<in> A - {q}. has_result 0 w' p)"
proof -
  let ?w = "fst (wait_queue_free q (consume q x, es))"
  have lx: "live x q"
    using h handover_facts(2) [OF handover_barrier [OF mem]] by (auto simp: has_result_def)
  then have lc: "live (consume q x) q" "\<not> pollable (node (consume q x) q)"
    by (simp_all add: consume_def)
  note f = free_entry [OF lc(1), of es]
  have "wait_queue_drop cb q (consume q x, es) = Some (?w, es)"
    using drop_acknowledged [OF lc, of cb es] f(4) by (simp add: prod_eq_iff)
  moreover have "prim_state ?w = of_nat n" "entries ?w (entry_addr q) = None"
    using f h by (simp_all add: let_through_def round_over_def consume_def unallocated_def)
  moreover have "l \<noteq> q \<longrightarrow> has_result 1 ?w l" "\<forall>p \<in> A - {q}. has_result 0 ?w p"
    using has_result_left [OF _ _ lx] h by (auto simp: let_through_def round_over_def)
  ultimately show ?thesis by blast
qed

text \<open>C14: \<open>wait_sync\<close> and \<open>wait_async\<close> return in every round: some tasks wait at the barrier already and the others that the
  counter expects arrive at arbitrary moments, before the caller looks, between its look and its exchange, or
  while it is parked.  Exactly one task is told that it was the last: the caller if all others came before, and
  otherwise the last of the others.  The counter is set for the next round and the wait queue of the
  caller is gone.\<close>

theorem barrier_wait_returns:
  assumes "well_formed w qs" "\<not> locked (prim_state w)" "unat (data_of (prim_state w)) = length (comers as) + 1"
    and "unallocated w q" "distinct (comers as)" "\<forall>p \<in> set (comers as). fresh_entry w p"
  shows "\<exists>b w' es'. barrier_wait is_sync prim t q (w, map (happens prim) as) = Some (b, (w', es')) \<and>
    prim_state w' = of_nat (length qs + length (comers as) + 1) \<and> entries w' (entry_addr q) = None \<and>
    (\<forall>p \<in> set qs. has_result 0 w' p) \<and>
    (if b then \<forall>p \<in> set (comers as). has_result 0 w' p
     else comers as \<noteq> [] \<and> has_result 1 w' (last (comers as)) \<and> (\<forall>p \<in> set (butlast (comers as)). has_result 0 w' p))"
proof -
  let ?n = "length qs + length (comers as) + 1" and ?es = "map (happens prim) as"
  obtain w1 where c: "construct q prim Barrier_drop (Barrier False) is_sync (wait_queue_default q (w, ?es)) = Some (w1, ?es)"
    and fr: "fresh_entry w1 q" "is_sync_entry w1 q = is_sync" and ps: "prim_state w1 = prim_state w" and u: "unchanged {} w w1"
    using construct_fresh [OF assms(4), of "Barrier False" prim Barrier_drop is_sync ?es] by auto
  have away: "\<not> live w q"
    using assms(4) by (auto simp: live_def unallocated_def)
  then have nq: "q \<notin> set (comers as)" "q \<notin> set qs"
    using assms(1,6) queue_facts(3) by (auto simp: fresh_entry_def well_formed_def)
  have "at_barrier qs (q # comers as) w1"
    using assms well_formed_unchanged(1) [OF assms(1) u] ps fr nq fresh_unchanged [OF _ u] by (simp add: at_barrier_def)
  from count_down_starts [OF this fr(2)]
  obtain w2 es2 l A where cd: "count_down prim q is_sync id (w1, ?es) = Some (False, (w2, es2))"
    and k: "is_sync_entry w2 q = is_sync" and one: "one_last q qs (comers as) A l"
    and ex: "expects (waits_at is_sync q) (let_through is_sync ?n A l q) q (w2, es2)"
    by blast
  have mem: "q \<in> insert l A" "q \<in> A \<longrightarrow> l \<noteq> q"
    using one nq by (auto simp: one_last_def)
  obtain x es3 where po: "barrier_poll is_sync t q (w2, es2) = Some (Ok (l = q), (consume q x, es3))"
    and h: "let_through is_sync ?n A l q x"
    using barrier_poll_returns [OF ex k mem] by blast
  obtain w' where w': "wait_queue_drop (\<lambda>_. barrier_drop_wait_queue_entry) q (consume q x, es3) = Some (w', es3)"
    "prim_state w' = of_nat ?n" "entries w' (entry_addr q) = None"
    and res: "l \<noteq> q \<longrightarrow> has_result 1 w' l" "\<forall>p \<in> A - {q}. has_result 0 w' p"
    using barrier_leaves [OF h mem] by blast
  from barrier_wait_once [OF c cd po w'(1)]
  have run: "barrier_wait is_sync prim t q (w, ?es) = Some (l = q, (w', es3))"
    by (simp add: unwrap_or_false_def)
  have all: "\<forall>p \<in> set qs. has_result 0 w' p"
    using res one nq by (auto simp: one_last_def)
  have "if l = q then \<forall>p \<in> set (comers as). has_result 0 w' p
     else comers as \<noteq> [] \<and> has_result 1 w' (last (comers as)) \<and> (\<forall>p \<in> set (butlast (comers as)). has_result 0 w' p)"
    using res one nq by (auto simp: one_last_def dest: in_set_butlastD)
  with run w' all show ?thesis by blast
qed

text \<open>Two tasks at the addresses 128 and 384; a third one waits for them at 640.\<close>

theorem barrier_wait_returns_witness:
  "\<exists>b w' es'. barrier_wait True 0 3 640 (two_arrivals\<lparr>prim_state := 3\<rparr>, map (happens 0) [None, Some 128, None, None, Some 384]) = Some (b, (w', es')) \<and>
     prim_state w' = 3"
proof -
  let ?w = "two_arrivals\<lparr>prim_state := 3\<rparr>" and ?as = "[None, Some 128, None, None, Some 384 :: usize option]"
  have "well_formed ?w []" "\<not> locked (prim_state ?w)" "unat (data_of (prim_state ?w)) = length (comers ?as) + 1"
    "unallocated ?w 640" "distinct (comers ?as)" "\<forall>p \<in> set (comers ?as). fresh_entry ?w p"
    by code_simp+
  from barrier_wait_returns [OF this, of True 0 3] show ?thesis
    by auto
qed

end
