(* ===== verification/Barrier_System.thy ===== *)
theory Barrier_System
  imports Barrier_Primitive Blocking_Wait
begin

text \<open>
  A barrier with any set of tasks as a transition system: a task allocates a wait queue, arrives
  (\<open>WaitQueue::construct\<close> and \<open>Barrier::count_down\<close>), polls its entry (\<open>Entry::poll_once\<close>), returns with the result and
  frees the wait queue; the tasks take these steps in any order and for any number of rounds.  No task is cancelled while
  it waits (\<open>barrier_cancel_wakes_others\<close> of \<open>Barrier_Primitive\<close> says what happens then), and an arrival is one step, so
  the case of \<open>count_down\<close> that meets a counter of 0 and retries does not come up.  The invariant ties the state
  word and the list to the rounds that the tasks have been through; \<open>Barrier_Runs\<close> draws the conclusions.
\<close>

section \<open>The system\<close>

text \<open>What the tasks have done: \<open>inside\<close> wait at the barrier, in the order of their arrival, \<open>told\<close> have a result that
  they have not taken yet; how often each task has arrived and has passed; how many rounds are complete, and how
  often a task was told that it was the last.\<close>

record rounds =
  inside :: "usize list"
  told :: "usize list"
  arrived :: "usize \<Rightarrow> nat"
  passed :: "usize \<Rightarrow> nat"
  complete :: nat
  lasts :: nat

type_synonym barrier_system = "world \<times> rounds"

definition tick :: "usize \<Rightarrow> (usize \<Rightarrow> nat) \<Rightarrow> usize \<Rightarrow> nat" where
  "tick q f = f(q := f q + 1)"

text \<open>After an arrival the entries tell who waits and who has a result.\<close>

definition after_arrival :: "world \<Rightarrow> usize \<Rightarrow> rounds \<Rightarrow> rounds" where
  "after_arrival w q g =
     g\<lparr>inside := filter (waiting w) (inside g @ [q]), told := told g @ filter (\<lambda>p. \<not> waiting w p) (inside g @ [q]),
       arrived := tick q (arrived g), complete := complete g + (if has_result 1 w q then 1 else 0)\<rparr>"

inductive barrier_step :: "usize set \<Rightarrow> barrier_system \<Rightarrow> barrier_system \<Rightarrow> bool" for Q where
  allocate: "q \<in> Q \<Longrightarrow> unallocated w q \<Longrightarrow> wait_queue_default q (w, []) = (w', []) \<Longrightarrow> barrier_step Q (w, g) (w', g)"
| arrive: "q \<in> Q \<Longrightarrow> blank w q \<or> idle w q \<Longrightarrow>
     construct q prim Barrier_drop (Barrier False) is_sync (w, []) = Some s \<Longrightarrow>
     count_down prim q is_sync id s = Some (retry, (w', [])) \<Longrightarrow>
     barrier_step Q (w, g) (w', after_arrival w' q g)"
| sleep: "q \<in> set (inside g @ told g) \<Longrightarrow> poll_once t (entry_addr q) (w, []) = Some (out, (w', [])) \<Longrightarrow>
     out \<in> {Again, Sleep} \<Longrightarrow> barrier_step Q (w, g) (w', g)"
| pass: "q \<in> set (inside g @ told g) \<Longrightarrow> poll_once t (entry_addr q) (w, []) = Some (Consumed r, (w', [])) \<Longrightarrow>
     barrier_step Q (w, g)
       (w', g\<lparr>told := remove1 q (told g), passed := tick q (passed g),
             lasts := lasts g + (if barrier_to_result r None = Ok True then 1 else 0)\<rparr>)"
| deallocate: "q \<in> Q \<Longrightarrow> blank w q \<or> idle w q \<Longrightarrow> wait_queue_drop (\<lambda>_. barrier_drop_wait_queue_entry) q (w, []) = Some (w', []) \<Longrightarrow>
     barrier_step Q (w, g) (w', g)"

definition new_barrier_system :: "usize \<Rightarrow> barrier_system" where
  "new_barrier_system n =
     (with_count n, \<lparr>inside = [], told = [], arrived = (\<lambda>_. 0), passed = (\<lambda>_. 0), complete = 0, lasts = 0\<rparr>)"

definition barrier_reachable :: "usize \<Rightarrow> usize set \<Rightarrow> barrier_system \<Rightarrow> bool" where
  "barrier_reachable n Q s \<longleftrightarrow> (barrier_step Q)\<^sup>*\<^sup>* (new_barrier_system n) s"

section \<open>The invariant\<close>

text \<open>The state word and the list agree with the books.\<close>

definition barrier_word :: "nat \<Rightarrow> world \<Rightarrow> rounds \<Rightarrow> bool" where
  "barrier_word n w g \<longleftrightarrow> n \<le> 63 \<and> well_formed w (inside g) \<and> \<not> locked (prim_state w) \<and>
     unat (data_of (prim_state w)) + length (inside g) = n \<and> length (inside g) < n \<and>
     distinct (told g) \<and> (\<forall>q \<in> set (told g). has_result 0 w q \<or> has_result 1 w q)"

text \<open>The rounds are counted right; \<open>k\<close> tasks have yet to take the result that they were the last.\<close>

definition barrier_counts :: "nat \<Rightarrow> usize set \<Rightarrow> nat \<Rightarrow> rounds \<Rightarrow> bool" where
  "barrier_counts n Q k g \<longleftrightarrow> set (inside g) \<union> set (told g) \<subseteq> Q \<and>
     sum (arrived g) Q = n * complete g + length (inside g) \<and> sum (passed g) Q + length (told g) = n * complete g \<and>
     lasts g + k = complete g \<and>
     (\<forall>q \<in> Q. arrived g q = passed g q + (if q \<in> set (inside g) \<union> set (told g) then 1 else 0)) \<and>
     (card Q = n \<longrightarrow> (\<forall>q \<in> Q. arrived g q = complete g + (if q \<in> set (inside g) then 1 else 0)))"

definition barrier_inv :: "nat \<Rightarrow> usize set \<Rightarrow> barrier_system \<Rightarrow> bool" where
  "barrier_inv n Q = (\<lambda>(w, g). barrier_word n w g \<and> barrier_counts n Q (length (filter (has_result 1 w) (told g))) g)"

lemma barrier_word_facts:
  assumes "barrier_word n w g"
  shows "queue w (inside g)" "distinct (inside g)" "q \<in> set (inside g) \<Longrightarrow> waiting w q"
    "q \<in> set (told g) \<Longrightarrow> live w q \<and> pollable (node w q)" "set (inside g) \<inter> set (told g) = {}"
proof -
  show qu: "queue w (inside g)"
    using assms by (simp add: barrier_word_def well_formed_def)
  then show "distinct (inside g)" and wt: "q \<in> set (inside g) \<Longrightarrow> waiting w q"
    using queue_facts(1,2) by blast+
  show "q \<in> set (told g) \<Longrightarrow> live w q \<and> pollable (node w q)"
    using assms by (auto simp: barrier_word_def has_result_def)
  show "set (inside g) \<inter> set (told g) = {}"
    using queue_facts(2) [OF qu] waiting_no_result assms by (fastforce simp: barrier_word_def)
qed

lemma barrier_counts_facts:
  assumes "barrier_counts n Q k g"
  shows "set (inside g) \<union> set (told g) \<subseteq> Q" "sum (arrived g) Q = n * complete g + length (inside g)"
    "sum (passed g) Q + length (told g) = n * complete g" "lasts g + k = complete g"
    "q \<in> Q \<Longrightarrow> arrived g q = passed g q + (if q \<in> set (inside g) \<union> set (told g) then 1 else 0)"
    "card Q = n \<Longrightarrow> q \<in> Q \<Longrightarrow> arrived g q = complete g + (if q \<in> set (inside g) then 1 else 0)"
  using assms unfolding barrier_counts_def by blast+

lemma told_unchanged:
  assumes "barrier_word n w g" "unchanged A w w'" "A \<inter> set qs = {}" "set qs \<subseteq> set (told g)"
  shows "q \<in> set qs \<Longrightarrow> has_result r w' q = has_result r w q"
    and "filter (has_result r w') qs = filter (has_result r w) qs"
proof -
  have e: "has_result r w' q = has_result r w q" if "q \<in> set qs" for q
  proof -
    have "live w q" "q \<notin> A"
      using barrier_word_facts(4) [OF assms(1)] assms(3,4) that by auto
    then show ?thesis
      using assms(2) by (simp add: unchanged_def has_result_def)
  qed
  then show "q \<in> set qs \<Longrightarrow> has_result r w' q = has_result r w q"
    and "filter (has_result r w') qs = filter (has_result r w) qs"
    by (auto intro: filter_cong)
qed

lemma barrier_inv_frame:
  assumes inv: "barrier_inv n Q (w, g)" and un: "unchanged A w w'" and away: "A \<inter> set (inside g @ told g) = {}"
    and word: "prim_state w' = prim_state w"
  shows "barrier_inv n Q (w', g)"
proof -
  have bw: "barrier_word n w g"
    using inv by (simp add: barrier_inv_def)
  have "A \<inter> set (told g) = {}"
    using away by auto
  note t = told_unchanged [OF bw un this subset_refl]
  have "well_formed w' (inside g)"
    by (rule well_formed_unchanged(1) [OF _ un]) (use bw away word in \<open>auto simp: barrier_word_def\<close>)
  then have "barrier_word n w' g"
    using bw t word by (auto simp: barrier_word_def)
  then show ?thesis
    using inv t by (simp add: barrier_inv_def)
qed

lemma unused_away:
  assumes "barrier_word n w g" "blank w q \<or> idle w q"
  shows "q \<notin> set (inside g @ told g)"
  using assms(2) barrier_word_facts(3,4) [OF assms(1), of q] by (auto simp: blank_def idle_def waiting_def live_def)

lemma barrier_inv_sleep:
  assumes inv: "barrier_inv n Q (w, g)" and q: "q \<in> set (inside g @ told g)"
    and po: "poll_once t (entry_addr q) (w, []) = Some (out, (w', []))" "out \<in> {Again, Sleep}"
  shows "barrier_inv n Q (w', g)"
proof -
  have bw: "barrier_word n w g"
    using inv by (simp add: barrier_inv_def)
  have "q \<notin> set (told g)"
  proof
    assume "q \<in> set (told g)"
    then obtain r where "has_result r w q"
      using bw by (auto simp: barrier_word_def)
    from poll_once_ready [OF this, of t] po show False by auto
  qed
  then have ins: "q \<in> set (inside g)"
    using q by simp
  have p: "polls q w w'"
    using poll_once_waiting [OF barrier_word_facts(3) [OF bw ins], of t] po(1) by auto
  then have un: "unchanged {q} w w'" and ps: "prim_state w' = prim_state w"
    by (simp_all add: polls_def)
  note t = told_unchanged [OF bw un, of "told g"]
  have "well_formed w' (inside g)"
    using well_formed_polls [OF _ p] bw by (simp add: barrier_word_def)
  then have "barrier_word n w' g"
    using bw t \<open>q \<notin> set (told g)\<close> ps by (auto simp: barrier_word_def)
  then show ?thesis
    using inv t \<open>q \<notin> set (told g)\<close> by (simp add: barrier_inv_def)
qed

lemma sum_tick: "finite Q \<Longrightarrow> q \<in> Q \<Longrightarrow> sum (tick q f) Q = Suc (sum f Q)"
  by (simp add: tick_def sum.remove [of Q q])

lemma tick_apply [simp]: "tick q f p = f p + (if p = q then 1 else 0)"
  by (simp add: tick_def)

lemma barrier_inv_pass:
  assumes inv: "barrier_inv n Q (w, g)" and fin: "finite Q" and q: "q \<in> set (inside g @ told g)"
    and po: "poll_once t (entry_addr q) (w, []) = Some (Consumed r, (w', []))"
  shows "barrier_inv n Q (w', g\<lparr>told := remove1 q (told g), passed := tick q (passed g),
     lasts := lasts g + (if barrier_to_result r None = Ok True then 1 else 0)\<rparr>)" (is "barrier_inv n Q (w', ?g)")
proof -
  have bw: "barrier_word n w g" and bc: "barrier_counts n Q (length (filter (has_result 1 w) (told g))) g"
    using inv by (simp_all add: barrier_inv_def)
  have ni: "q \<notin> set (inside g)"
    using poll_once_waiting [OF barrier_word_facts(3) [OF bw], of q t] po by auto
  then have tq: "q \<in> set (told g)"
    using q by simp
  then obtain x where x: "has_result x w q" "x \<in> {0, 1}"
    using bw by (auto simp: barrier_word_def)
  then have e: "r = x" "w' = consume q w" and l: "live w q"
    using poll_once_ready [OF x(1), of t] po by (auto simp: has_result_def)
  have un: "unchanged {q} w w'" and ps: "prim_state w' = prim_state w"
    using unchanged_consume [OF l] e by (simp_all add: consume_def)
  have dt: "distinct (told g)"
    using bw by (simp add: barrier_word_def)
  obtain ys zs where yz: "told g = ys @ q # zs" "told ?g = ys @ zs" "q \<notin> set (ys @ zs)"
    using split_list_first [OF tq] dt by (auto simp: remove1_append)
  have "{q} \<inter> set (told ?g) = {}" "set (told ?g) \<subseteq> set (told g)"
    using yz by auto
  note t = told_unchanged [OF bw un this]
  have "well_formed w' (inside g)"
    by (rule well_formed_unchanged(1) [OF _ un]) (use bw ni ps in \<open>auto simp: barrier_word_def\<close>)
  then have w: "barrier_word n w' ?g"
    using bw t(1) ps dt yz by (auto simp: barrier_word_def)
  have x1: "has_result 1 w q \<longleftrightarrow> x = 1"
    using x(1) by (auto simp: has_result_def)
  have k: "length (filter (has_result 1 w) (told g)) = length (filter (has_result 1 w') (told ?g)) + (if x = 1 then 1 else 0)"
    unfolding t(2) unfolding yz(2) unfolding yz(1) using x1 by simp
  have "barrier_counts n Q (length (filter (has_result 1 w') (told ?g))) ?g"
    using bc fin tq ni sum_tick [OF fin, of q "passed g"] yz dt unfolding k
    by (auto simp: barrier_counts_def barrier_to_result_def e(1))
  with w show ?thesis
    by (simp add: barrier_inv_def)
qed

lemma early_inv:
  assumes inv: "barrier_inv n Q (w, g)" and fin: "finite Q" and q: "q \<in> Q" "q \<notin> set (inside g @ told g)"
    and room: "length (inside g) + 1 < n"
    and w': "well_formed w' (inside g @ [q])" "\<not> locked (prim_state w')" "unat (data_of (prim_state w')) + 1 = unat (data_of (prim_state w))"
    and un: "unchanged {q} w w'"
  shows "barrier_inv n Q (w', after_arrival w' q g)"
proof -
  have bw: "barrier_word n w g" and bc: "barrier_counts n Q (length (filter (has_result 1 w) (told g))) g"
    using inv by (simp_all add: barrier_inv_def)
  have wt: "waiting w' p" if "p \<in> set (inside g @ [q])" for p
    using w'(1) queue_facts(2) that by (auto simp: well_formed_def)
  then have "filter (waiting w') (inside g @ [q]) = inside g @ [q]" "filter (\<lambda>p. \<not> waiting w' p) (inside g @ [q]) = []"
    unfolding filter_id_conv filter_empty_conv by auto
  then have e: "after_arrival w' q g = g\<lparr>inside := inside g @ [q], arrived := tick q (arrived g)\<rparr>" (is "_ = ?g")
    using waiting_no_result [OF wt [of q]] by (simp add: after_arrival_def)
  have "{q} \<inter> set (told g) = {}"
    using q(2) by auto
  note t = told_unchanged [OF bw un this subset_refl]
  have "barrier_word n w' ?g"
    using bw w' room t by (auto simp: barrier_word_def)
  moreover have "barrier_counts n Q (length (filter (has_result 1 w) (told g))) ?g"
    using bc q sum_tick [OF fin q(1), of "arrived g"] by (auto simp: barrier_counts_def)
  ultimately show ?thesis
    using t by (simp add: e barrier_inv_def)
qed

lemma last_inv:
  assumes inv: "barrier_inv n Q (w, g)" and fin: "finite Q" and q: "q \<in> Q" "q \<notin> set (inside g @ told g)" "fresh_entry w q"
    and full: "length (inside g) + 1 = n"
  defines "w' \<equiv> completed q (inside g) w"
  shows "barrier_inv n Q (w', after_arrival w' q g)"
proof -
  have bw: "barrier_word n w g" and bc: "barrier_counts n Q (length (filter (has_result 1 w) (told g))) g"
    using inv by (simp_all add: barrier_inv_def)
  note f = barrier_word_facts [OF bw]
  note c = completed_effect [OF f(1) q(3), folded w'_def]
  have n: "n \<le> 63"
    using bw by (simp add: barrier_word_def)
  have res: "\<not> waiting w' p" if "p \<in> set (inside g @ [q])" for p
    using c(2,3) waiting_no_result that by fastforce
  then have "filter (waiting w') (inside g @ [q]) = []" "filter (\<lambda>p. \<not> waiting w' p) (inside g @ [q]) = inside g @ [q]"
    unfolding filter_id_conv filter_empty_conv by auto
  then have e: "after_arrival w' q g = g\<lparr>inside := [], told := told g @ inside g @ [q], arrived := tick q (arrived g),
      complete := complete g + 1\<rparr>" (is "_ = ?g")
    using c(2) by (simp add: after_arrival_def)
  have "insert q (set (inside g)) \<inter> set (told g) = {}"
    using q(2) f(5) by auto
  note t = told_unchanged [OF bw c(4) this subset_refl]
  have u: "unat (of_nat n :: usize) = n" and m: "(of_nat n :: usize) \<le> DATA_MASK"
    using n by (simp_all add: unat_of_nat DATA_MASK_eq word_le_nat_alt)
  note v = small_views [OF m]
  have "prim_state w' = of_nat n"
    by (rule c(1) [unfolded full])
  then have word: "well_formed w' []" "\<not> locked (prim_state w')" "unat (data_of (prim_state w')) = n"
    using v u by (simp_all add: well_formed_def queue_def)
  have "barrier_word n w' ?g"
    using bw word n full t c(2,3) f(2,5) q(2) by (auto simp: barrier_word_def)
  moreover have k: "length (filter (has_result 1 w') (told ?g)) = length (filter (has_result 1 w) (told g)) + 1"
  proof -
    have "\<not> has_result 1 w' p" if "p \<in> set (inside g)" for p
      using c(3) [OF that] by (auto simp: has_result_def)
    then have "filter (has_result 1 w') (inside g) = []"
      by (simp add: filter_empty_conv)
    then show ?thesis
      using t(2) c(2) by simp
  qed
  moreover have "insert q (set (inside g)) = Q" if "card Q = n"
  proof (rule card_subset_eq [OF fin])
    show "insert q (set (inside g)) \<subseteq> Q"
      using bc q(1) by (auto simp: barrier_counts_def)
    show "card (insert q (set (inside g))) = card Q"
      using q(2) distinct_card [OF f(2)] full that by simp
  qed
  then have "barrier_counts n Q (length (filter (has_result 1 w) (told g)) + 1) ?g"
    using bc q full sum_tick [OF fin q(1), of "arrived g"] by (auto simp: barrier_counts_def)
  ultimately show ?thesis
    by (simp add: e barrier_inv_def)
qed

text \<open>An arrival: the task waits, or it was the last and the round is complete.\<close>

lemma barrier_inv_arrive:
  assumes inv: "barrier_inv n Q (w, g)" and fin: "finite Q" and q: "q \<in> Q" "blank w q \<or> idle w q"
    and co: "construct q prim Barrier_drop (Barrier False) is_sync (w, []) = Some s"
    and cd: "count_down prim q is_sync id s = Some (retry, (w', []))"
  shows "barrier_inv n Q (w', after_arrival w' q g)" "\<not> retry"
proof -
  obtain w1 where s: "s = (w1, [])" and fr: "fresh_entry w1 q" and ps: "prim_state w1 = prim_state w" and un: "unchanged {q} w w1"
    using construct_registrable(1) [OF q(2), of "Barrier False" prim Barrier_drop is_sync] co by auto
  have bw: "barrier_word n w g"
    using inv by (simp add: barrier_inv_def)
  note away = unused_away [OF bw q(2)]
  have inv1: "barrier_inv n Q (w1, g)"
    by (rule barrier_inv_frame [OF inv un _ ps]) (use away in auto)
  then have bw1: "barrier_word n w1 g"
    by (simp add: barrier_inv_def)
  have "barrier_inv n Q (w', after_arrival w' q g) \<and> \<not> retry"
  proof (cases "length (inside g) + 1 = n")
    case True
    then have "data_of (prim_state w1) = 1"
      using bw1 by (auto simp: barrier_word_def word_unat_eq_iff)
    then have "w' = completed q (inside g) w1" "\<not> retry"
      using last_arrival [OF barrier_word_facts(1) [OF bw1] fr, of prim is_sync id] cd s by auto
    then show ?thesis
      using last_inv [OF inv1 fin q(1) away fr True] by simp
  next
    case False
    then have room: "length (inside g) + 1 < n" and two: "2 \<le> unat (data_of (prim_state w1))"
      using bw1 by (auto simp: barrier_word_def)
    have a: "well_formed w1 (inside g)" "\<not> locked (prim_state w1)"
      using bw1 by (auto simp: barrier_word_def)
    obtain w2 where w2: "count_down prim q is_sync id (w1, []) = Some (False, (w2, []))" "well_formed w2 (inside g @ [q])"
      "\<not> locked (prim_state w2)" "data_of (prim_state w2) = data_of (prim_state w1) - 1" "unchanged {q} w1 w2"
      using early_arrival [OF a(1) fr two a(2), of prim is_sync id] by auto
    have "1 \<le> data_of (prim_state w1)"
      using two by (simp add: word_le_nat_alt)
    then have "unat (data_of (prim_state w2)) + 1 = unat (data_of (prim_state w1))"
      using w2(4) two by (simp add: unat_sub)
    then show ?thesis
      using early_inv [OF inv1 fin q(1) away room w2(2,3) _ w2(5)] w2(1) cd s by simp
  qed
  then show "barrier_inv n Q (w', after_arrival w' q g)" "\<not> retry"
    by blast+
qed

lemma barrier_inv_step: "barrier_step Q s s' \<Longrightarrow> finite Q \<Longrightarrow> barrier_inv n Q s \<Longrightarrow> barrier_inv n Q s'"
proof (induction rule: barrier_step.induct)
  case (allocate q w w' g)
  then show ?case
    using barrier_inv_frame [of n Q w g "{}" w'] default_blank(2,3) [OF allocate(2)] by simp
next
  case (deallocate q w w' g)
  then have "q \<notin> set (inside g @ told g)"
    using unused_away [of n w g q] by (auto simp: barrier_inv_def)
  moreover have "unchanged {q} w w'" "prim_state w' = prim_state w"
    using drop_unused [OF deallocate(2), of "\<lambda>_. barrier_drop_wait_queue_entry"] deallocate(3) by auto
  ultimately show ?case
    using barrier_inv_frame [OF deallocate(5), of "{q}" w'] by auto
qed (rule barrier_inv_arrive(1) barrier_inv_sleep barrier_inv_pass; assumption)+

lemma barrier_inv_new:
  assumes "1 \<le> n" "n \<le> 63" "finite Q"
  shows "barrier_inv (unat n) Q (new_barrier_system n)"
proof -
  have m: "min MAX_TASKS n = n" "n \<le> DATA_MASK" "unat n \<le> 63" "0 < unat n"
    using assms by (auto simp: MAX_TASKS_def DATA_MASK_eq min_def word_le_nat_alt word_unat_eq_iff)
  note v = small_views [OF m(2)]
  show ?thesis
    using m v assms(3)
    by (simp add: new_barrier_system_def with_count_def fresh_world_def barrier_inv_def barrier_word_def barrier_counts_def
        well_formed_def queue_def Let_def)
qed

lemma barrier_inv_reachable:
  assumes "barrier_reachable n Q s" "1 \<le> n" "n \<le> 63" "finite Q"
  shows "barrier_inv (unat n) Q s"
  using assms(1) unfolding barrier_reachable_def
  by (induction rule: rtranclp_induct) (auto intro: barrier_inv_new [OF assms(2-4)] barrier_inv_step assms(4))

lemma div_mod_round:
  assumes "(a :: nat) = n * c + k" "k < n"
  shows "a div n = c" "a mod n = k"
  using assms by simp_all

end
