(* ===== verification/Task_Memory.thy ===== *)
theory Task_Memory
  imports Blocking_Wait Memory_Shape
begin

text \<open>
  The memory of the tasks that use a primitive: every task has its own wait queue, polling keeps the memory as it is, and
  constructing the entry of one task does not touch those of the others.  \<open>Barrier_Runs\<close> and \<open>Gate_System\<close> use it.
\<close>

section \<open>Wait queues that are not in use\<close>

definition unused :: "world \<Rightarrow> usize \<Rightarrow> bool" where
  "unused w q \<longleftrightarrow> blank w q \<or> idle w q"

lemma same_memory_pushed: "live w q \<Longrightarrow> same_memory w (pushed q x w)"
  by (auto simp: same_memory_def pushed_def upd_def live_def node_def same_shape_def option.rel_refl split: Monitor.split)

lemma unused_kept:
  assumes "same_memory w w'" "unchanged A w w'" "unused w p" "p \<notin> A"
  shows "unused w' p"
proof -
  have "rel_option same_shape (entries w (entry_addr p)) (entries w' (entry_addr p))" "anchors w' = anchors w"
    using assms(1) by (simp_all add: same_memory_def)
  then have "blank w p \<Longrightarrow> blank w' p"
    by (auto simp: blank_def)
  moreover have "idle w p \<Longrightarrow> idle w' p"
    using assms(2,4) by (auto simp: idle_def unchanged_def)
  ultimately show ?thesis
    using assms(3) by (auto simp: unused_def)
qed

text \<open>The wait queues of the tasks are different places in memory.\<close>

definition apart :: "usize set \<Rightarrow> bool" where
  "apart Q \<longleftrightarrow> (\<forall>q \<in> Q. wq_ok q) \<and> inj_on anchor_addr Q \<and> inj_on entry_addr Q"

lemma apart_addr:
  "apart Q \<Longrightarrow> p \<in> Q \<Longrightarrow> q \<in> Q \<Longrightarrow> p \<noteq> q \<Longrightarrow> anchor_addr p \<noteq> anchor_addr q \<and> entry_addr p \<noteq> entry_addr q"
  by (auto simp: apart_def inj_on_def)

lemma construct_elsewhere:
  assumes "unused w q" "construct q prim kind opc b (w, []) = Some (w', [])"
  shows "a \<noteq> anchor_addr q \<Longrightarrow> anchors w' a = anchors w a" "p \<noteq> entry_addr q \<Longrightarrow> entries w' p = entries w p"
proof -
  obtain c off where ao: "anchor_ptr q = (c, off)"
    by (metis surj_pair)
  have "(\<forall>a. a \<noteq> anchor_addr q \<longrightarrow> anchors w' a = anchors w a) \<and> (\<forall>p. p \<noteq> entry_addr q \<longrightarrow> entries w' p = entries w p)"
  proof (cases "live w q")
    case True
    then have "anchors w c = Some (- 1 - off)" "- 1 - off \<noteq> 0" "anchor_addr q = c"
      using ao anchor_word_nonzero [of q] by (auto simp: live_def anchor_addr_def)
    then show ?thesis
      using assms(2) to_entry_live [OF True, of "[]"] update_live [OF True, of _ "[]"]
      unfolding construct_def ao by (auto simp: upd_def)
  next
    case False
    then have b: "wq_ok q" "anchors w c = Some 0" "anchor_addr q = c"
      using assms(1) ao by (auto simp: unused_def idle_def blank_def anchor_addr_def)
    then have "to_entry_ptr c (w\<lparr>anchors := (anchors w)(c \<mapsto> - 1 - off)\<rparr>, []) = Some (entry_addr q)"
      using anchor_word_nonzero [OF b(1)] anchor_to_entry [of q] ao by (simp add: to_entry_ptr_def)
    then show ?thesis
      using assms(2) b unfolding construct_def ao by (auto simp: write_entry_def)
  qed
  then show "a \<noteq> anchor_addr q \<Longrightarrow> anchors w' a = anchors w a" "p \<noteq> entry_addr q \<Longrightarrow> entries w' p = entries w p"
    by blast+
qed

lemma unused_elsewhere:
  assumes "unused w p" "anchors w' (anchor_addr p) = anchors w (anchor_addr p)" "entries w' (entry_addr p) = entries w (entry_addr p)"
  shows "unused w' p"
  using assms by (auto simp: unused_def blank_def idle_def live_def node_def)

lemma free_allocates_nothing: "unallocated w p \<Longrightarrow> unallocated (fst (wait_queue_free q (w, es))) p"
  by (simp add: unallocated_def wait_queue_free_def)

section \<open>Polling\<close>

lemma unallocated_kept: "same_memory w w' \<Longrightarrow> unallocated w' q = unallocated w q"
  unfolding same_memory_def unallocated_def by (metis option.rel_sel)

lemma keeps_try_consume [kept]:
  assumes "try_consume_result p s = Some (r, s')"
  shows "keeps s s'"
proof -
  obtain x s1 where l: "load_entry_state p s = Some (x, s1)"
    and u: "s' = s1 \<or> update_entry p (\<lambda>e. e\<lparr>entry_state := 0, pollable := False\<rparr>) s1 = Some s'"
    using assms by (auto simp: try_consume_result_def bind_eq_Some_conv split: if_splits)
  have "keeps s1 s'" if "update_entry p (\<lambda>e. e\<lparr>entry_state := 0, pollable := False\<rparr>) s1 = Some s'"
    by (rule keeps_update [OF that]) (simp add: same_shape_def split: Monitor.split)
  with u keeps_load_entry_state [OF l] show ?thesis
    by (blast intro: keeps_trans)
qed

lemma keeps_set_state [kept]: "update_entry p (\<lambda>e. e\<lparr>entry_state := x\<rparr>) s = Some s' \<Longrightarrow> keeps s s'"
  by (erule keeps_update) (simp add: same_shape_def split: Monitor.split)

lemma keeps_install [kept]:
  assumes "install_and_flag t p s = Some (out, s')"
  shows "keeps s s'"
proof -
  obtain x s1 s2 where u: "update_entry p (\<lambda>e. e\<lparr>monitor := install_task t (monitor e)\<rparr>) s = Some s1"
    and l: "load_entry_state p s1 = Some (x, s2)" "update_entry p (\<lambda>e. e\<lparr>entry_state := x OR WAKER_SET\<rparr>) s2 = Some s'"
    using assms by (auto simp: install_and_flag_def bind_eq_Some_conv)
  have "keeps s s1"
    by (rule keeps_update [OF u]) (simp add: same_shape_def install_task_def split: Monitor.split)
  then show ?thesis
    using keeps_load_entry_state [OF l(1)] keeps_set_state [OF l(2)] keeps_trans by blast
qed

lemma keeps_poll_once [kept]:
  assumes "poll_once t p s = Some (out, s')"
  shows "keeps s s'"
  using assms
  by (auto simp: poll_once_def bind_eq_Some_conv split: if_splits option.splits dest!: kept; meson keeps_trans)

lemma construct_apart:
  assumes "apart Q" "q \<in> Q" "unallocated w q" "p \<in> Q" "p \<noteq> q" "unallocated w p"
    and "construct q prim kind opc b (wait_queue_default q (w, [])) = Some (w1, [])"
  shows "unallocated w1 p"
proof -
  define w0 where "w0 = fst (wait_queue_default q (w, []))"
  have e: "wait_queue_default q (w, []) = (w0, [])"
    by (simp add: w0_def wait_queue_default_def)
  have "unused w0 q"
    using default_blank(1) [OF assms(3)] by (simp add: unused_def w0_def)
  note c = construct_elsewhere [OF this assms(7) [unfolded e]]
  note a = apart_addr [OF assms(1,4,2,5)]
  have "anchors w0 (anchor_addr p) = anchors w (anchor_addr p)" "entries w0 (entry_addr p) = entries w (entry_addr p)"
    using a by (auto simp: w0_def wait_queue_default_def anchor_addr_def)
  then show ?thesis
    using a assms(6) c by (simp add: unallocated_def)
qed

end
