(* ===== verification/Barrier_Runs.thy ===== *)
theory Barrier_Runs
  imports Barrier_System Task_Memory
begin

text \<open>
  The runs of the system of \<open>Barrier_System\<close>: what every reachable state says about the rounds, and that the tasks can
  always go through any number of rounds.
\<close>

section \<open>What a barrier promises\<close>

text \<open>C12: a barrier synchronises its tasks in every run in which they arrive, poll and leave in any order and none is
  cancelled: the counter says how many arrivals complete the current round; at most as many waits have returned as there are
  tasks in the complete rounds, so that nobody leaves before a sufficient number of tasks has arrived; at most one task per
  complete round was told that it was the last, and all that remains to be taken are results of complete rounds.  If the
  barrier is made for exactly the tasks that use it, no task has passed it more often than any other has arrived.\<close>

theorem barrier_synchronises:
  assumes "barrier_reachable n Q (w, g)" "1 \<le> n" "n \<le> 63" "finite Q"
  shows "unat (fst (barrier_count (w, []))) + sum (arrived g) Q mod unat n = unat n \<and>
    sum (passed g) Q + length (told g) = unat n * (sum (arrived g) Q div unat n) \<and>
    lasts g + length (filter (has_result 1 w) (told g)) = sum (arrived g) Q div unat n \<and>
    (card Q = unat n \<longrightarrow> (\<forall>p \<in> Q. \<forall>q \<in> Q. passed g q \<le> arrived g p))"
proof -
  have inv: "barrier_word (unat n) w g" "barrier_counts (unat n) Q (length (filter (has_result 1 w) (told g))) g"
    using barrier_inv_reachable [OF assms] by (simp_all add: barrier_inv_def)
  have len: "length (inside g) < unat n" "unat (data_of (prim_state w)) + length (inside g) = unat n"
    using inv(1) by (simp_all add: barrier_word_def)
  note c = barrier_counts_facts [OF inv(2)]
  note d = div_mod_round [OF c(2) len(1)]
  have "passed g q \<le> arrived g p" if "card Q = unat n" "p \<in> Q" "q \<in> Q" for p q
    using c(5) [OF that(3)] c(6) [OF that(1,3)] c(6) [OF that(1,2)] by (auto split: if_splits)
  then show ?thesis
    using d c(3,4) len(2) by (simp add: barrier_count_def atomics data_of_def)
qed

section \<open>Every number of rounds can be run\<close>

lemma same_memory_completed:
  assumes "queue w qs" "fresh_entry w q"
  shows "same_memory w (completed q qs w)"
proof -
  let ?w1 = "fold (resolve 0) (rev qs) (w\<lparr>prim_state := 0\<rparr>)"
  have d: "detached (w\<lparr>prim_state := 0\<rparr>) qs []"
    by (rule reset_detached [OF assms(1)]) simp
  have "live ?w1 q"
    using fold_resolve_others [OF d, of q 0] assms fresh_not_queued [OF assms] by (simp add: fresh_entry_def)
  moreover have "same_memory (w\<lparr>prim_state := 0\<rparr>) ?w1"
    by (rule same_memory_fold) (use queue_facts(3) [OF assms(1)] in auto)
  ultimately show ?thesis
    unfolding completed_def by (intro same_memory_trans [OF _ same_memory_resolve]) simp_all
qed

text \<open>What an arrival does to the memory: it changes the entry of the task and resolves those inside.\<close>

lemma arrival_effect:
  assumes bw: "barrier_word n w g" and fr: "fresh_entry w q"
  shows "\<exists>w'. count_down prim q is_sync id (w, []) = Some (False, (w', [])) \<and> same_memory w w' \<and>
    unchanged (insert q (set (inside g))) w w'"
proof (cases "length (inside g) + 1 = n")
  case True
  then have "data_of (prim_state w) = 1"
    using bw by (auto simp: barrier_word_def word_unat_eq_iff)
  note qu = barrier_word_facts(1) [OF bw]
  show ?thesis
    using last_arrival [OF qu fr \<open>data_of _ = 1\<close>, of prim is_sync id] same_memory_completed [OF qu fr] completed_effect(4) [OF qu fr]
    by blast
next
  case False
  then have two: "2 \<le> unat (data_of (prim_state w))"
    using bw by (auto simp: barrier_word_def)
  then have "prim_state w AND DATA_MASK \<noteq> 0" "prim_state w AND DATA_MASK \<noteq> 1" and l: "live w q"
    using fr by (auto simp: data_of_def fresh_entry_def)
  then have "count_down prim q is_sync id (w, []) = Some (False, (pushed q (((prim_state w - 1) AND NOT ADDR_MASK) OR anchor_addr q) w, []))"
    unfolding count_down_def
    by (simp add: atomics count_down_loop.simps queue_simps upd_prim pushed_def to_anchor_ptr_def addr_of_def Let_def)
  then show ?thesis
    using same_memory_pushed [OF l] l by (auto simp: unchanged_def pushed_def)
qed

lemma arrival_memory:
  assumes inv: "barrier_inv n Q (w, g)" and uq: "unused w q"
  shows "\<exists>w1 w'. construct q prim Barrier_drop (Barrier False) is_sync (w, []) = Some (w1, []) \<and>
    count_down prim q is_sync id (w1, []) = Some (False, (w', [])) \<and> same_memory w1 w' \<and>
    unchanged (insert q (set (inside g))) w1 w'"
proof -
  have uq': "blank w q \<or> idle w q"
    using uq by (simp add: unused_def)
  obtain w1 where c: "construct q prim Barrier_drop (Barrier False) is_sync (w, []) = Some (w1, [])" and fr: "fresh_entry w1 q"
    and ps: "prim_state w1 = prim_state w" and un: "unchanged {q} w w1"
    using construct_registrable(1) [OF uq', of "Barrier False" prim Barrier_drop is_sync] by auto
  have bw: "barrier_word n w g"
    using inv by (simp add: barrier_inv_def)
  have "barrier_word n w1 g"
    using barrier_inv_frame [OF inv un _ ps] unused_away [OF bw uq'] by (auto simp: barrier_inv_def)
  from arrival_effect [OF this fr, of prim is_sync] c show ?thesis
    by blast
qed

lemma arrive_possible:
  assumes inv: "barrier_inv n Q (w, g)" and q: "q \<in> Q" "unused w q" and ap: "apart Q"
  shows "\<exists>w'. barrier_step Q (w, g) (w', after_arrival w' q g) \<and> (\<forall>p \<in> Q - {q}. unused w p \<longrightarrow> unused w' p)"
proof -
  obtain w1 w' where c: "construct q 0 Barrier_drop (Barrier False) True (w, []) = Some (w1, [])"
    and w': "count_down 0 q True id (w1, []) = Some (False, (w', []))" "same_memory w1 w'" "unchanged (insert q (set (inside g))) w1 w'"
    using arrival_memory [OF inv q(2), of 0 True] by blast
  have bw: "barrier_word n w g"
    using inv by (simp add: barrier_inv_def)
  have "unused w' p" if p: "p \<in> Q - {q}" "unused w p" for p
  proof (rule unused_kept [OF w'(2,3)])
    show "unused w1 p"
      using p construct_elsewhere [OF q(2) c] apart_addr [OF ap _ q(1), of p]
      by (intro unused_elsewhere [OF p(2)]) auto
    show "p \<notin> insert q (set (inside g))"
      using unused_away [OF bw, of p] p by (auto simp: unused_def)
  qed
  then show ?thesis
    using barrier_step.arrive [OF q(1) _ c w'(1)] q(2) by (auto simp: unused_def)
qed

lemma arrive_list:
  assumes "apart Q" "finite Q"
  shows "barrier_inv n Q (w, g) \<Longrightarrow> distinct ps \<Longrightarrow> set ps \<subseteq> Q \<Longrightarrow> \<forall>p \<in> set ps. unused w p \<Longrightarrow>
    \<exists>w' g'. (barrier_step Q)\<^sup>*\<^sup>* (w, g) (w', g') \<and> barrier_inv n Q (w', g') \<and> passed g' = passed g \<and>
      (\<forall>q. arrived g' q = arrived g q + (if q \<in> set ps then 1 else 0))"
proof (induction ps arbitrary: w g)
  case Nil
  then show ?case by auto
next
  case (Cons p ps)
  obtain w1 where s1: "barrier_step Q (w, g) (w1, after_arrival w1 p g)" and u1: "\<forall>x \<in> Q - {p}. unused w x \<longrightarrow> unused w1 x"
    using arrive_possible [OF Cons.prems(1) _ _ assms(1), of p] Cons.prems(3,4) by auto
  let ?g = "after_arrival w1 p g"
  have "barrier_inv n Q (w1, ?g)"
    using barrier_inv_step [OF s1 assms(2) Cons.prems(1)] .
  moreover have "\<forall>x \<in> set ps. unused w1 x"
    using u1 Cons.prems by auto
  ultimately obtain w' g' where "(barrier_step Q)\<^sup>*\<^sup>* (w1, ?g) (w', g')" "barrier_inv n Q (w', g')" "passed g' = passed ?g"
    "\<forall>q. arrived g' q = arrived ?g q + (if q \<in> set ps then 1 else 0)"
    using Cons.IH [of w1 ?g] Cons.prems(2,3) by auto
  then show ?case
    using converse_rtranclp_into_rtranclp [of "barrier_step Q", OF s1] Cons.prems(2)
    by (intro exI [of _ w'] exI [of _ g']) (auto simp: after_arrival_def)
qed

lemma pass_possible:
  assumes inv: "barrier_inv n Q (w, g)" and q: "q \<in> set (told g)"
  shows "\<exists>w' g'. barrier_step Q (w, g) (w', g') \<and> told g' = remove1 q (told g) \<and> arrived g' = arrived g \<and>
    passed g' = tick q (passed g) \<and> unused w' q \<and> (\<forall>p \<in> Q. unused w p \<longrightarrow> unused w' p)"
proof -
  obtain r where r: "has_result r w q"
    using inv q by (auto simp: barrier_inv_def barrier_word_def)
  then have l: "live w q" "pollable (node w q)"
    by (simp_all add: has_result_def)
  have "unused (consume q w) q"
    using l by (simp add: unused_def idle_def consume_def)
  moreover have "unused (consume q w) p" if "unused w p" for p
  proof (rule unused_kept [OF _ unchanged_consume [OF l(1)] that])
    show "same_memory w (consume q w)"
      using l(1) by (auto simp: same_memory_def consume_def upd_def live_def node_def same_shape_def option.rel_refl split: Monitor.split)
    show "p \<notin> {q}"
      using that l blank_not_live [of w q] by (auto simp: unused_def idle_def)
  qed
  moreover have "barrier_step Q (w, g) (consume q w, g\<lparr>told := remove1 q (told g), passed := tick q (passed g),
      lasts := lasts g + (if barrier_to_result r None = Ok True then 1 else 0)\<rparr>)" (is "barrier_step Q _ (_, ?g)")
    by (rule barrier_step.pass [OF _ poll_once_ready [OF r]]) (use q in simp)
  ultimately show ?thesis
    by (intro exI [of _ "consume q w"] exI [of _ ?g]) simp
qed

lemma pass_list:
  assumes "finite Q"
  shows "barrier_inv n Q (w, g) \<Longrightarrow> distinct ps \<Longrightarrow> set ps \<subseteq> set (told g) \<Longrightarrow>
    \<exists>w' g'. (barrier_step Q)\<^sup>*\<^sup>* (w, g) (w', g') \<and> barrier_inv n Q (w', g') \<and> arrived g' = arrived g \<and>
      (\<forall>q. passed g' q = passed g q + (if q \<in> set ps then 1 else 0)) \<and>
      (\<forall>q \<in> Q. q \<in> set ps \<or> unused w q \<longrightarrow> unused w' q)"
proof (induction ps arbitrary: w g)
  case Nil
  then show ?case by auto
next
  case (Cons p ps)
  obtain w1 g1 where s1: "barrier_step Q (w, g) (w1, g1)" and g1: "told g1 = remove1 p (told g)" "arrived g1 = arrived g"
    "passed g1 = tick p (passed g)" and u1: "unused w1 p" "\<forall>x \<in> Q. unused w x \<longrightarrow> unused w1 x"
    using pass_possible [OF Cons.prems(1), of p] Cons.prems(3) by auto
  have inv1: "barrier_inv n Q (w1, g1)"
    using barrier_inv_step [OF s1 assms Cons.prems(1)] .
  moreover have "set ps \<subseteq> set (told g1)"
    using Cons.prems(2,3) in_set_remove1 [of _ p "told g"] unfolding g1(1) by fastforce
  ultimately obtain w' g' where w': "(barrier_step Q)\<^sup>*\<^sup>* (w1, g1) (w', g')" "barrier_inv n Q (w', g')" "arrived g' = arrived g1"
    "\<forall>q. passed g' q = passed g1 q + (if q \<in> set ps then 1 else 0)" "\<forall>q \<in> Q. q \<in> set ps \<or> unused w1 q \<longrightarrow> unused w' q"
    using Cons.IH [of w1 g1] Cons.prems(2) by auto
  have "(barrier_step Q)\<^sup>*\<^sup>* (w, g) (w', g')"
    using converse_rtranclp_into_rtranclp [of "barrier_step Q", OF s1 w'(1)] .
  moreover have "\<forall>q. passed g' q = passed g q + (if q \<in> set (p # ps) then 1 else 0)"
    using w'(4) g1(3) Cons.prems(2) by simp
  moreover have "\<forall>q \<in> Q. q \<in> set (p # ps) \<or> unused w q \<longrightarrow> unused w' q"
    using w'(5) u1 by auto
  ultimately show ?case
    using w'(2,3) g1(2) by (intro exI [of _ w'] exI [of _ g']) simp
qed

text \<open>All tasks are outside, and each has been through \<open>k\<close> rounds.\<close>

definition resting :: "nat \<Rightarrow> usize set \<Rightarrow> nat \<Rightarrow> barrier_system \<Rightarrow> bool" where
  "resting n Q k = (\<lambda>(w, g). barrier_inv n Q (w, g) \<and> (\<forall>q \<in> Q. unused w q \<and> arrived g q = k \<and> passed g q = k))"

lemma resting_round:
  assumes "resting n Q k s" "apart Q" "finite Q" "card Q = n"
  shows "\<exists>s'. (barrier_step Q)\<^sup>*\<^sup>* s s' \<and> resting n Q (k + 1) s'"
proof -
  obtain w g where s: "s = (w, g)"
    by (cases s)
  obtain ps where ps: "set ps = Q" "distinct ps"
    using finite_distinct_list [OF assms(3)] by blast
  have r: "barrier_inv n Q (w, g)" "\<And>q. q \<in> Q \<Longrightarrow> unused w q \<and> arrived g q = k \<and> passed g q = k"
    using assms(1) by (auto simp: s resting_def)
  obtain w1 g1 where w1: "(barrier_step Q)\<^sup>*\<^sup>* (w, g) (w1, g1)" "barrier_inv n Q (w1, g1)" "passed g1 = passed g"
    "\<forall>q. arrived g1 q = arrived g q + (if q \<in> set ps then 1 else 0)"
    using arrive_list [OF assms(2,3) r(1) ps(2)] ps(1) r(2) by auto
  have bw: "barrier_word n w1 g1" and bc: "barrier_counts n Q (length (filter (has_result 1 w1) (told g1))) g1"
    using w1(2) by (simp_all add: barrier_inv_def)
  note f = barrier_counts_facts [OF bc]
  have sum: "sum (arrived g1) Q = n * (k + 1)"
    using w1(4) r(2) ps(1) assms(4) by simp
  then have "(n * complete g1 + length (inside g1)) mod n = 0"
    using f(2) by (metis mod_mult_self1_is_0)
  then have i0: "inside g1 = []"
    using bw by (simp add: barrier_word_def)
  have "Q \<subseteq> set (told g1)"
  proof
    fix q assume "q \<in> Q"
    then show "q \<in> set (told g1)"
      using f(5) [of q] w1(3,4) r(2) [of q] ps(1) i0 by (auto split: if_splits)
  qed
  then obtain w2 g2 where w2: "(barrier_step Q)\<^sup>*\<^sup>* (w1, g1) (w2, g2)" "barrier_inv n Q (w2, g2)" "arrived g2 = arrived g1"
    "\<forall>q. passed g2 q = passed g1 q + (if q \<in> set ps then 1 else 0)" "\<forall>q \<in> Q. unused w2 q"
    using pass_list [OF assms(3) w1(2) ps(2)] ps(1) by auto
  have "resting n Q (k + 1) (w2, g2)"
    using w2 w1(3,4) r(2) ps(1) by (simp add: resting_def)
  then show ?thesis
    using rtranclp_trans [OF w1(1) w2(1)] s by blast
qed

lemma allocate_list:
  assumes "apart Q"
  shows "distinct ps \<Longrightarrow> set ps \<subseteq> Q \<Longrightarrow> \<forall>p \<in> set ps. unallocated w p \<Longrightarrow>
    \<exists>w'. (barrier_step Q)\<^sup>*\<^sup>* (w, g) (w', g) \<and> (\<forall>p \<in> set ps. unused w' p) \<and> (\<forall>p \<in> Q - set ps. unused w p \<longrightarrow> unused w' p)"
proof (induction ps arbitrary: w)
  case Nil
  then show ?case by auto
next
  case (Cons p ps)
  let ?w = "fst (wait_queue_default p (w, []))"
  have e: "wait_queue_default p (w, []) = (?w, [])"
    by (simp add: wait_queue_default_def)
  have s1: "barrier_step Q (w, g) (?w, g)"
    using barrier_step.allocate [OF _ _ e] Cons.prems(2,3) by simp
  have el: "anchors ?w (anchor_addr x) = anchors w (anchor_addr x) \<and> entries ?w (entry_addr x) = entries w (entry_addr x)"
    if "x \<in> Q - {p}" for x
    using apart_addr [OF assms, of x p] that Cons.prems(2) by (auto simp: wait_queue_default_def anchor_addr_def)
  have "\<forall>x \<in> set ps. unallocated ?w x"
  proof
    fix x assume "x \<in> set ps"
    then show "unallocated ?w x"
      using el [of x] Cons.prems by (auto simp: unallocated_def)
  qed
  then obtain w' where w': "(barrier_step Q)\<^sup>*\<^sup>* (?w, g) (w', g)" "\<forall>x \<in> set ps. unused w' x" "\<forall>x \<in> Q - set ps. unused ?w x \<longrightarrow> unused w' x"
    using Cons.IH [of ?w] Cons.prems(1,2) by auto
  have "unused w' p"
    using w'(3) Cons.prems default_blank(1) [of w p] by (auto simp: unused_def)
  moreover have "unused w' x" if "x \<in> Q - set (p # ps)" "unused w x" for x
    using w'(3) unused_elsewhere [OF that(2), of ?w] el [of x] that(1) by auto
  ultimately show ?case
    using w' converse_rtranclp_into_rtranclp [of "barrier_step Q", OF s1 w'(1)] by (intro exI [of _ w']) auto
qed

lemma rounds_reachable:
  assumes "1 \<le> n" "n \<le> 63" "finite Q" "card Q = unat n" "apart Q"
  shows "\<exists>s. barrier_reachable n Q s \<and> resting (unat n) Q k s"
proof (induction k)
  case 0
  obtain ps where ps: "set ps = Q" "distinct ps"
    using finite_distinct_list [OF assms(3)] by blast
  obtain w g where n: "new_barrier_system n = (w, g)" "w = with_count n" "\<And>q. arrived g q = 0 \<and> passed g q = 0"
    by (simp add: new_barrier_system_def)
  have "\<forall>p \<in> Q. unallocated w p"
    using assms(5) by (simp add: n(2) unallocated_def apart_def with_count_def fresh_world_def Let_def)
  then obtain w' where w': "(barrier_step Q)\<^sup>*\<^sup>* (w, g) (w', g)" "\<forall>p \<in> Q. unused w' p"
    using allocate_list [OF assms(5) ps(2)] ps(1) by blast
  then have re: "barrier_reachable n Q (w', g)"
    by (simp add: barrier_reachable_def n)
  from barrier_inv_reachable [OF re assms(1-3)] re w'(2) n(3) show ?case
    by (intro exI [of _ "(w', g)"]) (simp add: resting_def)
next
  case (Suc k)
  then obtain s where s: "barrier_reachable n Q s" "resting (unat n) Q k s"
    by blast
  from resting_round [OF s(2) assms(5,3,4)] obtain s' where "(barrier_step Q)\<^sup>*\<^sup>* s s'" "resting (unat n) Q (k + 1) s'"
    by blast
  then show ?case
    using s(1) unfolding barrier_reachable_def by (metis Suc_eq_plus1 rtranclp_trans)
qed

text \<open>C13: nothing keeps the tasks of a barrier from going on: if the barrier is made for the tasks that use it, any number of rounds
  can be run, after each of which all tasks are outside, every one of them has passed as often as there were rounds, one
  of them per round as the last, and the counter is what it was at the start.\<close>

theorem barrier_rounds_run:
  assumes "1 \<le> n" "n \<le> 63" "finite Q" "card Q = unat n" "apart Q"
  shows "\<exists>w g. barrier_reachable n Q (w, g) \<and> (\<forall>q \<in> Q. arrived g q = k \<and> passed g q = k) \<and> lasts g = k \<and>
    fst (barrier_count (w, [])) = n"
proof -
  obtain w g where r: "barrier_reachable n Q (w, g)" "resting (unat n) Q k (w, g)"
    using rounds_reachable [OF assms] by (metis surj_pair)
  then have inv: "barrier_word (unat n) w g" "barrier_counts (unat n) Q (length (filter (has_result 1 w) (told g))) g"
    and k: "\<forall>q \<in> Q. arrived g q = k \<and> passed g q = k"
    by (auto simp: resting_def barrier_inv_def)
  note c = barrier_counts_facts [OF inv(2)]
  have "q \<notin> set (inside g) \<union> set (told g)" for q
  proof
    assume q: "q \<in> set (inside g) \<union> set (told g)"
    then have "q \<in> Q"
      using c(1) by blast
    with q c(5) [of q] k show False
      by auto
  qed
  then have e: "inside g = []" "told g = []"
    by (cases "inside g"; cases "told g"; force)+
  have "0 < unat n"
    using assms(1) by (simp add: word_le_nat_alt)
  then have "lasts g = k"
    using c(2,4) k assms(4) e by simp
  moreover have "fst (barrier_count (w, [])) = n"
    using inv(1) e by (simp add: barrier_word_def barrier_count_def atomics data_of_def word_unat_eq_iff)
  ultimately show ?thesis
    using r(1) k by blast
qed

lemma apart_two: "apart {128, 384}"
  by code_simp

theorem barrier_rounds_run_witness:
  "\<exists>w g. barrier_reachable 2 {128, 384} (w, g) \<and> passed g 128 = 3 \<and> passed g 384 = 3 \<and> lasts g = 3"
proof -
  have "(1 :: usize) \<le> 2" "(2 :: usize) \<le> 63" "finite {128, 384 :: usize}" "card {128, 384 :: usize} = unat (2 :: usize)"
    by (simp_all add: word_le_nat_alt)
  from barrier_rounds_run [OF this apart_two, of 3] show ?thesis
    by auto
qed

theorem barrier_synchronises_witness:
  "\<exists>w g. barrier_reachable 2 {128, 384} (w, g) \<and> arrived g 128 = 1 \<and> passed g 384 \<le> arrived g 128"
proof -
  have b: "(1 :: usize) \<le> 2" "(2 :: usize) \<le> 63" "finite {128, 384 :: usize}" and c: "card {128, 384 :: usize} = unat (2 :: usize)"
    by (simp_all add: word_le_nat_alt)
  obtain w g where "barrier_reachable 2 {128, 384} (w, g)" "resting (unat (2 :: usize)) {128, 384} 1 (w, g)"
    using rounds_reachable [OF b c apart_two, of 1] by (metis surj_pair)
  then show ?thesis
    using barrier_synchronises [OF _ b, of w g] c by (intro exI [of _ w] exI [of _ g]) (auto simp: resting_def)
qed

end
