(* ===== verification/Gate_Primitive.thy ===== *)
theory Gate_Primitive
  imports Pager
begin

text \<open>
  \<open>src/gate.rs\<close>: the gate.  The data field of its state word is the encoded \<open>State\<close>; tasks wait only
  while the gate is \<open>Controlled\<close>, and \<open>wake_all\<close> resolves all of them at once.
\<close>

section \<open>States, errors and their encodings\<close>

datatype State = Controlled | Sealed | Open

datatype gate_error =
    Rejected
  | Error_Sealed
  | SpuriousFailure
  | Error_NotRegistered
  | Error_WrongMode
  | Error_NotReady

definition STATE_MASK :: u8 where
  "STATE_MASK = 3"

fun u8_from_state :: "State \<Rightarrow> u8" where
  "u8_from_state Controlled = 0"
| "u8_from_state Sealed = 1"
| "u8_from_state Open = 2"

definition state_from_usize :: "usize \<Rightarrow> State" where
  "state_from_usize value = (if value = 0 then Controlled else if value = 1 then Sealed else Open)"

definition state_from_u8 :: "u8 \<Rightarrow> State" where
  "state_from_u8 value = state_from_usize (ucast value)"

fun u8_from_error :: "gate_error \<Rightarrow> u8" where
  "u8_from_error Rejected = 4"
| "u8_from_error Error_Sealed = 8"
| "u8_from_error SpuriousFailure = 12"
| "u8_from_error Error_NotRegistered = 16"
| "u8_from_error Error_WrongMode = 20"
| "u8_from_error Error_NotReady = 24"

text \<open>\<open>derive(Ord, PartialOrd)\<close>: states and errors are ordered by their discriminants.\<close>

instantiation State :: linorder
begin

definition less_eq_State :: "State \<Rightarrow> State \<Rightarrow> bool" where
  "less_eq_State a b \<longleftrightarrow> u8_from_state a \<le> u8_from_state b"

definition less_State :: "State \<Rightarrow> State \<Rightarrow> bool" where
  "less_State a b \<longleftrightarrow> u8_from_state a < u8_from_state b"

instance
proof
  fix a b :: State
  show "a \<le> b \<Longrightarrow> b \<le> a \<Longrightarrow> a = b"
    by (cases a; cases b; simp add: less_eq_State_def word_le_nat_alt)
qed (auto simp: less_eq_State_def less_State_def)

end

instantiation gate_error :: linorder
begin

definition less_eq_gate_error :: "gate_error \<Rightarrow> gate_error \<Rightarrow> bool" where
  "less_eq_gate_error a b \<longleftrightarrow> u8_from_error a \<le> u8_from_error b"

definition less_gate_error :: "gate_error \<Rightarrow> gate_error \<Rightarrow> bool" where
  "less_gate_error a b \<longleftrightarrow> u8_from_error a < u8_from_error b"

instance
proof
  fix a b :: gate_error
  show "a \<le> b \<Longrightarrow> b \<le> a \<Longrightarrow> a = b"
    by (cases a; cases b; simp add: less_eq_gate_error_def word_le_nat_alt)
qed (auto simp: less_eq_gate_error_def less_gate_error_def)

end

lemma declared_order:
  "sorted_wrt (<) [Controlled, Sealed, Open]"
  "sorted_wrt (<) [Rejected, Error_Sealed, SpuriousFailure, Error_NotRegistered, Error_WrongMode, Error_NotReady]"
  by (simp_all add: less_State_def less_gate_error_def word_less_nat_alt)

definition error_from_usize :: "usize \<Rightarrow> gate_error" where
  "error_from_usize value =
     (if value = 4 then Rejected
      else if value = 8 then Error_Sealed
      else if value = 12 then SpuriousFailure
      else if value = 16 then Error_NotRegistered
      else if value = 20 then Error_WrongMode
      else Error_NotReady)"

definition error_from_u8 :: "u8 \<Rightarrow> gate_error" where
  "error_from_u8 value = error_from_usize (ucast value)"

definition into_u8 :: "State \<Rightarrow> gate_error option \<Rightarrow> u8" where
  "into_u8 state error = u8_from_state state OR (case error of None \<Rightarrow> 0 | Some e \<Rightarrow> u8_from_error e)"

definition gate_to_result :: "u8 \<Rightarrow> pager_error option \<Rightarrow> (State, gate_error) result" where
  "gate_to_result value pager_error =
     (case pager_error of
        Some NotRegistered \<Rightarrow> Err Error_NotRegistered
      | Some WrongMode \<Rightarrow> Err Error_WrongMode
      | Some NotReady \<Rightarrow> Err Error_NotReady
      | None \<Rightarrow>
          (let state = state_from_u8 (value AND STATE_MASK); error = value AND NOT STATE_MASK in
           if error \<noteq> 0 then Err (error_from_u8 error) else Ok state))"

section \<open>Operations\<close>

definition gate_new :: world where
  "gate_new = fresh_world 0"

definition gate_state :: "sys \<Rightarrow> State \<times> sys" where
  "gate_state s = (case load s of (state, s) \<Rightarrow> (state_from_usize (state AND DATA_MASK), s))"

definition reset_closure :: "usize \<Rightarrow> usize option" where
  "reset_closure value =
     (let state = state_from_usize (value AND DATA_MASK) in
      if state = Controlled then None else Some ((value AND ADDR_MASK) OR ucast (u8_from_state state)))"

definition reset :: "sys \<Rightarrow> State option \<times> sys" where
  "reset s =
     (case fetch_update reset_closure s of
        (Ok state, s) \<Rightarrow> (Some (state_from_usize (state AND DATA_MASK)), s)
      | (Err _, s) \<Rightarrow> (None, s))"

definition wake_closure :: "State option \<Rightarrow> usize \<Rightarrow> usize option" where
  "wake_closure next_state value =
     (case next_state of
        Some new_value \<Rightarrow> Some (ucast (u8_from_state new_value))
      | None \<Rightarrow> Some (value AND DATA_MASK))"

definition count_and_set_result :: "u8 \<Rightarrow> usize visitor" where
  "count_and_set_result result entry_ptr next_ptr count s =
     do { s \<leftarrow> set_result entry_ptr result s; Some (False, count + 1, s) }"

definition wake_all :: "State option \<Rightarrow> gate_error option \<Rightarrow> sys \<Rightarrow> ((State \<times> usize) \<times> sys) option" where
  "wake_all next_state error s =
     (case fetch_update (wake_closure next_state) s of (updated, s) \<Rightarrow>
      let value = (case updated of Ok value \<Rightarrow> value | Err value \<Rightarrow> value);
          prev_state = state_from_usize (value AND DATA_MASK);
          next_state = (case next_state of None \<Rightarrow> prev_state | Some st \<Rightarrow> st);
          result = into_u8 next_state error;
          anchor = to_anchor_ptr value
      in if anchor = 0 then Some ((prev_state, 0), s)
         else do {
           tail \<leftarrow> to_entry_ptr anchor s;
           (count, s) \<leftarrow> iter_forward False (count_and_set_result result) tail 0 s;
           Some ((prev_state, count), s) })"

definition permit :: "sys \<Rightarrow> ((usize, State) result \<times> sys) option" where
  "permit s =
     do { ((state, count), s) \<leftarrow> wake_all None None s;
          Some (if state = Controlled then Ok count else Err state, s) }"

definition reject :: "sys \<Rightarrow> ((usize, State) result \<times> sys) option" where
  "reject s =
     do { ((state, count), s) \<leftarrow> wake_all None (Some Rejected) s;
          Some (if state = Controlled then Ok count else Err state, s) }"

definition open_gate :: "sys \<Rightarrow> ((State \<times> usize) \<times> sys) option" where
  "open_gate s = wake_all (Some Open) None s"

definition seal :: "sys \<Rightarrow> ((State \<times> usize) \<times> sys) option" where
  "seal s = wake_all (Some Sealed) (Some Error_Sealed) s"

partial_function (option) push_wait_queue_entry :: "usize \<Rightarrow> callback \<Rightarrow> sys \<Rightarrow> sys option" where
  "push_wait_queue_entry q begin_wait s =
     (case load s of (state, s) \<Rightarrow>
      case state_from_usize (state AND DATA_MASK) of
        Controlled \<Rightarrow>
          do { (pushed, s) \<leftarrow> try_push_wait_queue_entry q state s;
               if \<not> pushed then push_wait_queue_entry q begin_wait s else Some (begin_wait s) }
      | Sealed \<Rightarrow> do { p \<leftarrow> entry q s; set_result p (into_u8 Sealed (Some Error_Sealed)) s }
      | Open \<Rightarrow> do { p \<leftarrow> entry q s; set_result p (into_u8 Open None) s })"

declare push_wait_queue_entry.simps [code]

text \<open>\<open>impl SyncPrimitive for Gate\<close>: dropping an entry that was not acknowledged.\<close>

definition gate_drop_wait_queue_entry :: "usize \<Rightarrow> sys \<Rightarrow> sys option" where
  "gate_drop_wait_queue_entry p s =
     do { (res, s) \<leftarrow> try_consume_result p s;
          case res of
            Some _ \<Rightarrow> Some s
          | None \<Rightarrow>
              do { (_, s) \<leftarrow> wake_all None (Some SpuriousFailure) s;
                   (_, s) \<leftarrow> acknowledge_result_sync p s;
                   Some s } }"

definition enter_sync_with ::
  "usize \<Rightarrow> task \<Rightarrow> usize \<Rightarrow> callback \<Rightarrow> sys \<Rightarrow> ((State, gate_error) result \<times> sys) option" where
  "enter_sync_with prim t q begin_wait s =
     do { s \<leftarrow> construct q prim Gate_drop (Wait 0) True (wait_queue_default q s);
          s \<leftarrow> push_wait_queue_entry q begin_wait s;
          (result, s) \<leftarrow> poll_sync gate_to_result t q s;
          s \<leftarrow> wait_queue_drop (\<lambda>_. gate_drop_wait_queue_entry) q s;
          Some (result, s) }"

definition enter_async_with ::
  "usize \<Rightarrow> task \<Rightarrow> usize \<Rightarrow> callback \<Rightarrow> sys \<Rightarrow> ((State, gate_error) result \<times> sys) option" where
  "enter_async_with prim t q begin_wait s =
     do { s \<leftarrow> construct q prim Gate_drop (Wait 0) False (wait_queue_default q s);
          s \<leftarrow> push_wait_queue_entry q begin_wait s;
          (result, s) \<leftarrow> poll_async gate_to_result t q s;
          s \<leftarrow> wait_queue_drop (\<lambda>_. gate_drop_wait_queue_entry) q s;
          Some (result, s) }"

definition enter_sync ::
  "usize \<Rightarrow> task \<Rightarrow> usize \<Rightarrow> sys \<Rightarrow> ((State, gate_error) result \<times> sys) option" where
  "enter_sync prim t q s = enter_sync_with prim t q id s"

definition enter_async ::
  "usize \<Rightarrow> task \<Rightarrow> usize \<Rightarrow> sys \<Rightarrow> ((State, gate_error) result \<times> sys) option" where
  "enter_async prim t q s =
     do { s \<leftarrow> construct q prim Gate_drop (Wait 0) False (wait_queue_default q s);
          s \<leftarrow> push_wait_queue_entry q id s;
          (result, s) \<leftarrow> poll_async gate_to_result t q s;
          s \<leftarrow> wait_queue_drop (\<lambda>_. gate_drop_wait_queue_entry) q s;
          Some (result, s) }"

definition gate_register_pager :: "usize \<Rightarrow> usize \<Rightarrow> bool \<Rightarrow> sys \<Rightarrow> (bool \<times> sys) option" where
  "gate_register_pager prim q is_sync s =
     do { registered \<leftarrow> is_registered q s;
          if registered then Some (False, s)
          else do {
            s \<leftarrow> construct q prim Gate_drop (Wait 0) is_sync s;
            s \<leftarrow> push_wait_queue_entry q id s;
            Some (True, s) } }"

text \<open>\<open>impl Drop for Gate\<close>.\<close>

definition gate_drop :: "sys \<Rightarrow> sys option" where
  "gate_drop s =
     (case load s of (state, s) \<Rightarrow>
      if state AND ADDR_MASK = 0 then Some s else do { (_, s) \<leftarrow> seal s; Some s })"

section \<open>Encodings\<close>

lemma gate_decode: "gate_to_result (into_u8 st error) None = (case error of None \<Rightarrow> Ok st | Some e \<Rightarrow> Err e)"
  by (cases st; cases error; (cases "the error")?)
     (auto simp: gate_to_result_def into_u8_def state_from_u8_def state_from_usize_def STATE_MASK_def
        error_from_u8_def error_from_usize_def split: gate_error.splits)

lemma into_u8_mode: "into_u8 st error \<noteq> ERROR_WRONG_MODE"
  by (cases st; cases error; (cases "the error")?)
     (auto simp: into_u8_def ERROR_WRONG_MODE_def split: gate_error.splits)

text \<open>C27: the byte that a gate stores as the result of an entry decodes to the gate state or the error it was
  made from, for every state and error, and is never the byte that stands for polling in the wrong mode.\<close>

theorem gate_result_roundtrip:
  "gate_to_result (into_u8 st error) None = (case error of None \<Rightarrow> Ok st | Some e \<Rightarrow> Err e) \<and>
   into_u8 st error \<noteq> ERROR_WRONG_MODE"
  by (simp add: gate_decode into_u8_mode)

lemma state_code [simp]: "state_from_usize (ucast (u8_from_state st)) = st" "ucast (u8_from_state st) \<le> DATA_MASK"
  by (cases st; simp add: state_from_usize_def DATA_MASK_eq)+

section \<open>Waking all\<close>

lemma count_visitor: "count_and_set_result r = resolve_visitor r (\<lambda>n. n + 1)"
  by (intro ext) (simp add: count_and_set_result_def resolve_visitor_def)

definition woken :: "State option \<Rightarrow> gate_error option \<Rightarrow> world \<Rightarrow> u8" where
  "woken next_state error w =
     into_u8 (case next_state of None \<Rightarrow> state_from_usize (data_of (prim_state w)) | Some st \<Rightarrow> st) error"

definition gate_word :: "State option \<Rightarrow> world \<Rightarrow> usize" where
  "gate_word next_state w =
     (case next_state of None \<Rightarrow> data_of (prim_state w) | Some st \<Rightarrow> ucast (u8_from_state st))"

lemma gate_word_le: "gate_word ns w \<le> DATA_MASK"
  by (cases ns) (simp_all add: gate_word_def data_of_le)

lemma gate_word_views: "addr_of (gate_word ns w) = 0" "\<not> locked (gate_word ns w)" "data_of (gate_word ns w) = gate_word ns w"
  using small_views [OF gate_word_le] by blast+

lemma wake_all_effect:
  assumes "interfere s = (w, es)" "queue w qs"
  shows "wake_all ns error s =
    Some ((state_from_usize (data_of (prim_state w)), of_nat (length qs)),
      (fold (resolve (woken ns error w)) (rev qs) (w\<lparr>prim_state := gate_word ns w\<rparr>), es))"
proof -
  let ?w = "w\<lparr>prim_state := gate_word ns w\<rparr>"
  have fu: "fetch_update (wake_closure ns) s = (Ok (prim_state w), (?w, es))"
    using assms(1) by (cases ns) (simp_all add: fetch_update_def wake_closure_def gate_word_def data_of_def)
  note d = reset_detached [OF assms(2) gate_word_views(1)]
  show ?thesis
  proof (cases "qs = []")
    case True
    then have "addr_of (prim_state w) = 0"
      using queue_empty_iff [OF assms(2)] by simp
    with True show ?thesis
      by (simp add: wake_all_def fu to_anchor_ptr_def addr_of_def data_of_def Let_def)
  next
    case False
    have l: "live ?w (last qs)" and a: "to_anchor_ptr (prim_state w) = anchor_addr (last qs)"
      using queue_addr [OF assms(2) False] queue_facts(3) [OF assms(2)] False
      by (auto simp: to_anchor_ptr_def addr_of_def Let_def)
    have c: "chain ?w (anchor_addr (last qs)) (rev qs)"
      using d False by (simp add: detached_def)
    have "iter_forward False (count_and_set_result r) (entry_addr (last qs)) 0 (?w, es) =
        Some (of_nat (length qs), (fold (resolve r) (rev qs) ?w, es))" for r
      using iter_forward_resolve [OF c refl, of r "\<lambda>n. n + 1 :: usize" 0 es] False
      by (simp add: count_visitor count_up hd_rev)
    then show ?thesis
      using l a fu by (cases ns) (simp_all add: wake_all_def to_entry_live woken_def data_of_def Let_def)
  qed
qed

lemma wake_all_results:
  fixes r :: u8 and ns :: "State option"
  assumes "queue w qs"
  defines "w' \<equiv> fold (resolve r) (rev qs) (w\<lparr>prim_state := gate_word ns w\<rparr>)"
  shows "queue w' []" and "prim_state w' = gate_word ns w" and "q \<in> set qs \<Longrightarrow> has_result r w' q"
    and "live w q \<Longrightarrow> q \<notin> set qs \<Longrightarrow> live w' q \<and> node w' q = node w q"
proof -
  note d = reset_detached [OF assms(1) gate_word_views(1) [of ns w]]
  show "queue w' []" "prim_state w' = gate_word ns w" "q \<in> set qs \<Longrightarrow> has_result r w' q"
    using detached_resolve(2,3,4) [OF d, where r = r] by (simp_all add: w'_def)
  show "live w q \<Longrightarrow> q \<notin> set qs \<Longrightarrow> live w' q \<and> node w' q = node w q"
    using fold_resolve_others [OF d, of q r] by (simp add: w'_def)
qed


definition gate_outcome :: "gate_error option \<Rightarrow> State \<Rightarrow> (State, gate_error) result" where
  "gate_outcome error st = (case error of None \<Rightarrow> Ok st | Some e \<Rightarrow> Err e)"

text \<open>What a wake-up leaves behind: nobody waits, every task that waited has the outcome as its
  result, nothing else has changed.\<close>

definition all_woken :: "(State, gate_error) result \<Rightarrow> State \<Rightarrow> world \<Rightarrow> usize list \<Rightarrow> world \<Rightarrow> bool" where
  "all_woken outcome st w qs w' \<longleftrightarrow> well_formed w' [] \<and> \<not> locked (prim_state w') \<and>
     fst (gate_state (w', [])) = st \<and>
     (\<forall>q \<in> set qs. \<exists>r. has_result r w' q \<and> gate_to_result r None = outcome) \<and>
     unchanged (set qs) w w'"

lemma wake_all_wakes:
  assumes "interfere s = (w, es)" "well_formed w qs"
  defines "prev \<equiv> state_from_usize (data_of (prim_state w))"
  shows "\<exists>w'. wake_all ns error s = Some ((prev, of_nat (length qs)), (w', es)) \<and>
    all_woken (gate_outcome error (case ns of None \<Rightarrow> prev | Some st \<Rightarrow> st)) (case ns of None \<Rightarrow> prev | Some st \<Rightarrow> st) w qs w'"
proof -
  have q: "queue w qs"
    using assms(2) by (simp add: well_formed_def)
  let ?r = "woken ns error w"
  define w' where "w' = fold (resolve ?r) (rev qs) (w\<lparr>prim_state := gate_word ns w\<rparr>)"
  note r = wake_all_results [OF q, where r = ?r and ns = ns, folded w'_def]
  have "gate_to_result ?r None = gate_outcome error (case ns of None \<Rightarrow> prev | Some st \<Rightarrow> st)"
    using gate_decode by (simp add: woken_def gate_outcome_def prev_def split: option.split)
  moreover have "fst (gate_state (w', [])) = (case ns of None \<Rightarrow> prev | Some st \<Rightarrow> st)"
    using r(2) gate_word_views(3) [of ns w]
    by (cases ns) (simp_all add: gate_state_def atomics data_of_def [symmetric] gate_word_def prev_def)
  ultimately have "all_woken (gate_outcome error (case ns of None \<Rightarrow> prev | Some st \<Rightarrow> st))
      (case ns of None \<Rightarrow> prev | Some st \<Rightarrow> st) w qs w'"
    using r gate_word_views(2) [of ns w] by (auto simp: all_woken_def well_formed_def unchanged_def)
  with wake_all_effect [OF assms(1) q, of ns error] show ?thesis
    by (auto simp: w'_def prev_def)
qed

text \<open>C24: the four operations of a gate wake every task that waits when they take effect; nobody waits any more and
  no other entry changes.  Opened, each task gets the state \<open>Open\<close>; sealed, the error \<open>Sealed\<close>; permitted, the
  state that the gate keeps; rejected, the error \<open>Rejected\<close>.  \<open>open\<close> and \<open>seal\<close> leave the gate in the new state and
  report the old one with the number of tasks; \<open>permit\<close> and \<open>reject\<close> leave it in its state and report the
  number of tasks if the gate is controlled and its state otherwise.\<close>

theorem gate_operations_wake:
  assumes "interfere s = (w, es)" "well_formed w qs"
  defines "prev \<equiv> state_from_usize (data_of (prim_state w))"
  defines "count \<equiv> if prev = Controlled then Ok (of_nat (length qs)) else Err prev"
  shows "(\<exists>w'. open_gate s = Some ((prev, of_nat (length qs)), (w', es)) \<and> all_woken (Ok Open) Open w qs w') \<and>
    (\<exists>w'. seal s = Some ((prev, of_nat (length qs)), (w', es)) \<and> all_woken (Err Error_Sealed) Sealed w qs w') \<and>
    (\<exists>w'. permit s = Some (count, (w', es)) \<and> all_woken (Ok prev) prev w qs w') \<and>
    (\<exists>w'. reject s = Some (count, (w', es)) \<and> all_woken (Err Rejected) prev w qs w')"
proof -
  note wake = wake_all_wakes [OF assms(1,2)]
  show ?thesis
    using wake [of "Some Open" None] wake [of "Some Sealed" "Some Error_Sealed"] wake [of None None] wake [of None "Some Rejected"]
    by (auto simp: open_gate_def seal_def permit_def reject_def gate_outcome_def prev_def count_def)
qed

theorem gate_operations_wake_witness:
  "(\<exists>w'. open_gate (one_waiter 0 (Wait 0) (Async (Some 3)), []) = Some ((Controlled, 1), (w', [])) \<and>
      all_woken (Ok Open) Open (one_waiter 0 (Wait 0) (Async (Some 3))) [128] w') \<and>
   (\<exists>w'. reject (one_waiter 0 (Wait 0) (Async (Some 3)), []) = Some (Ok 1, (w', [])) \<and>
      all_woken (Err Rejected) Controlled (one_waiter 0 (Wait 0) (Async (Some 3))) [128] w')"
proof -
  let ?w = "one_waiter 0 (Wait 0) (Async (Some 3))"
  have "interfere (?w, []) = (?w, [])"
    by simp
  moreover have "well_formed ?w [128]"
    by code_simp
  moreover have "state_from_usize (data_of (prim_state ?w)) = Controlled"
    by code_simp
  ultimately show ?thesis
    using gate_operations_wake [of "(?w, [])" ?w "[]" "[128]"] by simp
qed

text \<open>C33: \<open>reset\<close> never changes the state of the gate: it stores the state it has just read, so a sealed or
  opened gate stays sealed or open.\<close>

theorem reset_keeps_state: "fst (gate_state (snd (reset (w, [])))) = fst (gate_state (w, []))"
proof -
  have "state_from_usize (((prim_state w AND ADDR_MASK) OR ucast (u8_from_state st)) AND DATA_MASK) = st" for st
    using replace_data_views(3) [of "ucast (u8_from_state st)" "prim_state w"] by (simp add: data_of_def)
  then show ?thesis
    by (simp add: reset_def atomics reset_closure_def gate_state_def Let_def)
qed

interpretation gate_result: sync_result gate_to_result "\<lambda>v. gate_to_result v None"
  "\<lambda>e. case e of NotRegistered \<Rightarrow> Error_NotRegistered | WrongMode \<Rightarrow> Error_WrongMode | NotReady \<Rightarrow> Error_NotReady"
  by unfold_locales (auto simp: gate_to_result_def split: pager_error.splits)

end
