(* ===== verification/Gate_Waiting.thy ===== *)
theory Gate_Waiting
  imports Gate_Primitive Blocking_Wait
begin

text \<open>
  Tasks at the gate: \<open>Gate::enter_sync\<close> and \<open>Gate::enter_async\<close> against a task that opens or seals the gate at an
  arbitrary moment, and the cancellation of a waiting task.
\<close>

section \<open>Somebody opens or seals the gate\<close>

fun gate_verdict :: "State \<Rightarrow> gate_error option" where
  "gate_verdict Sealed = Some Error_Sealed"
| "gate_verdict _ = None"

definition gate_turns :: "State \<Rightarrow> world \<Rightarrow> world" where
  "gate_turns st w =
     (case (if st = Sealed then seal (w, []) else open_gate (w, [])) of Some (_, (w', _)) \<Rightarrow> w' | None \<Rightarrow> w)"

lemma gate_turns_effect:
  assumes "st \<noteq> Controlled" "queue w qs"
  shows "prim_state (gate_turns st w) = ucast (u8_from_state st)"
    and "p \<in> set qs \<Longrightarrow> has_result (into_u8 st (gate_verdict st)) (gate_turns st w) p"
    and "live w p \<Longrightarrow> p \<notin> set qs \<Longrightarrow> live (gate_turns st w) p \<and> node (gate_turns st w) p = node w p"
    and "live w p \<Longrightarrow> is_sync_entry (gate_turns st w) p = is_sync_entry w p"
proof -
  have e: "gate_turns st w = fold (resolve (into_u8 st (gate_verdict st))) (rev qs) (w\<lparr>prim_state := gate_word (Some st) w\<rparr>)"
    using assms(1) wake_all_effect [OF interfere.simps(1) assms(2)]
    by (cases st) (simp_all add: gate_turns_def seal_def open_gate_def woken_def)
  note r = wake_all_results [OF assms(2), where ns = "Some st" and r = "into_u8 st (gate_verdict st)", folded e]
  show "prim_state (gate_turns st w) = ucast (u8_from_state st)"
    "p \<in> set qs \<Longrightarrow> has_result (into_u8 st (gate_verdict st)) (gate_turns st w) p"
    "live w p \<Longrightarrow> p \<notin> set qs \<Longrightarrow> live (gate_turns st w) p \<and> node (gate_turns st w) p = node w p"
    using r by (simp_all add: gate_word_def)
  let ?w = "w\<lparr>prim_state := gate_word (Some st) w\<rparr>"
  have "\<forall>p \<in> set (rev qs). live ?w p"
    using queue_facts(3) [OF assms(2)] by simp
  from fold_resolve_kind [OF this, of p] show "live w p \<Longrightarrow> is_sync_entry (gate_turns st w) p = is_sync_entry w p"
    unfolding e by (simp add: is_sync_entry_def)
qed

lemma gate_decided: "state_from_usize (ucast (u8_from_state st) AND DATA_MASK) = st"
  using state_code [of st] small_views(3) [OF state_code(2), of st] by (simp add: data_of_def)

text \<open>The caller waits at the gate or has been let go; \<open>b\<close> says whether it blocks.\<close>

definition at_gate :: "bool \<Rightarrow> usize list \<Rightarrow> usize \<Rightarrow> world \<Rightarrow> bool" where
  "at_gate b qs q w \<longleftrightarrow> well_formed w (qs @ [q]) \<and> is_sync_entry w q = b"

definition let_go :: "bool \<Rightarrow> State \<Rightarrow> usize \<Rightarrow> world \<Rightarrow> bool" where
  "let_go b st q w \<longleftrightarrow> is_sync_entry w q = b \<and> has_result (into_u8 st (gate_verdict st)) w q \<and> prim_state w = ucast (u8_from_state st)"

lemma at_gate_waiting: "at_gate b qs q w \<Longrightarrow> waiting w q"
  using queue_facts(2) [of w "qs @ [q]" q] by (simp add: at_gate_def well_formed_def)

lemma at_gate_polls: "polls q w w' \<Longrightarrow> at_gate b qs q w \<Longrightarrow> at_gate b qs q w'"
  using well_formed_polls by (auto simp: at_gate_def polls_def)

lemma let_go_polls: "polls q w w' \<Longrightarrow> let_go b st q w \<Longrightarrow> let_go b st q w'"
  by (simp add: let_go_def polls_def)

lemma handover_gate: "handover (at_gate b qs q) (let_go b st q) (into_u8 st (gate_verdict st)) q"
  unfolding handover_def using at_gate_waiting at_gate_polls let_go_polls by (auto simp: let_go_def)

lemma gate_turns_at: "st \<noteq> Controlled \<Longrightarrow> at_gate b qs q w \<Longrightarrow> let_go b st q (gate_turns st w)"
  using gate_turns_effect(1) [of st w "qs @ [q]"] gate_turns_effect(2,4) [of st w "qs @ [q]" q] queue_facts(3) [of w "qs @ [q]"] by (simp add: at_gate_def well_formed_def let_go_def)

lemma expects_turn:
  assumes st: "st \<noteq> Controlled"
  shows "at_gate b qs q w \<Longrightarrow> expects (at_gate b qs q) (let_go b st q) q (w, replicate k id @ [gate_turns st])"
proof (induction k arbitrary: w)
  case 0
  then show ?case
    using gate_turns_at [OF st at_gate_polls] by simp
next
  case (Suc k)
  then show ?case
    using Suc.IH [OF at_gate_polls] by simp
qed

lemma push_closed:
  assumes "st \<noteq> Controlled" "interfere s = (w, es)" "prim_state w = ucast (u8_from_state st)" "live w q"
  shows "push_wait_queue_entry q cb s = Some (resolve (into_u8 st (gate_verdict st)) q w, es)"
  using assms gate_decided [of st]
  by (subst push_wait_queue_entry.simps) (cases st; simp add: load_def queue_simps)

definition enter :: "bool \<Rightarrow> usize \<Rightarrow> task \<Rightarrow> usize \<Rightarrow> sys \<Rightarrow> ((State, gate_error) result \<times> sys) option" where
  "enter b = (if b then enter_sync else enter_async)"

lemma enter_after_push:
  assumes "construct q prim Gate_drop (Wait 0) b (wait_queue_default q s) = Some s1"
    and "push_wait_queue_entry q id s1 = Some (w, es)" and x: "expects (at_gate b qs q) (let_go b st q) q (w, es)"
  shows "\<exists>w' es'. enter b prim t q s = Some (case gate_verdict st of None \<Rightarrow> Ok st | Some e \<Rightarrow> Err e, (w', es')) \<and>
    fst (gate_state (w', [])) = st \<and> entries w' (entry_addr q) = None"
proof -
  let ?poll = "if b then poll_sync gate_to_result t q else poll_async gate_to_result t q"
  have k: "at_gate b qs q w' \<or> let_go b st q w' \<Longrightarrow> is_sync_entry w' q = b" for w'
    by (auto simp: at_gate_def let_go_def)
  have "is_sync_entry w q = b"
    using x k by (cases es) auto
  then obtain u es' where p: "?poll (w, es) = Some (gate_to_result (into_u8 st (gate_verdict st)) None, (consume q u, es'))" and h: "let_go b st q u"
    using gate_result.poll_sync_returns [OF handover_gate x _ into_u8_mode, of t]
      gate_result.poll_async_returns [OF handover_gate _ x into_u8_mode, of t] k
    by (cases b) auto
  have l: "live u q"
    using h by (auto simp: let_go_def has_result_def)
  have "wait_queue_drop (\<lambda>_. gate_drop_wait_queue_entry) q (consume q u, es') = Some (wait_queue_free q (consume q u, es'))"
    using l by (intro drop_acknowledged) (simp_all add: consume_def)
  then have "enter b prim t q s = Some (case gate_verdict st of None \<Rightarrow> Ok st | Some e \<Rightarrow> Err e, wait_queue_free q (consume q u, es'))"
    using assms(1,2) p by (cases b) (simp_all add: enter_def enter_sync_def enter_sync_with_def enter_async_def gate_decode)
  then show ?thesis
    using h gate_decided [of st]
    by (auto simp: wait_queue_free_def gate_state_def atomics let_go_def consume_def)
qed

text \<open>The wait queue entry of a caller at the gate, made and not pushed yet.\<close>

definition arrives :: "bool \<Rightarrow> usize list \<Rightarrow> usize \<Rightarrow> world \<Rightarrow> bool" where
  "arrives b qs q w \<longleftrightarrow> well_formed w qs \<and> fresh_entry w q \<and> is_sync_entry w q = b"

lemma resolve_let_go:
  assumes "fresh_entry w q" "is_sync_entry w q = b" "prim_state w = ucast (u8_from_state st)"
  shows "let_go b st q (resolve (into_u8 st (gate_verdict st)) q w)"
proof -
  have l: "live w q"
    using assms(1) by (simp add: fresh_entry_def)
  show ?thesis
    using resolve_fresh [OF assms(1)] resolve_kind [OF l l] assms(2,3) by (simp add: let_go_def)
qed

lemma turns_arrives:
  assumes "st \<noteq> Controlled" "arrives b qs q w"
  shows "fresh_entry (gate_turns st w) q" "is_sync_entry (gate_turns st w) q = b"
    "prim_state (gate_turns st w) = ucast (u8_from_state st)"
proof -
  have qu: "queue w qs" and fr: "fresh_entry w q"
    using assms(2) by (auto simp: arrives_def well_formed_def)
  note n = fresh_not_queued [OF qu fr]
  note g = gate_turns_effect [OF assms(1) qu]
  show "fresh_entry (gate_turns st w) q" "is_sync_entry (gate_turns st w) q = b"
    "prim_state (gate_turns st w) = ucast (u8_from_state st)"
    using g(1) g(3) [OF _ n] fr assms(2) by (auto simp: fresh_entry_def is_sync_entry_def arrives_def)
qed

lemma arrives_linked:
  assumes "arrives b qs q w"
  shows "arrives b qs q (upd q (\<lambda>x. x\<lparr>next_entry_anchor := a\<rparr>) w)"
proof -
  let ?w = "upd q (\<lambda>x. x\<lparr>next_entry_anchor := a\<rparr>) w"
  have wf: "well_formed w qs" and fr: "fresh_entry w q" and l: "live w q"
    using assms by (auto simp: arrives_def fresh_entry_def)
  have "q \<notin> set qs"
    using fresh_not_queued [OF _ fr] wf by (simp add: well_formed_def)
  then have "well_formed ?w qs"
    using l by (intro well_formed_unchanged(1) [OF wf, of "{q}"]) (simp_all add: unchanged_def)
  then show ?thesis
    using l assms by (simp add: arrives_def fresh_entry_def is_sync_entry_def)
qed

lemma push_at_gate:
  assumes a: "arrives b qs q w" and c: "state_from_usize (data_of (prim_state w)) = Controlled" and nl: "\<not> locked (prim_state w)"
  shows "\<exists>w'. push_wait_queue_entry q id (w, id # id # es) = Some (w', es) \<and> at_gate b qs q w'"
proof -
  let ?x = "(prim_state w AND NOT ADDR_MASK) OR anchor_addr q"
  let ?w = "pushed q ?x w"
  have fr: "fresh_entry w q" and qu: "queue w qs" and sy: "is_sync_entry w q = b"
    using a by (auto simp: arrives_def well_formed_def)
  have l: "live w q" and aq: "addr_of (anchor_addr q) = anchor_addr q"
    using fr by (auto simp: fresh_entry_def)
  note p = push_well_formed [OF qu fr replace_addr_views(1) [OF aq, of "prim_state w"]]
  have "try_push_wait_queue_entry q (prim_state w) (w, id # es) = Some (True, (?w, es))"
    using l by (simp add: push_env queue_simps upd_prim pushed_def Let_def)
  then have "push_wait_queue_entry q id (w, id # id # es) = Some (?w, es)"
    using c by (subst push_wait_queue_entry.simps) (simp add: load_def data_of_def)
  moreover have "is_sync_entry ?w q = b"
    using l sy by (simp add: is_sync_entry_def pushed_def)
  ultimately show ?thesis
    using p(1) by (auto simp: at_gate_def)
qed

lemma push_turned:
  assumes st: "st \<noteq> Controlled" and a: "arrives b qs q w" and c: "state_from_usize (data_of (prim_state w)) = Controlled"
    and es: "es = [gate_turns st] \<or> es = [id, gate_turns st]"
  shows "\<exists>w'. push_wait_queue_entry q id (w, es) = Some (w', []) \<and> let_go b st q w'"
  using es
proof
  assume "es = [gate_turns st]"
  note t = turns_arrives [OF st a]
  show ?thesis
    using push_closed [OF st, of "(w, es)" "gate_turns st w" "[]" q id] t resolve_let_go [OF t] \<open>es = _\<close>
    by (simp add: fresh_entry_def)
next
  assume es: "es = [id, gate_turns st]"
  have l: "live w q"
    using a by (simp add: arrives_def fresh_entry_def)
  let ?w1 = "upd q (\<lambda>x. x\<lparr>next_entry_anchor := addr_of (prim_state w)\<rparr>) w"
  note t = turns_arrives [OF st arrives_linked [OF a, of "addr_of (prim_state w)"]]
  have "prim_state (gate_turns st ?w1) \<noteq> prim_state w"
    using t(3) c st state_code(1) [of st] small_views(3) [OF state_code(2), of st] by metis
  then have "try_push_wait_queue_entry q (prim_state w) (w, [gate_turns st]) = Some (False, (gate_turns st ?w1, []))"
    using l by (simp add: push_env Let_def)
  then have "push_wait_queue_entry q id (w, es) = push_wait_queue_entry q id (gate_turns st ?w1, [])"
    using c es by (subst push_wait_queue_entry.simps) (simp add: load_def data_of_def)
  then show ?thesis
    using push_closed [OF st, of "(gate_turns st ?w1, [])" "gate_turns st ?w1" "[]" q id] t resolve_let_go [OF t]
    by (simp add: fresh_entry_def)
qed

lemma enter_returns:
  assumes "well_formed w qs" "\<not> locked (prim_state w)" "state_from_usize (data_of (prim_state w)) = Controlled"
    and "unallocated w q" "st \<noteq> Controlled" "es = replicate m id @ [gate_turns st]"
  shows "\<exists>w' es'. enter b prim t q (w, es) = Some (if st = Open then Ok Open else Err Error_Sealed, (w', es')) \<and>
    fst (gate_state (w', [])) = st \<and> entries w' (entry_addr q) = None"
proof -
  obtain w1 where c: "construct q prim Gate_drop (Wait 0) b (wait_queue_default q (w, es)) = Some (w1, es)"
    and fr: "fresh_entry w1 q" "is_sync_entry w1 q = b" and ps: "prim_state w1 = prim_state w" and u: "unchanged {} w w1"
    using construct_fresh [OF assms(4), of "Wait 0" prim Gate_drop b es] by auto
  have a: "arrives b qs q w1"
    using well_formed_unchanged(1) [OF assms(1) u] ps fr by (simp add: arrives_def)
  have d: "state_from_usize (data_of (prim_state w1)) = Controlled" "\<not> locked (prim_state w1)"
    using assms(2,3) ps by simp_all
  have v: "(case gate_verdict st of None \<Rightarrow> Ok st | Some e \<Rightarrow> Err e) = (if st = Open then Ok Open else Err Error_Sealed)"
    using assms(5) by (cases st) auto
  consider "es = [gate_turns st] \<or> es = [id, gate_turns st]" | k where "es = id # id # replicate k id @ [gate_turns st]"
    using assms(6) by (cases m; cases "m - 1") auto
  then have "\<exists>w2 es2. push_wait_queue_entry q id (w1, es) = Some (w2, es2) \<and>
      expects (at_gate b qs q) (let_go b st q) q (w2, es2)"
  proof cases
    case 1
    from push_turned [OF assms(5) a d(1) this] show ?thesis
      by auto
  next
    case (2 k)
    with push_at_gate [OF a d] expects_turn [OF assms(5)] show ?thesis
      by blast
  qed
  then show ?thesis
    using enter_after_push [OF c] v by fastforce
qed

text \<open>C16: \<open>enter_sync\<close> and \<open>enter_async\<close> do not miss the opening or the sealing of the gate: whoever waits at a controlled
  gate already, if another task opens or seals it at any moment, before the caller looks, between its look
  and its queueing up, or while it is parked or suspended, then they return \<open>Ok(Open)\<close> or \<open>Err(Sealed)\<close>
  accordingly, and the wait queue of the caller is gone.\<close>

theorem gate_enter_returns:
  assumes "well_formed w qs" "\<not> locked (prim_state w)" "state_from_usize (data_of (prim_state w)) = Controlled"
    and "unallocated w q" "st \<noteq> Controlled" "es = replicate m id @ [gate_turns st]"
    and "call \<in> {enter_sync prim t q, enter_async prim t q}"
  shows "\<exists>w' es'. call (w, es) = Some (if st = Open then Ok Open else Err Error_Sealed, (w', es')) \<and>
    fst (gate_state (w', [])) = st \<and> entries w' (entry_addr q) = None"
  using enter_returns [OF assms(1-6), of True prim t] enter_returns [OF assms(1-6), of False prim t] assms(7)
  by (auto simp: enter_def)

section \<open>Cancellation\<close>

lemma gate_drop_waiting:
  assumes wf: "well_formed w qs" and q: "q \<in> set qs"
  shows "\<exists>w' r y. gate_drop_wait_queue_entry (entry_addr q) (w, []) = Some (consume q w', []) \<and> has_result r w' q \<and>
    wake_all None (Some SpuriousFailure) (w, []) = Some (y, (w', [])) \<and>
    all_woken (Err SpuriousFailure) (state_from_usize (data_of (prim_state w))) w qs w'"
proof -
  let ?st = "state_from_usize (data_of (prim_state w))"
  have "waiting w q"
    using wf q queue_facts(2) [of w qs q] by (simp add: well_formed_def)
  note c = try_consume_result_waiting [OF interfere.simps(1) this]
  obtain w' where w': "wake_all None (Some SpuriousFailure) (w, []) = Some ((?st, of_nat (length qs)), (w', []))"
    "all_woken (Err SpuriousFailure) ?st w qs w'"
    using wake_all_wakes [OF interfere.simps(1) wf, of None "Some SpuriousFailure"] by (auto simp: gate_outcome_def)
  then obtain r where r: "has_result r w' q"
    using q by (auto simp: all_woken_def)
  have "acknowledge_result_sync (entry_addr q) (w', []) = Some (r, (consume q w', []))"
    using try_consume_result_ready [OF interfere.simps(1) r] by (subst acknowledge_result_sync.simps) simp
  then show ?thesis
    using c w' r by (auto simp: gate_drop_wait_queue_entry_def)
qed

text \<open>C30: dropping the wait queue of a task that waits at the gate, as when its future is cancelled, wakes all other
  waiting tasks with the error \<open>SpuriousFailure\<close>, which is the documented price; the state of the gate stays,
  the queue is empty and nothing refers to the freed memory.\<close>

theorem gate_cancel_wakes_all:
  assumes "well_formed w qs" "q \<in> set qs"
  shows "\<exists>w'. wait_queue_drop (\<lambda>_. gate_drop_wait_queue_entry) q (w, []) = Some (w', []) \<and>
    well_formed w' [] \<and> fst (gate_state (w', [])) = fst (gate_state (w, [])) \<and> entries w' (entry_addr q) = None \<and>
    (\<forall>p \<in> set qs - {q}. \<exists>r. has_result r w' p \<and> gate_to_result r None = Err SpuriousFailure)"
proof -
  have wq: "waiting w q"
    using assms queue_facts(2) [of w qs q] by (simp add: well_formed_def)
  obtain w1 r where d: "gate_drop_wait_queue_entry (entry_addr q) (w, []) = Some (consume q w1, [])" and r: "has_result r w1 q"
    and a: "all_woken (Err SpuriousFailure) (state_from_usize (data_of (prim_state w))) w qs w1"
    using gate_drop_waiting [OF assms] by blast
  have l: "live w q" "pollable (node w q)" "live w1 q" "live (consume q w1) q"
    using wq r by (auto simp: waiting_def has_result_def)
  obtain w' where w': "wait_queue_drop (\<lambda>_. gate_drop_wait_queue_entry) q (w, []) = Some (w', [])" "unchanged {q} (consume q w1) w'"
    "prim_state w' = prim_state (consume q w1)" "entries w' (entry_addr q) = None"
    using wait_queue_drop_pollable [of w q "\<lambda>_. gate_drop_wait_queue_entry" "consume q w1"] l d by auto
  have u: "unchanged {q} w1 w'"
    using unchanged_trans [OF unchanged_consume [OF l(3)] w'(2)] by simp
  have ps: "prim_state w' = prim_state w1"
    using w'(3) by (simp add: consume_def)
  have "well_formed w' []"
    using well_formed_unchanged(1) [OF _ u, of "[]"] a ps by (simp add: all_woken_def)
  moreover have "fst (gate_state (w', [])) = fst (gate_state (w, []))"
    using a ps by (simp add: all_woken_def gate_state_def atomics data_of_def)
  moreover have "\<exists>r. has_result r w' p \<and> gate_to_result r None = Err SpuriousFailure" if p: "p \<in> set qs - {q}" for p
  proof -
    obtain r where "has_result r w1 p" "gate_to_result r None = Err SpuriousFailure"
      using p a by (auto simp: all_woken_def)
    then show ?thesis
      using has_result_unchanged [OF u] p by blast
  qed
  ultimately show ?thesis
    using w' by blast
qed

section \<open>Runs\<close>

theorem gate_enter_returns_witness:
  "\<exists>w' es'. enter_async 0 3 256 (one_waiter 0 (Wait 0) (Async None), [id, id, id, gate_turns Open]) = Some (Ok Open, (w', es')) \<and>
     fst (gate_state (w', [])) = Open"
proof -
  let ?w = "one_waiter 0 (Wait 0) (Async None)"
  have "well_formed ?w [128]" "\<not> locked (prim_state ?w)" "state_from_usize (data_of (prim_state ?w)) = Controlled" "unallocated ?w 256"
    by code_simp+
  moreover have "[id, id, id, gate_turns Open] = replicate 3 id @ [gate_turns Open]"
    by (simp add: eval_nat_numeral)
  ultimately show ?thesis
    using gate_enter_returns [of ?w "[128]" 256 Open "[id, id, id, gate_turns Open]" 3 "enter_async 0 3 256" 0 3] by auto
qed

text \<open>A controlled gate at which two tasks wait, with their wait queues at 128 and 384.\<close>

definition two_at_gate :: world where
  "two_at_gate =
     (let e = \<lparr>next_entry_anchor = 0, prev_entry = 0, opcode = Wait 0, entry_state = 0, pollable = True,
               monitor = Async (Some 5), drop_callback = Gate_drop, prim_addr = 0, offset = 64\<rparr>
      in \<lparr>prim_state = 384, anchors = [128 \<mapsto> - 1, 384 \<mapsto> - 1],
          entries = [192 \<mapsto> e, 448 \<mapsto> e\<lparr>next_entry_anchor := 128\<rparr>], events = []\<rparr>)"

theorem gate_cancel_wakes_all_witness:
  "\<exists>w'. wait_queue_drop (\<lambda>_. gate_drop_wait_queue_entry) 384 (two_at_gate, []) = Some (w', []) \<and>
     (\<exists>r. has_result r w' 128 \<and> gate_to_result r None = Err SpuriousFailure)"
proof -
  have "well_formed two_at_gate [128, 384]"
    by code_simp
  then show ?thesis
    using gate_cancel_wakes_all [of two_at_gate "[128, 384]" 384] by auto
qed

end
