(* ===== verification/Gate_System.thy ===== *)
theory Gate_System
  imports Gate_Waiting Task_Memory
begin

text \<open>
  A gate with any set of tasks: the calls that the tasks and the owner of the gate make, in any order, and the
  abstract gate that they refine, a state with a line of waiting tasks and the outcomes that tasks have yet to take.
\<close>

section \<open>The calls\<close>

text \<open>A task enters, as \<open>enter_sync\<close> and \<open>enter_async\<close> do up to the first poll, polls its entry until there is a
  result, when it leaves and its wait queue ends, or is cancelled, as when its future is dropped.\<close>

datatype gate_call =
    Enter usize bool
  | Poll usize task
  | Permit
  | Reject
  | Open_up
  | Seal_up
  | Reset_it
  | Ask
  | Cancel usize

datatype gate_answer =
    Entered
  | Still
  | Left "(State, gate_error) result"
  | Woke "(usize, State) result"
  | Turned "State \<times> usize"
  | Was "State option"
  | Is State
  | Gone

fun run_call :: "usize \<Rightarrow> gate_call \<Rightarrow> sys \<Rightarrow> (gate_answer \<times> sys) option" where
  "run_call prim (Enter q is_sync) s =
     do { s \<leftarrow> construct q prim Gate_drop (Wait 0) is_sync (wait_queue_default q s);
          s \<leftarrow> push_wait_queue_entry q id s;
          Some (Entered, s) }"
| "run_call prim (Poll q t) s =
     do { (out, s) \<leftarrow> poll_once t (entry_addr q) s;
          case out of
            Consumed value \<Rightarrow> do { s \<leftarrow> wait_queue_drop (\<lambda>_. gate_drop_wait_queue_entry) q s; Some (Left (gate_to_result value None), s) }
          | _ \<Rightarrow> Some (Still, s) }"
| "run_call prim Permit s = do { (r, s) \<leftarrow> permit s; Some (Woke r, s) }"
| "run_call prim Reject s = do { (r, s) \<leftarrow> reject s; Some (Woke r, s) }"
| "run_call prim Open_up s = do { (r, s) \<leftarrow> open_gate s; Some (Turned r, s) }"
| "run_call prim Seal_up s = do { (r, s) \<leftarrow> seal s; Some (Turned r, s) }"
| "run_call prim Reset_it s = (case reset s of (r, s) \<Rightarrow> Some (Was r, s))"
| "run_call prim Ask s = (case gate_state s of (st, s) \<Rightarrow> Some (Is st, s))"
| "run_call prim (Cancel q) s =
     do { s \<leftarrow> wait_queue_drop (\<lambda>_. gate_drop_wait_queue_entry) q s; Some (Gone, s) }"

fun run_calls :: "usize \<Rightarrow> gate_call list \<Rightarrow> sys \<Rightarrow> (gate_answer list \<times> sys) option" where
  "run_calls prim [] s = Some ([], s)"
| "run_calls prim (c # cs) s =
     do { (a, s) \<leftarrow> run_call prim c s; (as, s) \<leftarrow> run_calls prim cs s; Some (a # as, s) }"

section \<open>The abstract gate\<close>

text \<open>A state, a line of waiting tasks in the order of their arrival, and the outcomes that tasks have not taken yet.\<close>

record gate_spec =
  posture :: State
  gate_line :: "usize list"
  owed :: "(usize \<times> (State, gate_error) result) list"

definition spec_wake :: "(State, gate_error) result \<Rightarrow> State \<Rightarrow> gate_spec \<Rightarrow> gate_spec" where
  "spec_wake out st g = g\<lparr>posture := st, gate_line := [], owed := owed g @ map (\<lambda>q. (q, out)) (gate_line g)\<rparr>"

definition spec_leave :: "usize \<Rightarrow> gate_spec \<Rightarrow> gate_spec" where
  "spec_leave q g = g\<lparr>owed := filter (\<lambda>p. fst p \<noteq> q) (owed g)\<rparr>"

definition spec_woke :: "gate_spec \<Rightarrow> (usize, State) result" where
  "spec_woke g = (if posture g = Controlled then Ok (of_nat (length (gate_line g))) else Err (posture g))"

text \<open>Nobody waits unless the gate is controlled.  Cancelling a task in the line sends the others away with
  \<open>SpuriousFailure\<close>.  \<open>reset\<close> changes nothing.\<close>

fun spec_call :: "gate_call \<Rightarrow> gate_spec \<Rightarrow> gate_answer \<times> gate_spec" where
  "spec_call (Enter q is_sync) g =
     (Entered, case posture g of
        Controlled \<Rightarrow> g\<lparr>gate_line := gate_line g @ [q]\<rparr>
      | Sealed \<Rightarrow> g\<lparr>owed := owed g @ [(q, Err Error_Sealed)]\<rparr>
      | Open \<Rightarrow> g\<lparr>owed := owed g @ [(q, Ok Open)]\<rparr>)"
| "spec_call (Poll q t) g =
     (case map_of (owed g) q of None \<Rightarrow> (Still, g) | Some out \<Rightarrow> (Left out, spec_leave q g))"
| "spec_call Permit g = (Woke (spec_woke g), spec_wake (Ok (posture g)) (posture g) g)"
| "spec_call Reject g = (Woke (spec_woke g), spec_wake (Err Rejected) (posture g) g)"
| "spec_call Open_up g = (Turned (posture g, of_nat (length (gate_line g))), spec_wake (Ok Open) Open g)"
| "spec_call Seal_up g = (Turned (posture g, of_nat (length (gate_line g))), spec_wake (Err Error_Sealed) Sealed g)"
| "spec_call Reset_it g = (Was (if posture g = Controlled then None else Some (posture g)), g)"
| "spec_call Ask g = (Is (posture g), g)"
| "spec_call (Cancel q) g =
     (Gone, spec_leave q (if q \<in> set (gate_line g) then spec_wake (Err SpuriousFailure) (posture g) g else g))"

fun spec_calls :: "gate_call list \<Rightarrow> gate_spec \<Rightarrow> gate_answer list \<times> gate_spec" where
  "spec_calls [] g = ([], g)"
| "spec_calls (c # cs) g = (let (a, g) = spec_call c g; (as, g) = spec_calls cs g in (a # as, g))"

definition at_the_gate :: "gate_spec \<Rightarrow> usize set" where
  "at_the_gate g = set (gate_line g) \<union> fst ` set (owed g)"

text \<open>A task enters when it is not at the gate and polls or is cancelled when it is there.\<close>

fun call_ok :: "usize set \<Rightarrow> gate_call \<Rightarrow> gate_spec \<Rightarrow> bool" where
  "call_ok Q (Enter q _) g \<longleftrightarrow> q \<in> Q \<and> q \<notin> at_the_gate g"
| "call_ok Q (Poll q _) g \<longleftrightarrow> q \<in> at_the_gate g"
| "call_ok Q (Cancel q) g \<longleftrightarrow> q \<in> at_the_gate g"
| "call_ok Q _ g \<longleftrightarrow> True"

fun calls_ok :: "usize set \<Rightarrow> gate_call list \<Rightarrow> gate_spec \<Rightarrow> bool" where
  "calls_ok Q [] g \<longleftrightarrow> True"
| "calls_ok Q (c # cs) g \<longleftrightarrow> call_ok Q c g \<and> calls_ok Q cs (snd (spec_call c g))"

definition new_gate :: gate_spec where
  "new_gate = \<lparr>posture = Controlled, gate_line = [], owed = []\<rparr>"

section \<open>Refinement\<close>

lemma keeps_wake_all [kept]:
  assumes "wake_all ns error s = Some (y, s')"
  shows "keeps s s'"
proof -
  have v: "visitor_keeps (count_and_set_result r)" for r
    by (rule visitor_keepsI) (auto simp: count_and_set_result_def bind_eq_Some_conv dest: kept)
  obtain x s1 where f: "fetch_update (wake_closure ns) s = (x, s1)"
    by (metis surj_pair)
  from assms f have "s' = s1 \<or> (\<exists>r tail c. iter_forward False (count_and_set_result r) tail 0 s1 = Some (c, s'))"
    by (auto simp: wake_all_def Let_def bind_eq_Some_conv split: if_splits)
  then have "keeps s1 s'"
    using keeps_iter_forward [OF _ v] by fastforce
  with keeps_atomics(3) [OF f] show ?thesis
    by (rule keeps_trans)
qed

text \<open>The state word and the list are those of the abstract gate, every task that is owed an outcome has it as the
  result of its entry, and the other tasks have no wait queue.\<close>

definition gate_represents :: "usize set \<Rightarrow> world \<Rightarrow> gate_spec \<Rightarrow> bool" where
  "gate_represents Q w g \<longleftrightarrow> well_formed w (gate_line g) \<and> \<not> locked (prim_state w) \<and> fst (gate_state (w, [])) = posture g \<and>
     (posture g \<noteq> Controlled \<longrightarrow> gate_line g = []) \<and> distinct (map fst (owed g)) \<and>
     (\<forall>(q, out) \<in> set (owed g). \<exists>r. has_result r w q \<and> gate_to_result r None = out) \<and>
     at_the_gate g \<subseteq> Q \<and> (\<forall>q \<in> Q - at_the_gate g. unallocated w q)"

lemma gate_represents_facts:
  assumes "gate_represents Q w g"
  shows "well_formed w (gate_line g)" "queue w (gate_line g)" "\<not> locked (prim_state w)" "fst (gate_state (w, [])) = posture g"
    "state_from_usize (data_of (prim_state w)) = posture g" "posture g \<noteq> Controlled \<Longrightarrow> gate_line g = []"
    "distinct (map fst (owed g))" "(q, out) \<in> set (owed g) \<Longrightarrow> \<exists>r. has_result r w q \<and> gate_to_result r None = out"
    "at_the_gate g \<subseteq> Q" "q \<in> Q - at_the_gate g \<Longrightarrow> unallocated w q"
    "q \<in> set (gate_line g) \<Longrightarrow> waiting w q"
    "set (gate_line g) \<inter> fst ` set (owed g) = {}"
proof -
  show "well_formed w (gate_line g)" "\<not> locked (prim_state w)" and st: "fst (gate_state (w, [])) = posture g"
    and "posture g \<noteq> Controlled \<Longrightarrow> gate_line g = []"
    "distinct (map fst (owed g))" and hr: "\<And>q out. (q, out) \<in> set (owed g) \<Longrightarrow> \<exists>r. has_result r w q \<and> gate_to_result r None = out"
    and "at_the_gate g \<subseteq> Q" "q \<in> Q - at_the_gate g \<Longrightarrow> unallocated w q"
    using assms by (auto simp: gate_represents_def)
  show qu: "queue w (gate_line g)"
    using assms by (simp add: gate_represents_def well_formed_def)
  then show "q \<in> set (gate_line g) \<Longrightarrow> waiting w q"
    using queue_facts(2) by blast
  show "state_from_usize (data_of (prim_state w)) = posture g"
    using st by (simp add: gate_state_def atomics data_of_def)
  show "set (gate_line g) \<inter> fst ` set (owed g) = {}"
    using queue_facts(2) [OF qu] waiting_no_result hr by fastforce
qed

lemma wake_represents:
  assumes r: "gate_represents Q w g" and a: "all_woken out st w (gate_line g) w'" and m: "same_memory w w'"
  shows "gate_represents Q w' (spec_wake out st g)"
proof -
  note f = gate_represents_facts [OF r]
  have d: "distinct (gate_line g)"
    using queue_facts(1) [OF f(2)] .
  have at: "at_the_gate (spec_wake out st g) = at_the_gate g"
    by (simp add: at_the_gate_def spec_wake_def image_Un image_image Un_commute)
  have "\<exists>r. has_result r w' q \<and> gate_to_result r None = o'" if "(q, o') \<in> set (owed (spec_wake out st g))" for q o'
  proof (cases "q \<in> set (gate_line g)")
    case True
    then have "o' = out"
      using that f(12) by (force simp: spec_wake_def)
    with True a show ?thesis
      by (auto simp: all_woken_def)
  next
    case False
    then have "(q, o') \<in> set (owed g)"
      using that by (auto simp: spec_wake_def)
    then show ?thesis
      using f(8) has_result_unchanged a False by (fastforce simp: all_woken_def)
  qed
  moreover have "distinct (map fst (owed (spec_wake out st g)))"
    using d f(7,12) by (auto simp: spec_wake_def comp_def)
  ultimately show ?thesis
    using a f(9,10) m unfolding gate_represents_def at unallocated_kept [OF m]
    by (auto simp: spec_wake_def all_woken_def)
qed

lemma leave_represents:
  assumes r: "gate_represents Q w g" and q: "q \<in> fst ` set (owed g)"
    and u: "unchanged {q} w w'" "prim_state w' = prim_state w" and un: "unallocated w' q" "\<And>p. unallocated w p \<Longrightarrow> unallocated w' p"
  shows "gate_represents Q w' (spec_leave q g)"
proof -
  note f = gate_represents_facts [OF r]
  have n: "q \<notin> set (gate_line g)"
    using q f(12) by blast
  then have at: "at_the_gate (spec_leave q g) = at_the_gate g - {q}"
    by (auto simp: at_the_gate_def spec_leave_def)
  have "well_formed w' (gate_line g)"
    using well_formed_unchanged(1) [OF f(1) u(1)] n u(2) by simp
  moreover have "\<exists>r. has_result r w' p \<and> gate_to_result r None = o'" if "(p, o') \<in> set (owed (spec_leave q g))" for p o'
    using that f(8) [of p o'] has_result_unchanged [OF u(1)] by (auto simp: spec_leave_def)
  moreover have "distinct (map fst (owed (spec_leave q g)))"
    using f(7) by (auto simp: spec_leave_def intro: distinct_map_filter)
  moreover have "unallocated w' p" if "p \<in> Q - (at_the_gate g - {q})" for p
    using that un f(10) [of p] by (cases "p = q") auto
  ultimately show ?thesis
    using f(3,4,6,9) u(2) unfolding gate_represents_def at
    by (auto simp: spec_leave_def gate_state_def atomics)
qed

text \<open>A task that is new at the gate gets a place in the line, or a result.\<close>

lemma join_represents:
  assumes r: "gate_represents Q w g" and q: "q \<in> Q" "q \<notin> at_the_gate g" and u: "unchanged {q} w w'"
    and un: "\<And>p. p \<in> Q \<Longrightarrow> p \<noteq> q \<Longrightarrow> unallocated w p \<Longrightarrow> unallocated w' p"
    and nl: "\<not> locked (prim_state w')" and st: "data_of (prim_state w') = data_of (prim_state w)"
  shows "posture g = Controlled \<Longrightarrow> well_formed w' (gate_line g @ [q]) \<Longrightarrow> gate_represents Q w' (g\<lparr>gate_line := gate_line g @ [q]\<rparr>)"
    and "posture g \<noteq> Controlled \<Longrightarrow> well_formed w' [] \<Longrightarrow> has_result r' w' q \<Longrightarrow> gate_to_result r' None = out \<Longrightarrow>
      gate_represents Q w' (g\<lparr>owed := owed g @ [(q, out)]\<rparr>)"
proof -
  note f = gate_represents_facts [OF r]
  have o: "\<exists>r. has_result r w' p \<and> gate_to_result r None = o'" if "(p, o') \<in> set (owed g)" for p o'
  proof -
    have "p \<noteq> q"
      using that q(2) by (force simp: at_the_gate_def)
    with f(8) [OF that] has_result_unchanged [OF u] show ?thesis
      by auto
  qed
  have p: "fst (gate_state (w', [])) = posture g"
    using f(4) st by (simp add: gate_state_def atomics data_of_def)
  have n: "q \<notin> fst ` set (owed g)"
    using q(2) by (simp add: at_the_gate_def)
  have un': "unallocated w' p" if "p \<in> Q - insert q (at_the_gate g)" for p
    using un [of p] f(10) [of p] that by auto
  have at: "at_the_gate (g\<lparr>gate_line := gate_line g @ [q]\<rparr>) = insert q (at_the_gate g)"
    "at_the_gate (g\<lparr>owed := owed g @ [(q, out)]\<rparr>) = insert q (at_the_gate g)"
    by (auto simp: at_the_gate_def)
  show "posture g = Controlled \<Longrightarrow> well_formed w' (gate_line g @ [q]) \<Longrightarrow> gate_represents Q w' (g\<lparr>gate_line := gate_line g @ [q]\<rparr>)"
    using nl p f(7,9) o un' q(1) unfolding gate_represents_def at by (auto simp: at_the_gate_def)
  show "posture g \<noteq> Controlled \<Longrightarrow> well_formed w' [] \<Longrightarrow> has_result r' w' q \<Longrightarrow> gate_to_result r' None = out \<Longrightarrow>
      gate_represents Q w' (g\<lparr>owed := owed g @ [(q, out)]\<rparr>)"
    using nl p f(6,7,9) o un' q(1) n unfolding gate_represents_def at by auto
qed

lemma push_quiet:
  assumes "well_formed w qs" "\<not> locked (prim_state w)" "fresh_entry w q" "state_from_usize (data_of (prim_state w)) = Controlled"
  shows "\<exists>w'. push_wait_queue_entry q id (w, []) = Some (w', []) \<and> well_formed w' (qs @ [q]) \<and> unchanged {q} w w' \<and>
    same_memory w w' \<and> \<not> locked (prim_state w') \<and> data_of (prim_state w') = data_of (prim_state w)"
proof -
  let ?x = "(prim_state w AND NOT ADDR_MASK) OR anchor_addr q"
  have l: "live w q" and aq: "addr_of (anchor_addr q) = anchor_addr q" and qu: "queue w qs"
    using assms(1,3) by (auto simp: fresh_entry_def well_formed_def)
  note v = replace_addr_views [OF aq, of "prim_state w"]
  note p = push_well_formed [OF qu assms(3) v(1)]
  have "try_push_wait_queue_entry q (prim_state w) (w, []) = Some (True, (pushed q ?x w, []))"
    using l by (simp add: try_push_wait_queue_entry_def queue_simps atomics upd_prim pushed_def to_anchor_ptr_def addr_of_def Let_def)
  then have "push_wait_queue_entry q id (w, []) = Some (pushed q ?x w, [])"
    using assms(4) by (subst push_wait_queue_entry.simps) (simp add: load_def data_of_def)
  then show ?thesis
    using p v assms(2) same_memory_pushed [OF l] by auto
qed

lemma enter_represents:
  assumes r: "gate_represents Q w g" and q: "q \<in> Q" "q \<notin> at_the_gate g" and ap: "apart Q"
  shows "\<exists>w'. run_call prim (Enter q b) (w, []) = Some (Entered, (w', [])) \<and> gate_represents Q w' (snd (spec_call (Enter q b) g)) \<and>
    (posture g \<noteq> Controlled \<longrightarrow> is_sync_entry w' q = b)"
proof -
  note f = gate_represents_facts [OF r]
  have uq: "unallocated w q"
    using f(10) q by blast
  obtain w1 where c: "construct q prim Gate_drop (Wait 0) b (wait_queue_default q (w, [])) = Some (w1, [])"
    and fr: "fresh_entry w1 q" "is_sync_entry w1 q = b" and ps: "prim_state w1 = prim_state w" and u1: "unchanged {} w w1"
    using construct_fresh [OF uq, of "Wait 0" prim Gate_drop b "[]"] by auto
  have l: "live w1 q"
    using fr by (simp add: fresh_entry_def)
  have wf1: "well_formed w1 (gate_line g)"
    using well_formed_unchanged(1) [OF f(1) u1] ps by simp
  note el = construct_apart [OF ap q(1) uq _ _ _ c]
  show ?thesis
  proof (cases "posture g = Controlled")
    case True
    obtain w' where w': "push_wait_queue_entry q id (w1, []) = Some (w', [])" "well_formed w' (gate_line g @ [q])" "unchanged {q} w1 w'"
      "same_memory w1 w'" "\<not> locked (prim_state w')" "data_of (prim_state w') = data_of (prim_state w)"
      using push_quiet [OF wf1 _ fr(1)] f(3,5) True ps by auto
    have "unchanged {q} w w'"
      using unchanged_trans [OF u1 w'(3)] by simp
    from join_represents(1) [OF r q this _ w'(5,6) True w'(2)] el unallocated_kept [OF w'(4)] c w'(1) True show ?thesis
      by auto
  next
    case False
    let ?r = "into_u8 (posture g) (gate_verdict (posture g))"
    let ?w = "resolve ?r q w1"
    have st: "state_from_usize (data_of (prim_state w1)) = posture g"
      using f(5) ps by simp
    then have p: "push_wait_queue_entry q id (w1, []) = Some (?w, [])"
      using False l by (subst push_wait_queue_entry.simps) (cases "posture g"; simp add: load_def queue_simps data_of_def)
    have "unchanged {q} w ?w"
      using unchanged_trans [OF u1 unchanged_resolve [OF l]] by simp
    moreover have "well_formed ?w []"
      using well_formed_unchanged(1) [OF wf1 unchanged_resolve [OF l]] f(6) [OF False] by simp
    moreover have "gate_to_result ?r None = (if posture g = Open then Ok Open else Err Error_Sealed)"
      using False by (cases "posture g") (simp_all add: gate_decode)
    ultimately have "gate_represents Q ?w (g\<lparr>owed := owed g @ [(q, if posture g = Open then Ok Open else Err Error_Sealed)]\<rparr>)"
      using join_represents(2) [OF r q _ _ _ _ False _ resolve_fresh [OF fr(1)]] el unallocated_kept [OF same_memory_resolve [OF l]] f(3) ps
      by auto
    then show ?thesis
      using c p False resolve_kind [OF l l] fr(2) by (cases "posture g") auto
  qed
qed

lemma poll_represents:
  assumes r: "gate_represents Q w g" and q: "q \<in> set (gate_line g)" and p: "polls q w w'" and m: "same_memory w w'"
  shows "gate_represents Q w' g"
proof -
  note f = gate_represents_facts [OF r]
  have u: "unchanged {q} w w'" and ps: "prim_state w' = prim_state w"
    using p by (simp_all add: polls_def)
  have o: "\<exists>r. has_result r w' x \<and> gate_to_result r None = o'" if "(x, o') \<in> set (owed g)" for x o'
  proof -
    have "x \<noteq> q"
      using that q f(12) by (force simp: disjoint_iff)
    with f(8) [OF that] has_result_unchanged [OF u] show ?thesis
      by auto
  qed
  show ?thesis
    using well_formed_polls [OF f(1) p] f(3,4,6,7,9,10) o ps unallocated_kept [OF m]
    unfolding gate_represents_def by (auto simp: gate_state_def atomics)
qed

text \<open>A result that is taken and the end of the wait queue.\<close>

lemma taken_represents:
  assumes r: "gate_represents Q w g" and q: "q \<in> fst ` set (owed g)" and l: "live w q"
  shows "\<exists>w'. wait_queue_drop (\<lambda>_. gate_drop_wait_queue_entry) q (consume q w, []) = Some (w', []) \<and> gate_represents Q w' (spec_leave q g)"
proof -
  let ?w = "fst (wait_queue_free q (consume q w, []))"
  have lc: "live (consume q w) q" "\<not> pollable (node (consume q w) q)"
    using l by (simp_all add: consume_def)
  note fr = free_entry [OF lc(1), where es = "[]"]
  have m: "same_memory w (consume q w)"
    using l by (auto simp: same_memory_def consume_def upd_def live_def node_def same_shape_def option.rel_refl split: Monitor.split)
  have "wait_queue_drop (\<lambda>_. gate_drop_wait_queue_entry) q (consume q w, []) = Some (?w, [])"
    using drop_acknowledged [OF lc, of "\<lambda>_. gate_drop_wait_queue_entry" "[]"] fr(4) by (metis prod.collapse)
  moreover have "gate_represents Q ?w (spec_leave q g)"
  proof (rule leave_represents [OF r q])
    show "unchanged {q} w ?w"
      using unchanged_trans [OF unchanged_consume [OF l] fr(1)] by simp
    show "prim_state ?w = prim_state w"
      using fr(3) by (simp add: consume_def)
    show "unallocated ?w q"
      by (rule fr(2))
    show "unallocated ?w p" if "unallocated w p" for p
      using that free_allocates_nothing unallocated_kept [OF m] by blast
  qed
  ultimately show ?thesis
    by blast
qed

text \<open>A future that is dropped: its entry has been resolved, by others or by the removal itself.\<close>

lemma dropped_represents:
  assumes r: "gate_represents Q w1 g" and q: "q \<in> fst ` set (owed g)"
    and l: "live w q" "pollable (node w q)" "live w1 q"
    and d: "gate_drop_wait_queue_entry (entry_addr q) (w, []) = Some (consume q w1, [])"
  shows "\<exists>w'. wait_queue_drop (\<lambda>_. gate_drop_wait_queue_entry) q (w, []) = Some (w', []) \<and> gate_represents Q w' (spec_leave q g)"
proof -
  have "upd q (\<lambda>e. e\<lparr>pollable := False\<rparr>) (consume q w1) = consume q w1"
    using l(3) by (cases w1) (auto simp: consume_def upd_def live_def node_def fun_upd_def)
  then have "wait_queue_drop (\<lambda>_. gate_drop_wait_queue_entry) q (w, []) = wait_queue_drop (\<lambda>_. gate_drop_wait_queue_entry) q (consume q w1, [])"
    using l d drop_acknowledged [of "consume q w1" q "\<lambda>_. gate_drop_wait_queue_entry" "[]"]
    by (simp add: wait_queue_drop_def prepare_drop_def queue_simps consume_def)
  with taken_represents [OF r q l(3)] show ?thesis
    by simp
qed

lemma cancel_represents:
  assumes r: "gate_represents Q w g" and q: "q \<in> at_the_gate g"
  shows "\<exists>w'. run_call prim (Cancel q) (w, []) = Some (Gone, (w', [])) \<and> gate_represents Q w' (snd (spec_call (Cancel q) g))"
proof (cases "q \<in> set (gate_line g)")
  case True
  note f = gate_represents_facts [OF r]
  obtain w1 r1 y where d: "gate_drop_wait_queue_entry (entry_addr q) (w, []) = Some (consume q w1, [])" and r1: "has_result r1 w1 q"
    and a: "all_woken (Err SpuriousFailure) (posture g) w (gate_line g) w1" and k: "wake_all None (Some SpuriousFailure) (w, []) = Some (y, (w1, []))"
    using gate_drop_waiting [OF f(1) True, unfolded f(5)] by (elim exE conjE) (rule that)
  have m: "same_memory w w1"
    using keeps_wake_all [OF k] by (simp add: keeps_def)
  have o: "q \<in> fst ` set (owed (spec_wake (Err SpuriousFailure) (posture g) g))"
    using True by (simp add: spec_wake_def image_Un image_image)
  have "live w q" "pollable (node w q)" "live w1 q"
    using f(11) [OF True] r1 by (simp_all add: waiting_def has_result_def)
  from dropped_represents [OF wake_represents [OF r a m] o this d] True show ?thesis
    by auto
next
  case False
  then have o: "q \<in> fst ` set (owed g)"
    using q by (simp add: at_the_gate_def)
  then obtain r' where r': "has_result r' w q"
    using gate_represents_facts(8) [OF r] by fastforce
  then have l: "live w q" "pollable (node w q)"
    by (simp_all add: has_result_def)
  have "gate_drop_wait_queue_entry (entry_addr q) (w, []) = Some (consume q w, [])"
    using try_consume_result_ready [OF interfere.simps(1) r'] by (simp add: gate_drop_wait_queue_entry_def)
  from dropped_represents [OF r o l l(1) this] False show ?thesis
    by auto
qed

lemma poll_call_represents:
  assumes r: "gate_represents Q w g" and q: "q \<in> at_the_gate g"
  shows "\<exists>w'. run_call prim (Poll q t) (w, []) = Some (fst (spec_call (Poll q t) g), (w', [])) \<and>
    gate_represents Q w' (snd (spec_call (Poll q t) g))"
proof (cases "q \<in> set (gate_line g)")
  case True
  note f = gate_represents_facts [OF r]
  obtain w' where w': "poll_once t (entry_addr q) (w, []) = Some (Sleep, (w', []))" "polls q w w'"
    using poll_once_waiting [OF f(11) [OF True], of t] by blast
  have "same_memory w w'"
    using keeps_poll_once [OF w'(1)] by (simp add: keeps_def)
  from poll_represents [OF r True w'(2) this] have "gate_represents Q w' g" .
  moreover have "map_of (owed g) q = None"
    using True f(12) by (auto simp: map_of_eq_None_iff)
  ultimately show ?thesis
    using w'(1) by auto
next
  case False
  then have o: "q \<in> fst ` set (owed g)"
    using q by (simp add: at_the_gate_def)
  then obtain out where out: "map_of (owed g) q = Some out"
    by (metis map_of_eq_None_iff option.exhaust)
  then obtain r' where r': "has_result r' w q" "gate_to_result r' None = out"
    using gate_represents_facts(8) [OF r map_of_SomeD] by blast
  have "live w q"
    using r'(1) by (simp add: has_result_def)
  from taken_represents [OF r o this] poll_once_ready [OF r'(1), of t] out r'(2) show ?thesis
    by auto
qed

lemma reset_represents:
  assumes r: "gate_represents Q w g"
  shows "\<exists>w'. reset (w, []) = (if posture g = Controlled then None else Some (posture g), (w', [])) \<and> gate_represents Q w' g"
proof -
  note f = gate_represents_facts [OF r]
  show ?thesis
  proof (cases "posture g = Controlled")
    case True
    then show ?thesis
      using r f(5) by (simp add: reset_def atomics reset_closure_def data_of_def Let_def)
  next
    case False
    let ?x = "(prim_state w AND ADDR_MASK) OR ucast (u8_from_state (posture g))"
    let ?w = "w\<lparr>prim_state := ?x\<rparr>"
    note v = replace_data_views [of "ucast (u8_from_state (posture g))" "prim_state w", OF state_code(2)]
    have "reset (w, []) = (Some (posture g), (?w, []))"
      using f(5) False by (simp add: reset_def atomics reset_closure_def data_of_def Let_def)
    moreover have "gate_represents Q ?w g"
      using r v well_formed_unchanged(1) [OF f(1), of "{}" ?w] f(6) [OF False]
      by (simp add: gate_represents_def gate_state_def atomics unchanged_def unallocated_def has_result_def data_of_def [symmetric])
    ultimately show ?thesis
      using False by auto
  qed
qed

lemma wake_call_represents:
  assumes r: "gate_represents Q w g" and k: "wake_all ns error (w, []) = Some (y, (w', []))"
    and a: "all_woken out st w (gate_line g) w'"
  shows "gate_represents Q w' (spec_wake out st g)"
  using wake_represents [OF r a] keeps_wake_all [OF k] by (simp add: keeps_def)

lemma wake_calls_represent:
  assumes r: "gate_represents Q w g"
  shows "\<exists>w'. wake_all ns error (w, []) = Some ((posture g, of_nat (length (gate_line g))), (w', [])) \<and>
    gate_represents Q w' (spec_wake (gate_outcome error (case ns of None \<Rightarrow> posture g | Some st \<Rightarrow> st)) (case ns of None \<Rightarrow> posture g | Some st \<Rightarrow> st) g)"
  using wake_all_wakes [OF interfere.simps(1) gate_represents_facts(1) [OF r], of ns error] wake_call_represents [OF r]
  unfolding gate_represents_facts(5) [OF r] by blast

lemma call_refines:
  assumes r: "gate_represents Q w g" and ok: "call_ok Q c g" and ap: "apart Q"
  shows "\<exists>w'. run_call prim c (w, []) = Some (fst (spec_call c g), (w', [])) \<and> gate_represents Q w' (snd (spec_call c g))"
proof (cases c)
  case (Enter q b)
  then show ?thesis
    using enter_represents [OF r _ _ ap, of q prim b] ok by auto
next
  case (Poll q t)
  then show ?thesis
    using poll_call_represents [OF r] ok by simp
next
  case Permit
  then show ?thesis
    using wake_calls_represent [OF r, of None None] by (auto simp: permit_def gate_outcome_def spec_woke_def)
next
  case Reject
  then show ?thesis
    using wake_calls_represent [OF r, of None "Some Rejected"] by (auto simp: reject_def gate_outcome_def spec_woke_def)
next
  case Open_up
  then show ?thesis
    using wake_calls_represent [OF r, of "Some Open" None] by (auto simp: open_gate_def gate_outcome_def)
next
  case Seal_up
  then show ?thesis
    using wake_calls_represent [OF r, of "Some Sealed" "Some Error_Sealed"] by (auto simp: seal_def gate_outcome_def)
next
  case Reset_it
  then show ?thesis
    using reset_represents [OF r] by auto
next
  case Ask
  then show ?thesis
    using r gate_represents_facts(4) [OF r] by (auto simp: gate_state_def atomics)
next
  case (Cancel q)
  then show ?thesis
    using cancel_represents [OF r] ok by simp
qed

lemma calls_refine:
  assumes ap: "apart Q"
  shows "gate_represents Q w g \<Longrightarrow> calls_ok Q cs g \<Longrightarrow>
    \<exists>w'. run_calls prim cs (w, []) = Some (fst (spec_calls cs g), (w', [])) \<and> gate_represents Q w' (snd (spec_calls cs g))"
proof (induction cs arbitrary: w g)
  case (Cons c cs)
  obtain w1 where w1: "run_call prim c (w, []) = Some (fst (spec_call c g), (w1, []))" "gate_represents Q w1 (snd (spec_call c g))"
    using call_refines [OF Cons.prems(1) _ ap] Cons.prems(2) by auto
  from Cons.IH [OF w1(2)] Cons.prems(2) w1(1) show ?case
    by (auto simp: case_prod_beta Let_def)
qed simp

lemma new_gate_represents: "apart Q \<Longrightarrow> gate_represents Q gate_new new_gate"
  by (simp add: gate_represents_def new_gate_def at_the_gate_def gate_new_def fresh_world_def gate_state_def atomics
      state_from_usize_def apart_def unallocated_def well_formed_def queue_def)

text \<open>Entering a gate that is open or sealed returns at once.\<close>

lemma enter_sync_decided:
  assumes r: "gate_represents Q w g" and q: "q \<in> Q" "q \<notin> at_the_gate g" and ap: "apart Q" and st: "posture g \<noteq> Controlled"
  shows "\<exists>w'. enter_sync prim t q (w, []) = Some (if posture g = Open then Ok Open else Err Error_Sealed, (w', [])) \<and> gate_represents Q w' g"
proof -
  define out where "out = (if posture g = Open then Ok Open else Err Error_Sealed)"
  let ?g = "g\<lparr>owed := owed g @ [(q, out)]\<rparr>"
  have g: "snd (spec_call (Enter q True) g) = ?g"
    using st by (cases "posture g") (auto simp: out_def)
  obtain w1 where w1: "run_call prim (Enter q True) (w, []) = Some (Entered, (w1, []))" "gate_represents Q w1 ?g" "is_sync_entry w1 q"
    using enter_represents [OF r q ap, of prim True, unfolded g] st by auto
  obtain r' where r': "has_result r' w1 q" "gate_to_result r' None = out"
    using gate_represents_facts(8) [OF w1(2), of q out] by auto
  have "gate_to_result ERROR_WRONG_MODE None = Err Error_NotReady"
    by code_simp
  then have "r' \<noteq> ERROR_WRONG_MODE"
    using r'(2) by (auto simp: out_def split: if_splits)
  note p = poll_sync_ready [OF r'(1) w1(3) this, of gate_to_result t]
  have "filter (\<lambda>p. fst p \<noteq> q) (owed g) = owed g"
    using q(2) by (force simp: filter_id_conv at_the_gate_def)
  then have l: "spec_leave q ?g = g"
    by (simp add: spec_leave_def)
  have "q \<in> fst ` set (owed ?g)" "live w1 q"
    using r'(1) by (simp_all add: has_result_def)
  from taken_represents [OF w1(2) this(1,2)] obtain w' where
    "wait_queue_drop (\<lambda>_. gate_drop_wait_queue_entry) q (consume q w1, []) = Some (w', [])" "gate_represents Q w' g"
    unfolding l by blast
  then show ?thesis
    using w1(1) p r'(2) by (auto simp: out_def enter_sync_def enter_sync_with_def bind_eq_Some_conv)
qed

lemma calls_ok_mono: "calls_ok Q cs g \<Longrightarrow> Q \<subseteq> Q' \<Longrightarrow> calls_ok Q' cs g"
proof (induction cs arbitrary: g)
  case (Cons c cs)
  have "call_ok Q' c g"
    using Cons.prems by (cases c) auto
  with Cons show ?case
    by simp
qed simp

text \<open>C23: a new gate refines the abstract gate: whatever calls are made in whatever order by tasks whose wait queues are
  different places in memory, each call returns and gives the answer of the abstract gate (the number of tasks
  that were let in or turned away, the state, the outcome with which a task leaves), and afterwards the state word, the
  list and the results of the entries are those of the abstract gate again.  So every task that enters is either in
  the line, which is empty unless the gate is controlled, or has exactly one outcome: that of the first operation since it
  entered that woke the line.\<close>

theorem gate_refines:
  assumes "apart Q" "calls_ok Q cs new_gate"
  shows "\<exists>w'. run_calls prim cs (gate_new, []) = Some (fst (spec_calls cs new_gate), (w', [])) \<and>
    gate_represents Q w' (snd (spec_calls cs new_gate))"
  using calls_refine [OF assms(1) new_gate_represents [OF assms(1)] assms(2)] .

theorem gate_refines_witness:
  "\<exists>w'. run_calls 0 [Enter 128 True, Enter 384 False, Permit, Poll 128 3, Open_up, Enter 640 True, Cancel 384, Poll 640 4] (gate_new, []) =
     Some ([Entered, Entered, Woke (Ok 2), Left (Ok Controlled), Turned (Controlled, 0), Entered, Gone, Left (Ok Open)], (w', [])) \<and>
     gate_represents {128, 384, 640} w' \<lparr>posture = Open, gate_line = [], owed = []\<rparr>"
proof -
  let ?cs = "[Enter 128 True, Enter 384 False, Permit, Poll 128 3, Open_up, Enter 640 True, Cancel 384, Poll 640 4]"
  have "apart {128, 384, 640}"
    by code_simp
  moreover have "calls_ok {128, 384, 640} ?cs new_gate"
    by code_simp
  moreover have "spec_calls ?cs new_gate = ([Entered, Entered, Woke (Ok 2), Left (Ok Controlled), Turned (Controlled, 0), Entered, Gone, Left (Ok Open)],
      \<lparr>posture = Open, gate_line = [], owed = []\<rparr>)"
    by code_simp
  ultimately show ?thesis
    using gate_refines [of "{128, 384, 640}" ?cs 0] by simp
qed

end
