(* ===== verification/Notifications.thy ===== *)
theory Notifications
  imports Lock_Primitive Gate_Primitive Barrier_Primitive Blocking_Wait
begin

text \<open>
  Who is notified when.  A task that finds no result installs its waker or thread handle in its entry and sleeps
  (\<open>poll_result_sync\<close>, \<open>poll_result_async\<close> in \<open>src/wait_queue.rs\<close>); \<open>wakeup\<close> reads off an entry which notification
  it is due.  The operations that serve a line (\<open>release_loop\<close>) or resolve all of it (\<open>poison_lock\<close>, \<open>wake_all\<close>,
  the last \<open>count_down\<close> of a barrier) notify exactly the tasks they give a result to, each once.
\<close>

section \<open>Falling asleep\<close>

fun call_for :: "task \<Rightarrow> Monitor \<Rightarrow> event" where
  "call_for t (Async _) = Wake t"
| "call_for t (Sync _) = Unpark t"

lemma install_wakeup:
  assumes "waiting w q" "install_and_flag t (entry_addr q) (w, []) = Some (out, (w', []))"
  shows "wakeup w' q = [call_for t (monitor (node w q))]" "events w' = events w"
    and "live w p \<Longrightarrow> p \<noteq> q \<Longrightarrow> wakeup w' p = wakeup w p"
proof -
  let ?w1 = "upd q (\<lambda>e. e\<lparr>monitor := install_task t (monitor e)\<rparr>) w"
  let ?w2 = "upd q (\<lambda>e. e\<lparr>entry_state := entry_state (node ?w1 q) OR WAKER_SET\<rparr>) ?w1"
  have l: "live w q" "live ?w1 q"
    using assms(1) by (simp_all add: waiting_def)
  then have w': "w' = ?w2"
    using assms(2) load_entry_state_live [OF interfere.simps(1) l(2)] by (simp add: install_and_flag_def queue_simps)
  have f: "fst (take_task (install_task t m)) = Some (call_for t m)" for m
    by (cases m) (simp_all add: take_task_def install_task_def)
  have "(x OR WAKER_SET) AND WAKER_SET = WAKER_SET" for x :: u16
    by (simp add: waker_flag bit_or_iff entry_bits)
  then show "wakeup w' q = [call_for t (monitor (node w q))]"
    using l by (simp add: w' wakeup_def node_upd f)
  show "events w' = events w"
    by (simp add: w')
  show "wakeup w' p = wakeup w p" if "live w p" "p \<noteq> q"
    using that l by (intro wakeup_same) (simp_all add: w')
qed

lemma poll_wakeup:
  assumes wt: "waiting w q"
  shows "\<exists>w'. poll_once t (entry_addr q) (w, []) = Some (Sleep, (w', [])) \<and> polls q w w' \<and> events w' = events w \<and>
    wakeup w' q = [call_for t (monitor (node w q))] \<and> (\<forall>p. live w p \<longrightarrow> p \<noteq> q \<longrightarrow> wakeup w' p = wakeup w p)"
proof -
  obtain w' where p: "poll_once t (entry_addr q) (w, []) = Some (Sleep, (w', []))" "polls q w w'"
    using poll_once_waiting [OF wt] by blast
  have l: "live w q"
    using wt by (simp add: waiting_def)
  note tc = try_consume_result_waiting [OF interfere.simps(1) wt] and ld = load_entry_state_live [OF interfere.simps(1) l]
  let ?w = "upd q (\<lambda>e. e\<lparr>entry_state := entry_state (node w q) AND NOT WAKER_SET\<rparr>) w"
  have i: "install_and_flag t (entry_addr q) (if entry_state (node w q) AND WAKER_SET = WAKER_SET then ?w else w, []) = Some (Sleep, (w', []))"
    using p(1) tc ld not_result_set [OF wt] l by (simp add: poll_once_def queue_simps split: if_splits)
  show ?thesis
  proof (cases "entry_state (node w q) AND WAKER_SET = WAKER_SET")
    case False
    then show ?thesis
      using p install_wakeup [OF wt, of t Sleep w'] i by auto
  next
    case True
    have "waiting ?w q" "live ?w q"
      using wt l by (auto simp: waiting_def)
    moreover have "wakeup ?w x = wakeup w x" if "live w x" "x \<noteq> q" for x
      using that l by (intro wakeup_same) simp_all
    ultimately show ?thesis
      using p install_wakeup [of ?w q t Sleep w'] i True l by (auto simp: node_upd)
  qed
qed

section \<open>Being woken\<close>

text \<open>C28: no task sleeps past its turn, and nobody is called who was not served.  A task in the line that polls falls asleep
  with its own thread or waker announced in its entry, and its place in the line is kept.  Whatever is released
  then, the tasks that are notified are exactly those that the release serves, each once, from the newest to the oldest: if
  the sleeping task is among them it is unparked or woken, and is due no second notification; if not, it is still due its
  notification.\<close>

theorem served_sleepers_woken:
  fixes given :: Opcode
  assumes "unat most \<le> 63" "represents w r" "(q, opc) \<in> set (line r)"
  defines "r' \<equiv> snd (spec_release (unat most) given r)"
  shows "\<exists>w1 w2. poll_once t (entry_addr q) (w, []) = Some (Sleep, (w1, [])) \<and> represents w1 r \<and>
    release_loop most (prim_state w1) given (w1, []) = Some (fst (spec_release (unat most) given r), (w2, [])) \<and>
    represents w2 r' \<and>
    (let served = map fst (take (length (line r) - length (line r')) (line r));
         called = wakeups w1 (rev served) in
     events w2 = events w @ called \<and>
     (if q \<in> set served then call_for t (monitor (node w q)) \<in> set called \<and> wakeup w2 q = []
      else wakeup w2 q = [call_for t (monitor (node w q))]))"
proof -
  have qu: "queue w (map fst (line r))" and qi: "q \<in> set (map fst (line r))"
    using assms(2,3) by (force simp: represents_def well_formed_def)+
  then obtain w1 where w1: "poll_once t (entry_addr q) (w, []) = Some (Sleep, (w1, []))" "polls q w w1" "events w1 = events w"
    "wakeup w1 q = [call_for t (monitor (node w q))]"
    using poll_wakeup [OF queue_facts(2) [OF qu]] by blast
  have r1: "represents w1 r"
    by (rule represents_polls [OF assms(2) w1(2)])
  obtain w2 where w2: "release_loop most (prim_state w1) given (w1, []) = Some (fst (spec_release (unat most) given r), (w2, []))"
    "represents w2 r'" "woken_up r r' w1 w2"
    using sync_primitive.release_refines [OF sync_primitive.intro [OF assms(1)] r1, of given] unfolding r'_def by blast
  have "\<exists>n \<le> length (line r). line r' = drop n (line r)"
  proof (cases "releasable given (in_use r)")
    case True
    let ?ops = "map snd (line r)"
    have "line r' = drop (granted (unat most) (in_use r - acquired given) ?ops) (line r)"
      using True by (simp add: r'_def spec_release_def grant_def Let_def)
    with granted_le [of "unat most" "in_use r - acquired given" ?ops] show ?thesis
      by auto
  qed (auto simp: r'_def spec_release_def intro: exI [of _ 0])
  then obtain n where n: "line r' = drop n (line r)" "n \<le> length (line r)"
    by blast
  define sv where "sv = map fst (take (length (line r) - length (line r')) (line r))"
  have "line r = take (length (line r) - length (line r')) (line r) @ line r'"
    using n by simp
  then have "map fst (line r) = sv @ map fst (line r')"
    unfolding sv_def by (metis map_append)
  then have "q \<in> set sv \<or> q \<in> set (map fst (line r'))"
    using qi by auto
  moreover have ev: "events w2 = events w1 @ wakeups w1 (rev sv)" and sv: "\<And>p. p \<in> set sv \<Longrightarrow> wakeup w2 p = []"
    and rest: "\<And>p. p \<in> set (map fst (line r')) \<Longrightarrow> wakeup w2 p = wakeup w1 p"
    using w2(3) by (simp_all add: woken_up_def Let_def del: set_map flip: sv_def)
  moreover have "call_for t (monitor (node w q)) \<in> set (wakeups w1 (rev sv))" if "q \<in> set sv"
    using that w1(4) by force
  ultimately have "if q \<in> set sv then call_for t (monitor (node w q)) \<in> set (wakeups w1 (rev sv)) \<and> wakeup w2 q = []
      else wakeup w2 q = [call_for t (monitor (node w q))]"
    using w1(4) by (cases "q \<in> set sv") (simp_all del: set_map)
  with w1(1,3) r1 w2(1,2) ev show ?thesis
    unfolding sv_def [symmetric] Let_def by (metis (no_types))
qed

text \<open>Everybody in the line has been called, each once.\<close>

definition all_called :: "usize list \<Rightarrow> world \<Rightarrow> world \<Rightarrow> bool" where
  "all_called qs w w' \<longleftrightarrow> events w' = events w @ wakeups w (rev qs) \<and> (\<forall>q \<in> set qs. wakeup w' q = [])"

lemma all_called_resolve:
  assumes "queue w qs"
  shows "all_called qs w (fold (resolve r) (rev qs) (w\<lparr>prim_state := x\<rparr>))"
  using fold_resolve_wakeup [of "rev qs" "w\<lparr>prim_state := x\<rparr>", where r = r] queue_facts(1,3) [OF assms] by (simp add: all_called_def)

text \<open>C29: the operations that end a wait for everybody also wake everybody: poisoning a lock, changing the state of a gate or
  letting tasks through it, and the last arrival at a barrier notify every task of the line that has announced itself, each once and
  nobody else, from the newest to the oldest; the line's entries are due no notification afterwards.  (The last to arrive at a
  barrier is itself called if its entry is due a call.)\<close>

theorem whole_line_woken:
  assumes "well_formed w qs" "\<not> locked (prim_state w)"
  shows "(data_of (prim_state w) = DATA_MASK \<longrightarrow>
      (\<exists>w'. poison_lock (w, []) = Some (True, (w', [])) \<and> all_called qs w w')) \<and>
    (\<exists>w' out. wake_all ns error (w, []) = Some (out, (w', [])) \<and> snd out = of_nat (length qs) \<and> all_called qs w w') \<and>
    (fresh_entry w q \<and> data_of (prim_state w) = 1 \<longrightarrow>
      (\<exists>w'. count_down prim q is_sync cb (w, []) = Some (False, (w', [])) \<and>
        events w' = events w @ wakeups w (rev qs) @ wakeup w q \<and> (\<forall>p \<in> set (q # qs). wakeup w' p = [])))"
proof (intro conjI impI)
  have qu: "queue w qs"
    using assms(1) by (simp add: well_formed_def)
  show "\<exists>w'. poison_lock (w, []) = Some (True, (w', [])) \<and> all_called qs w w'" if "data_of (prim_state w) = DATA_MASK"
    using poison_alone(1) [OF assms that] all_called_resolve [OF qu] by blast
  show "\<exists>w' out. wake_all ns error (w, []) = Some (out, (w', [])) \<and> snd out = of_nat (length qs) \<and> all_called qs w w'"
    using wake_all_effect [OF interfere.simps(1) qu, of ns error] all_called_resolve [OF qu] by auto
  assume a: "fresh_entry w q \<and> data_of (prim_state w) = 1"
  let ?w1 = "fold (resolve 0) (rev qs) (w\<lparr>prim_state := 0\<rparr>)"
  have nq: "q \<notin> set qs" and l: "live w q"
    using fresh_not_queued [OF qu] a by (auto simp: fresh_entry_def)
  have c: "all_called qs w ?w1"
    by (rule all_called_resolve [OF qu])
  have ls: "\<forall>p \<in> set (rev qs). live (w\<lparr>prim_state := 0\<rparr>) p"
    using queue_facts(3) [OF qu] by simp
  note fr = fold_resolve_frame [OF ls, where r = 0]
  have "wakeup ?w1 q = wakeup w q"
    using fr(5) [of q] nq l by (intro wakeup_same) simp_all
  then have ev: "events (completed q qs w) = events w @ wakeups w (rev qs) @ wakeup w q"
    and wq: "wakeup (completed q qs w) q = []"
    using c by (simp_all add: completed_def resolve_wakeup all_called_def)
  have "wakeup (completed q qs w) p = []" if p: "p \<in> set qs" for p
  proof -
    have "live w p" "p \<noteq> q"
      using p nq queue_facts(3) [OF qu] by auto
    then have "wakeup (completed q qs w) p = wakeup ?w1 p"
      unfolding completed_def using fr(1) [of q] fr(1) [of p] l by (intro wakeup_same) simp_all
    with c p show ?thesis
      by (simp add: all_called_def)
  qed
  with ev wq last_arrival [OF qu] a show "\<exists>w'. count_down prim q is_sync cb (w, []) = Some (False, (w', [])) \<and>
      events w' = events w @ wakeups w (rev qs) @ wakeup w q \<and> (\<forall>p \<in> set (q # qs). wakeup w' p = [])"
    by auto
qed

section \<open>A sleeping task\<close>

text \<open>A thread waits for a lock that is held exclusively; it parks, the lock is released, and the thread is unparked.\<close>

theorem served_sleepers_woken_witness:
  "\<exists>w1 w2. poll_once 5 (entry_addr 128) (one_waiter 63 Shared (Sync None), []) = Some (Sleep, (w1, [])) \<and>
     release_loop MAX_SHARED_OWNERS (prim_state w1) Exclusive (w1, []) = Some (True, (w2, [])) \<and>
     Unpark 5 \<in> set (events w2)"
proof -
  let ?w = "one_waiter 63 Shared (Sync None)" and ?r = "\<lparr>in_use = 63, line = [(128, Shared)]\<rparr>"
  have rep: "represents ?w ?r" and m: "monitor (node ?w 128) = Sync None"
    by code_simp+
  have sp: "spec_release 62 Exclusive ?r = (True, \<lparr>in_use = 1, line = []\<rparr>)"
    by (simp add: spec_release_def grant_def can_grant_def transferred_def)
  have u: "unat MAX_SHARED_OWNERS = 62"
    by (simp add: lock_consts)
  then have "unat MAX_SHARED_OWNERS \<le> 63"
    by simp
  from served_sleepers_woken [OF this rep, of 128 Shared 5 Exclusive] show ?thesis
    unfolding u sp m Let_def by auto
qed

text \<open>The same thread is unparked when the lock is poisoned.\<close>

theorem whole_line_woken_witness:
  "\<exists>w1 w2. poll_once 5 (entry_addr 128) (one_waiter 63 Shared (Sync None), []) = Some (Sleep, (w1, [])) \<and>
     poison_lock (w1, []) = Some (True, (w2, [])) \<and> events w2 = [Unpark 5]"
proof -
  let ?w = "one_waiter 63 Shared (Sync None)" and ?r = "\<lparr>in_use = 63, line = [(128, Shared)]\<rparr>"
  have rep: "represents ?w ?r" and m: "monitor (node ?w 128) = Sync None" and wt: "waiting ?w 128" and e: "events ?w = []"
    by code_simp+
  obtain w1 where w1: "poll_once 5 (entry_addr 128) (?w, []) = Some (Sleep, (w1, []))" "polls 128 ?w w1" "events w1 = []"
    "wakeup w1 128 = [Unpark 5]"
    using poll_wakeup [OF wt, of 5] unfolding m e by auto
  have "represents w1 ?r"
    by (rule represents_polls [OF rep w1(2)])
  then have wf: "well_formed w1 [128]" "\<not> locked (prim_state w1)" and d: "data_of (prim_state w1) = DATA_MASK"
    by (simp_all add: represents_def word_unat_eq_iff DATA_MASK_eq)
  from whole_line_woken [OF wf] d obtain w2 where "poison_lock (w1, []) = Some (True, (w2, []))" "all_called [128] w1 w2"
    by blast
  with w1 show ?thesis
    by (auto simp: all_called_def)
qed

end
