(* ===== verification/Debug_Output.thy ===== *)
theory Debug_Output
  imports Lock_System Semaphore_System Barrier_Primitive
begin

text \<open>
  The \<open>Debug\<close> implementations of \<open>src/lock.rs\<close>, \<open>src/semaphore.rs\<close> and \<open>src/barrier.rs\<close>: the fields they print are
  read off one load of the state word.
\<close>

section \<open>Debug formatting\<close>

text \<open>\<open>Formatter::debug_struct\<close>: the name of the struct and its fields.\<close>

datatype debug_value = Debug_usize usize | Debug_bool bool

datatype debug_output = Debug_struct string "(string \<times> debug_value) list"

definition lock_fmt :: "sys \<Rightarrow> debug_output \<times> sys" where
  "lock_fmt s =
     (case load s of (state, s) \<Rightarrow>
      let lock_share_state = state AND DATA_MASK;
          locked = (lock_share_state = DATA_MASK);
          share_count = (if locked then 0 else lock_share_state);
          poisoned = (state = POISONED_STATE);
          wait_queue_being_processed = (state AND LOCKED_FLAG = LOCKED_FLAG);
          wait_queue_tail_addr = state AND ADDR_MASK
      in (Debug_struct ''WaitQueue''
            [(''state'', Debug_usize state),
             (''locked'', Debug_bool locked),
             (''share_count'', Debug_usize share_count),
             (''poisoned'', Debug_bool poisoned),
             (''wait_queue_being_processed'', Debug_bool wait_queue_being_processed),
             (''wait_queue_tail_addr'', Debug_usize wait_queue_tail_addr)], s))"

definition semaphore_fmt :: "sys \<Rightarrow> debug_output \<times> sys" where
  "semaphore_fmt s =
     (case load s of (state, s) \<Rightarrow>
      let available_permits = MAX_PERMITS - (state AND DATA_MASK);
          wait_queue_being_processed = (state AND LOCKED_FLAG = LOCKED_FLAG);
          wait_queue_tail_addr = state AND ADDR_MASK
      in (Debug_struct ''WaitQueue''
            [(''state'', Debug_usize state),
             (''available_permits'', Debug_usize available_permits),
             (''wait_queue_being_processed'', Debug_bool wait_queue_being_processed),
             (''wait_queue_tail_addr'', Debug_usize wait_queue_tail_addr)], s))"

definition barrier_fmt :: "sys \<Rightarrow> debug_output \<times> sys" where
  "barrier_fmt s =
     (case load s of (state, s) \<Rightarrow>
      let counter = state AND DATA_MASK;
          wait_queue_being_processed = (state AND LOCKED_FLAG = LOCKED_FLAG);
          wait_queue_tail_addr = state AND ADDR_MASK
      in (Debug_struct ''WaitQueue''
            [(''state'', Debug_usize state),
             (''counter'', Debug_usize counter),
             (''wait_queue_being_processed'', Debug_bool wait_queue_being_processed),
             (''wait_queue_tail_addr'', Debug_usize wait_queue_tail_addr)], s))"

text \<open>The anchor address that the state word holds while the tasks \<open>qs\<close> wait.\<close>

definition last_anchor :: "usize list \<Rightarrow> usize" where
  "last_anchor qs = (if qs = [] then 0 else anchor_addr (last qs))"

lemma queue_last_anchor: "queue w qs \<Longrightarrow> addr_of (prim_state w) = last_anchor qs"
  using queue_empty_iff queue_addr by (auto simp: last_anchor_def)

definition tail_addr :: "books \<Rightarrow> usize" where
  "tail_addr g = last_anchor (pending g)"

lemma accounted_tail:
  assumes "accounted limit w g"
  shows "addr_of (prim_state w) = tail_addr g"
  using queue_last_anchor [OF accounted_facts(10) [OF assms]] by (simp add: tail_addr_def)

lemma unat_back: "of_nat (unat x) = (x :: usize)"
  by simp

text \<open>C34: the debug output of a lock and of a semaphore is right in every reachable state, and that of a barrier
  whenever its queue is not locked: it reports the exclusive
  owner, the number of shared owners or of available permits (without underflow), the poison, the counter and
  the wait queue that was pushed last.  Between operations no wait queue is being processed; a poisoned lock says that one is,
  because the two share a bit.\<close>

theorem debug_output_right:
  "(lock_reachable (w, p, g) \<longrightarrow>
     fst (lock_fmt (w, [])) = Debug_struct ''WaitQueue''
       [(''state'', Debug_usize (prim_state w)),
        (''locked'', Debug_bool (Exclusive \<in># holders w g)),
        (''share_count'', Debug_usize (of_nat (count (holders w g) Shared))),
        (''poisoned'', Debug_bool p),
        (''wait_queue_being_processed'', Debug_bool p),
        (''wait_queue_tail_addr'', Debug_usize (tail_addr g))]) \<and>
   (semaphore_reachable permits (w, g) \<longrightarrow>
     fst (semaphore_fmt (w, [])) = Debug_struct ''WaitQueue''
       [(''state'', Debug_usize (prim_state w)),
        (''available_permits'', Debug_usize (of_nat (63 - held w g))),
        (''wait_queue_being_processed'', Debug_bool False),
        (''wait_queue_tail_addr'', Debug_usize (tail_addr g))]) \<and>
   (queue v qs \<and> \<not> locked (prim_state v) \<longrightarrow>
     fst (barrier_fmt (v, [])) = Debug_struct ''WaitQueue''
       [(''state'', Debug_usize (prim_state v)),
        (''counter'', Debug_usize (fst (barrier_count (v, [])))),
        (''wait_queue_being_processed'', Debug_bool False),
        (''wait_queue_tail_addr'', Debug_usize (last_anchor qs))])"
proof (intro conjI impI)
  assume r: "lock_reachable (w, p, g)"
  note l = lock_word_reports [OF r] and f = lock_inv_facts [OF lock_inv_reachable [OF r]]
  have "data_of (prim_state w) = of_nat (count (holders w g) Shared)" if "Exclusive \<notin># holders w g"
    using unat_back [of "data_of (prim_state w)"] l(1) l(5) [OF that] by simp
  then have s: "(if data_of (prim_state w) = DATA_MASK then 0 else data_of (prim_state w)) = of_nat (count (holders w g) Shared)"
    using l(2,6) by auto
  have a: "locked (prim_state w) = p \<and> addr_of (prim_state w) = tail_addr g"
  proof (cases p)
    case True
    then show ?thesis
      using f(1,7) poisoned_views by (simp add: tail_addr_def last_anchor_def)
  next
    case False
    then show ?thesis
      using f(4) accounted_facts(11) accounted_tail by fastforce
  qed
  show "fst (lock_fmt (w, [])) = Debug_struct ''WaitQueue''
       [(''state'', Debug_usize (prim_state w)),
        (''locked'', Debug_bool (Exclusive \<in># holders w g)),
        (''share_count'', Debug_usize (of_nat (count (holders w g) Shared))),
        (''poisoned'', Debug_bool p),
        (''wait_queue_being_processed'', Debug_bool p),
        (''wait_queue_tail_addr'', Debug_usize (tail_addr g))]"
    unfolding lock_fmt_def atomics_alone Let_def prod.case fst_conv data_of_def [symmetric] addr_of_def [symmetric]
      locked_def [symmetric] l(2,7) using a s [unfolded l(2)] by simp
next
  assume r: "semaphore_reachable permits (w, g)"
  note inv = semaphore_inv_facts [OF semaphore_inv_reachable [OF r]]
  have "unat (63 - data_of (prim_state w)) = 63 - held w g"
    using accounted_facts(12) [OF inv(1)] inv(2) by (simp add: unat_sub word_le_nat_alt)
  then have "63 - data_of (prim_state w) = of_nat (63 - held w g)"
    using unat_back [of "63 - data_of (prim_state w)"] by simp
  then show "fst (semaphore_fmt (w, [])) = Debug_struct ''WaitQueue''
       [(''state'', Debug_usize (prim_state w)),
        (''available_permits'', Debug_usize (of_nat (63 - held w g))),
        (''wait_queue_being_processed'', Debug_bool False),
        (''wait_queue_tail_addr'', Debug_usize (tail_addr g))]"
    using accounted_facts(11) [OF inv(1)] accounted_tail [OF inv(1)]
    by (simp add: semaphore_fmt_def atomics data_of_def addr_of_def locked_def MAX_PERMITS_eq Let_def)
next
  assume "queue v qs \<and> \<not> locked (prim_state v)"
  then show "fst (barrier_fmt (v, [])) = Debug_struct ''WaitQueue''
       [(''state'', Debug_usize (prim_state v)),
        (''counter'', Debug_usize (fst (barrier_count (v, [])))),
        (''wait_queue_being_processed'', Debug_bool False),
        (''wait_queue_tail_addr'', Debug_usize (last_anchor qs))]"
    using queue_last_anchor [of v qs]
    by (simp add: barrier_fmt_def barrier_count_def atomics addr_of_def locked_def Let_def)
qed

theorem debug_output_right_witness:
  "\<exists>w. lock_reachable (w, False, contended_books) \<and>
     (''locked'', Debug_bool True) \<in> (case fst (lock_fmt (w, [])) of Debug_struct _ fs \<Rightarrow> set fs)"
proof -
  obtain w where w: "lock_reachable (w, False, contended_books)"
    using contended_reachable by blast
  then show ?thesis
    using debug_output_right [of w False contended_books] by (auto simp: holders_def contended_books_def)
qed

end
