(* ===== verification/Examples.thy ===== *)
theory Examples
  imports Lock_System Semaphore_Primitive Barrier_Runs Gate_System
begin

text \<open>
  The programs of \<open>examples/src/examples.rs\<close> as clients of the model: each definition runs the statements of one
  program and collects what its assertions check.  The programs that spawn threads are partial runs, in every order of
  the steps of their threads; that no partial run is stuck, and what holds when the threads are joined, is proved.
\<close>

section \<open>The programs without threads\<close>

text \<open>The arguments are the addresses that the compiler chooses: of the primitive, of the wait queue of a blocking
  call and of the pager.\<close>

definition example_lock :: "usize \<Rightarrow> task \<Rightarrow> usize \<Rightarrow> bool list option" where
  "example_lock prim t q =
     do { let s = (lock_new, []);
          (_, s) \<leftarrow> lock_sync prim t q s;
          let (b1, s) = try_lock s;
          let (b2, s) = try_share s;
          (b3, s) \<leftarrow> release_share s;
          (b4, s) \<leftarrow> release_lock s;
          Some [\<not> b1, \<not> b2, \<not> b3, b4] }"

definition example_semaphore :: "usize \<Rightarrow> task \<Rightarrow> usize \<Rightarrow> bool list option" where
  "example_semaphore prim t q =
     do { let s = (semaphore_new, []);
          (_, s) \<leftarrow> acquire_many_sync prim t q (MAX_PERMITS - 1) s;
          let (b1, s) = try_acquire s;
          let (b2, s) = try_acquire s;
          (b3, s) \<leftarrow> release s;
          (b4, s) \<leftarrow> release_many MAX_PERMITS s;
          (b5, s) \<leftarrow> release_many (MAX_PERMITS - 1) s;
          Some [b1, \<not> b2, b3, \<not> b4, b5] }"

definition example_pager :: "usize \<Rightarrow> task \<Rightarrow> usize \<Rightarrow> usize \<Rightarrow> bool list option" where
  "example_pager prim t q q' =
     do { let s = wait_queue_default q' (lock_new, []);
          b1 \<leftarrow> is_registered q' s;
          (_, s) \<leftarrow> lock_sync prim t q s;
          (_, s) \<leftarrow> lock_register_pager prim q' Mode_Shared True s;
          (r2, s) \<leftarrow> try_poll lock_to_result q' s;
          (b3, s) \<leftarrow> release_lock s;
          (r4, s) \<leftarrow> poll_sync lock_to_result t q' s;
          s \<leftarrow> wait_queue_drop (\<lambda>_. lock_drop_wait_queue_entry) q' s;
          Some [\<not> b1, (case r2 of Err _ \<Rightarrow> True | Ok _ \<Rightarrow> False), b3, (case r4 of Ok _ \<Rightarrow> True | Err _ \<Rightarrow> False)] }"

section \<open>The programs with threads\<close>

text \<open>The threads of \<open>barrier\<close> are the tasks of a barrier for eight, and each of them calls \<open>wait_sync\<close> four times: it
  arrives only if it has rounds left.  They are joined when each has returned from its four calls.\<close>

inductive example_barrier_step :: "usize set \<Rightarrow> barrier_system \<Rightarrow> barrier_system \<Rightarrow> bool" for Q where
  thread: "barrier_step Q s s' \<Longrightarrow> \<forall>q \<in> Q. arrived (snd s') q \<le> 4 \<Longrightarrow> example_barrier_step Q s s'"

definition example_barrier :: "usize set \<Rightarrow> barrier_system \<Rightarrow> bool" where
  "example_barrier Q s \<longleftrightarrow> card Q = 8 \<and> (example_barrier_step Q)\<^sup>*\<^sup>* (new_barrier_system 8) s"

definition barrier_joined :: "usize set \<Rightarrow> barrier_system \<Rightarrow> bool" where
  "barrier_joined Q s \<longleftrightarrow> (\<forall>q \<in> Q. passed (snd s) q = 4)"

text \<open>In \<open>gate\<close> eight threads enter once each and poll until they are let in, while the main thread permits
  until it has counted eight.  \<open>cs\<close> is the order in which these calls have taken effect so far.  All threads are joined when
  eight have returned.\<close>

definition entering :: "gate_call list \<Rightarrow> usize list" where
  "entering cs = concat (map (\<lambda>c. case c of Enter q _ \<Rightarrow> [q] | _ \<Rightarrow> []) cs)"

fun thread_call :: "gate_call \<Rightarrow> bool" where
  "thread_call (Enter _ is_sync) = is_sync"
| "thread_call (Poll _ _) = True"
| "thread_call Permit = True"
| "thread_call _ = False"

fun entered_with :: "gate_answer \<Rightarrow> (State, gate_error) result list" where
  "entered_with (Left r) = [r]"
| "entered_with _ = []"

fun permitted :: "gate_answer \<Rightarrow> nat" where
  "permitted (Woke (Ok n)) = unat n"
| "permitted _ = 0"

definition gate_answers :: "usize \<Rightarrow> gate_call list \<Rightarrow> gate_answer list" where
  "gate_answers prim cs = (case run_calls prim cs (gate_new, []) of Some (answers, _) \<Rightarrow> answers | None \<Rightarrow> [])"

definition counted :: "usize \<Rightarrow> gate_call list \<Rightarrow> nat" where
  "counted prim cs = sum_list (map permitted (gate_answers prim cs))"

definition returned :: "usize \<Rightarrow> gate_call list \<Rightarrow> (State, gate_error) result list" where
  "returned prim cs = concat (map entered_with (gate_answers prim cs))"

definition gate_schedule :: "usize \<Rightarrow> usize set \<Rightarrow> gate_call list \<Rightarrow> bool" where
  "gate_schedule prim Q cs \<longleftrightarrow> card Q = 8 \<and> calls_ok Q cs new_gate \<and> list_all thread_call cs \<and> distinct (entering cs) \<and>
     (\<forall>i < length cs. cs ! i = Permit \<longrightarrow> counted prim (take i cs) \<noteq> 8)"

definition gate_joined :: "usize \<Rightarrow> gate_call list \<Rightarrow> bool" where
  "gate_joined prim cs \<longleftrightarrow> counted prim cs = 8 \<and> length (returned prim cs) = 8"

definition example_gate :: "usize \<Rightarrow> task \<Rightarrow> usize \<Rightarrow> gate_call list \<Rightarrow> (nat \<times> bool list) option" where
  "example_gate prim t q cs =
     do { (answers, s) \<leftarrow> run_calls prim cs (gate_new, []);
          let count = sum_list (map permitted answers);
          let entered = map (\<lambda>r. r = Ok Controlled) (concat (map entered_with answers));
          (_, s) \<leftarrow> open_gate s;
          (r1, s) \<leftarrow> enter_sync prim t q s;
          (_, s) \<leftarrow> seal s;
          (r2, s) \<leftarrow> enter_sync prim t q s;
          Some (count, entered @ [r1 = Ok Open, r2 = Err Error_Sealed]) }"

section \<open>Lock, semaphore and pager\<close>

lemma lock_sync_free:
  "prim_state w = 0 \<Longrightarrow> lock_sync prim t q (w, []) = Some (True, (w\<lparr>prim_state := DATA_MASK\<rparr>, []))"
  using spin_alone(1) [of w] by (simp add: lock_sync_def lock_sync_with.simps settle_def lock_step_def lock_consts)

lemma example_lock_passes: "example_lock prim t q = Some [True, True, True, True]"
proof -
  have "prim_state lock_new = 0"
    by (simp add: lock_new_def fresh_world_def)
  note l = lock_sync_free [OF this]
  show ?thesis
    unfolding example_lock_def Let_def l Option.bind.simps prod.case by code_simp
qed

lemma acquire_free:
  "acquire_many_sync prim t q (MAX_PERMITS - 1) (semaphore_new, []) = Some (True, (semaphore_new\<lparr>prim_state := MAX_PERMITS - 1\<rparr>, []))"
proof -
  have a: "try_acquire_internal 62 (semaphore_new, []) = ((True, 0), (semaphore_new\<lparr>prim_state := MAX_PERMITS - 1\<rparr>, []))"
    by (simp add: try_acquire_internal_def atomics try_acquire_loop.simps semaphore_new_def fresh_world_def MAX_PERMITS_def DATA_MASK_eq)
  have u: "u8_try_from (MAX_PERMITS - 1) = Some 62" "\<not> MAX_PERMITS < MAX_PERMITS - 1"
    by code_simp+
  show ?thesis
    unfolding acquire_many_sync_def acquire_many_sync_with_def u
    by (subst acquire_sync_loop.simps) (simp add: a u)
qed

lemma example_semaphore_passes: "example_semaphore prim t q = Some [True, True, True, True, True]"
  unfolding example_semaphore_def Let_def prod.case acquire_free Option.bind.simps
  by code_simp

lemma sync_entry_kept:
  assumes "same_memory w w'" "live w q"
  shows "is_sync_entry w' q = is_sync_entry w q"
proof -
  obtain e where e: "entries w (entry_addr q) = Some e"
    using assms(2) by (auto simp: live_def)
  have "rel_option same_shape (Some e) (entries w' (entry_addr q))"
    using assms(1) unfolding same_memory_def e [symmetric] by blast
  then obtain e' where "entries w' (entry_addr q) = Some e'" "same_shape e e'"
    by (cases "entries w' (entry_addr q)") auto
  with e show ?thesis
    by (auto simp: is_sync_entry_def node_def same_shape_def split: Monitor.splits)
qed

text \<open>The pager waits in line behind the thread that holds the lock.\<close>

lemma pager_queued:
  assumes q: "wq_ok q"
  shows "\<exists>w. lock_register_pager prim q Mode_Shared True
      ((fst (wait_queue_default q (lock_new, [])))\<lparr>prim_state := DATA_MASK\<rparr>, []) = Some (True, (w, [])) \<and>
    represents w \<lparr>in_use = 63, line = [(q, Shared)]\<rparr> \<and> waiting w q \<and> is_sync_entry w q"
proof -
  let ?w1 = "(fst (wait_queue_default q (lock_new, [])))\<lparr>prim_state := DATA_MASK\<rparr>"
  have "unallocated lock_new q"
    using q by (simp add: unallocated_def lock_new_def fresh_world_def)
  then have b: "blank ?w1 q"
    using default_blank(1) by (simp add: blank_def)
  have ok: "opcode_ok (mode_opcode Mode_Shared)"
    by simp
  obtain c where c: "construct q prim Lock_drop Shared True (?w1, []) = Some (c, [])" "fresh_entry c q"
    "prim_state c = DATA_MASK" "opcode (node c q) = Shared" "monitor (node c q) = Sync None"
    using construct_blank [OF b, of Shared prim Lock_drop True "[]"] by auto
  define x where "x = (prim_state c AND NOT ADDR_MASK) OR anchor_addr q"
  have l: "live c q" and aq: "addr_of (anchor_addr q) = anchor_addr q"
    using c(2) by (auto simp: fresh_entry_def)
  note v = replace_addr_views [OF aq, of "prim_state c", folded x_def]
  have d: "addr_of (prim_state c) = 0" "data_of (prim_state c) = DATA_MASK" "\<not> locked (prim_state c)"
    using small_views [of DATA_MASK] c(3) by simp_all
  have "queue c []"
    using d by (simp add: queue_def)
  note p = push_well_formed [OF this c(2) v(1)]
  have "lock_attempt Mode_Shared c = NOT_ACQUIRED"
    by (simp add: lock_attempt_def settle_def share_step_def c(3) lock_consts)
  moreover have "node_op c q = mode_opcode Mode_Shared"
    using c(4) by (simp add: node_op_def)
  ultimately have "lock_register_loop q Mode_Shared (c, []) = Some (pushed q x c, [])"
    using register_loop_alone(2) [OF c(2)] try_push_alone [OF l] unfolding x_def by simp
  moreover have "is_registered q (?w1, []) = Some False"
    using construct_registrable(2) [of ?w1 q Shared] b by simp
  ultimately have "lock_register_pager prim q Mode_Shared True (?w1, []) = Some (True, (pushed q x c, []))"
    using c(1) by (simp add: lock_register_pager_def)
  moreover have "represents (pushed q x c) \<lparr>in_use = 63, line = [(q, Shared)]\<rparr>"
    using p(1,3,4) v d c(4) by (simp add: represents_def DATA_MASK_eq)
  moreover have "is_sync_entry (pushed q x c) q"
    using c(5) l by (simp add: is_sync_entry_def pushed_def)
  ultimately show ?thesis
    using p(2) by blast
qed

lemma example_pager_passes:
  assumes "wq_ok q'"
  shows "example_pager prim t q q' = Some [True, True, True, True]"
proof -
  define w0 where "w0 = fst (wait_queue_default q' (lock_new, []))"
  have e: "wait_queue_default q' (lock_new, []) = (w0, [])" and p0: "prim_state w0 = 0"
    by (simp_all add: w0_def wait_queue_default_def lock_new_def fresh_world_def)
  have "blank w0 q'"
    using assms default_blank(1) by (simp add: w0_def unallocated_def lock_new_def fresh_world_def)
  then have r0: "is_registered q' (w0, []) = Some False"
    using construct_registrable(2) [of w0 q' Shared] by simp
  obtain w2 where w2: "lock_register_pager prim q' Mode_Shared True (w0\<lparr>prim_state := DATA_MASK\<rparr>, []) = Some (True, (w2, []))"
    "represents w2 \<lparr>in_use = 63, line = [(q', Shared)]\<rparr>" "waiting w2 q'" "is_sync_entry w2 q'"
    using pager_queued [OF assms, of prim] unfolding w0_def by blast
  have l2: "live w2 q'" "pollable (node w2 q')"
    using w2(3) by (simp_all add: waiting_def)
  have tp: "try_poll lock_to_result q' (w2, []) = Some (Err NotReady, (w2, []))"
    using try_consume_result_waiting [OF interfere.simps(1) w2(3)] l2
    by (simp add: try_poll_def is_registered_live queue_simps lock_to_result_def)
  have "spec_release 62 Exclusive \<lparr>in_use = 63, line = [(q', Shared)]\<rparr> = (True, \<lparr>in_use = 1, line = []\<rparr>)"
    by (simp add: spec_release_def grant_def can_grant_def transferred_def)
  moreover have m: "unat MAX_SHARED_OWNERS = 62"
    by (simp add: lock_consts)
  ultimately obtain w3 where w3: "release_lock (w2, []) = Some (True, (w3, []))" "has_result 0 w3 q'"
    using sync_primitive.release_refines [OF sync_primitive.intro w2(2), of MAX_SHARED_OWNERS Exclusive]
    by (auto simp: release_lock_is_loop served_def)
  have "same_memory w2 w3"
    using keeps_release_loop [of MAX_SHARED_OWNERS "prim_state w2" Exclusive "(w2, [])" "(True, (w3, []))"] w3(1)
    by (simp add: keeps_def release_lock_is_loop)
  then have "is_sync_entry w3 q'"
    using sync_entry_kept [OF _ l2(1)] w2(4) by simp
  then have ps: "poll_sync lock_to_result t q' (w3, []) = Some (Ok True, (consume q' w3, []))"
    using poll_sync_ready [OF w3(2), of lock_to_result t] by (simp add: lock_to_result_def lock_consts ERROR_WRONG_MODE_def)
  have "idle (consume q' w3) q'"
    using w3(2) by (simp add: idle_def consume_def has_result_def)
  then obtain w4 where "wait_queue_drop (\<lambda>_. lock_drop_wait_queue_entry) q' (consume q' w3, []) = Some (w4, [])"
    using drop_unused by blast
  then show ?thesis
    using e r0 lock_sync_free [OF p0] w2(1) tp w3(1) ps by (simp add: example_pager_def)
qed

section \<open>The rounds of the barrier\<close>

text \<open>A task outside has a place for its wait queue: nothing is allocated there, or nobody uses it.\<close>

definition placed :: "usize set \<Rightarrow> barrier_system \<Rightarrow> bool" where
  "placed Q = (\<lambda>(w, g). \<forall>q \<in> Q. q \<in> set (inside g @ told g) \<or> unallocated w q \<or> unused w q)"

lemma placed_kept:
  assumes "placed Q (w, g)" "same_memory w w'" "unchanged A w w'" "A \<inter> Q \<subseteq> set (inside g' @ told g')"
    and "set (inside g @ told g) \<subseteq> set (inside g' @ told g')"
  shows "placed Q (w', g')"
  unfolding placed_def prod.case
proof
  fix q assume q: "q \<in> Q"
  show "q \<in> set (inside g' @ told g') \<or> unallocated w' q \<or> unused w' q"
    using assms(1) q assms(4,5) unallocated_kept [OF assms(2), of q] unused_kept [OF assms(2,3), of q]
    unfolding placed_def by blast
qed

lemma placed_elsewhere:
  assumes "placed Q (w, g)" "apart Q" "q \<in> Q" "q \<in> set (inside g' @ told g') \<or> unallocated w' q \<or> unused w' q"
    and "\<And>a. a \<noteq> anchor_addr q \<Longrightarrow> anchors w' a = anchors w a" "\<And>p. p \<noteq> entry_addr q \<Longrightarrow> entries w' p = entries w p"
    and "set (inside g @ told g) \<subseteq> set (inside g' @ told g')"
  shows "placed Q (w', g')"
  unfolding placed_def prod.case
proof
  fix p assume p: "p \<in> Q"
  show "p \<in> set (inside g' @ told g') \<or> unallocated w' p \<or> unused w' p"
  proof (cases "p = q")
    case False
    note a = apart_addr [OF assms(2) p assms(3) False]
    then have "unallocated w p \<Longrightarrow> unallocated w' p" "unused w p \<Longrightarrow> unused w' p"
      using assms(5,6) unused_elsewhere [of w p w'] by (auto simp: unallocated_def)
    with assms(1,7) p show ?thesis
      unfolding placed_def by blast
  qed (use assms(4) in simp)
qed

lemma after_arrival_at: "set (inside (after_arrival w q g) @ told (after_arrival w q g)) = insert q (set (inside g @ told g))"
  by (auto simp: after_arrival_def)

lemma placed_step:
  assumes "barrier_step Q s s'" "apart Q" "barrier_inv n Q s" "placed Q s"
  shows "placed Q s'"
  using assms
proof (induction rule: barrier_step.induct)
  case (allocate q w w' g)
  have "unused w' q"
    using default_blank(1) [OF allocate(2)] allocate(3) by (simp add: unused_def)
  then show ?case
    using allocate(3) by (intro placed_elsewhere [OF allocate(6,4,1)]) (auto simp: wait_queue_default_def anchor_addr_def)
next
  case (arrive q w prim is_sync s retry w' g)
  have uq: "unused w q"
    using arrive(2) by (simp add: unused_def)
  obtain w1 where w1: "s = (w1, [])" "same_memory w1 w'" "unchanged (insert q (set (inside g))) w1 w'"
    using arrival_memory [OF arrive(6) uq, of prim is_sync] arrive(3,4) by auto
  note el = construct_elsewhere [OF uq arrive(3) [unfolded w1(1)]]
  let ?g = "after_arrival w' q g"
  have "placed Q (w1, ?g)"
    by (rule placed_elsewhere [OF arrive(7,5,1)]) (use el after_arrival_at in auto)
  then show ?case
    by (rule placed_kept [OF _ w1(2,3)]) (use after_arrival_at in auto)
next
  case (sleep q g t w out w')
  have "same_memory w w'"
    using keeps_poll_once [OF sleep(2)] by (simp add: keeps_def)
  have bw: "barrier_word n w g"
    using sleep(5) by (simp add: barrier_inv_def)
  have "q \<notin> set (told g)"
  proof
    assume "q \<in> set (told g)"
    then obtain r where "has_result r w q"
      using bw by (auto simp: barrier_word_def)
    from poll_once_ready [OF this, of t] sleep(2,3) show False by auto
  qed
  then have "waiting w q"
    using sleep(1) barrier_word_facts(3) [OF bw] by simp
  then have "unchanged {q} w w'"
    using poll_once_waiting [of w q t] sleep(2) by (auto simp: polls_def)
  then show ?case
    using placed_kept [OF sleep(6) \<open>same_memory w w'\<close>, of "{q}" g] sleep(1) by auto
next
  case (pass q g t w r w')
  have bw: "barrier_word n w g"
    using pass(4) by (simp add: barrier_inv_def)
  have "q \<notin> set (inside g)"
    using poll_once_waiting [OF barrier_word_facts(3) [OF bw], of q t] pass(2) by auto
  then have tq: "q \<in> set (told g)"
    using pass(1) by simp
  then obtain x where x: "has_result x w q"
    using bw by (auto simp: barrier_word_def)
  have w': "w' = consume q w" and l: "live w q"
    using poll_once_ready [OF x, of t] pass(2) x by (auto simp: has_result_def)
  let ?g = "g\<lparr>told := remove1 q (told g), passed := tick q (passed g), lasts := lasts g + (if barrier_to_result r None = Ok True then 1 else 0)\<rparr>"
  have u: "unused w' q"
    using l by (simp add: w' unused_def idle_def consume_def)
  have "same_memory w w'"
    using keeps_poll_once [OF pass(2)] by (simp add: keeps_def)
  show ?case
    unfolding placed_def prod.case
  proof
    fix p assume p: "p \<in> Q"
    show "p \<in> set (inside ?g @ told ?g) \<or> unallocated w' p \<or> unused w' p"
    proof (cases "p = q")
      case False
      then show ?thesis
        using pass(5) p unallocated_kept [OF \<open>same_memory w w'\<close>, of p]
          unused_kept [OF \<open>same_memory w w'\<close> unchanged_consume [OF l, folded w'], of p]
        by (auto simp: placed_def)
    qed (use u in simp)
  qed
next
  case (deallocate q w w' g)
  have "wait_queue_drop (\<lambda>_. barrier_drop_wait_queue_entry) q (w, []) = Some (wait_queue_free q (w, []))"
  proof (cases "live w q")
    case True
    then show ?thesis
      using deallocate(2) blank_not_live [of w q] by (auto simp: wait_queue_drop_def prepare_drop_def queue_simps idle_def)
  next
    case False
    then show ?thesis
      using deallocate(2) by (auto simp: wait_queue_drop_def to_entry_ptr_def blank_def idle_def)
  qed
  then have w': "w' = fst (wait_queue_free q (w, []))"
    using deallocate(3) by (metis fst_conv option.inject)
  moreover have "wq_ok q"
    using deallocate(1,4) by (simp add: apart_def)
  ultimately show ?case
    by (intro placed_elsewhere [OF deallocate(6,4,1)]) (auto simp: wait_queue_free_def unallocated_def)
qed

lemma example_barrier_inv:
  assumes "example_barrier Q s" "apart Q"
  shows "barrier_inv 8 Q s \<and> placed Q s \<and> (\<forall>q \<in> Q. arrived (snd s) q \<le> 4) \<and> finite Q"
proof -
  have fin: "finite Q" and n: "(1 :: usize) \<le> 8" "(8 :: usize) \<le> 63"
    using assms(1) card.infinite by (fastforce simp: example_barrier_def word_le_nat_alt)+
  have "(example_barrier_step Q)\<^sup>*\<^sup>* (new_barrier_system 8) s"
    using assms(1) by (simp add: example_barrier_def)
  then show ?thesis
  proof (induction rule: rtranclp_induct)
    case base
    have "\<forall>q \<in> Q. unallocated (with_count 8) q"
      using assms(2) by (simp add: unallocated_def apart_def with_count_def fresh_world_def Let_def)
    then show ?case
      using barrier_inv_new [OF n fin] fin by (simp add: placed_def new_barrier_system_def)
  next
    case (step s s')
    then have st: "barrier_step Q s s'" "\<forall>q \<in> Q. arrived (snd s') q \<le> 4"
      by (auto elim: example_barrier_step.cases)
    from placed_step [OF st(1) assms(2), of 8] barrier_inv_step [OF st(1) fin, of 8] step.IH st(2) show ?case
      by blast
  qed
qed

text \<open>No state of the program is stuck: a result can be taken, or a thread that has rounds left can arrive.\<close>

definition rounds_left :: "usize set \<Rightarrow> barrier_system \<Rightarrow> nat" where
  "rounds_left Q s = 64 - (sum (arrived (snd s)) Q + sum (passed (snd s)) Q)"

lemma example_barrier_steps:
  "example_barrier Q s \<Longrightarrow> (example_barrier_step Q)\<^sup>*\<^sup>* s s' \<Longrightarrow> example_barrier Q s'"
  unfolding example_barrier_def by (metis rtranclp_trans)

lemma barrier_goes_on:
  assumes ex: "example_barrier Q (w, g)" and ap: "apart Q" and nj: "\<not> barrier_joined Q (w, g)"
  shows "\<exists>s'. (example_barrier_step Q)\<^sup>*\<^sup>* (w, g) s' \<and> rounds_left Q s' < rounds_left Q (w, g)"
proof -
  have inv: "barrier_inv 8 Q (w, g)" and pl: "placed Q (w, g)" and a4: "\<forall>q \<in> Q. arrived g q \<le> 4" and fin: "finite Q"
    and c8: "card Q = 8"
    using example_barrier_inv [OF ex ap] ex by (auto simp: example_barrier_def)
  have bw: "barrier_word 8 w g" and bc: "barrier_counts 8 Q (length (filter (has_result 1 w) (told g))) g"
    using inv by (simp_all add: barrier_inv_def)
  note c = barrier_counts_facts [OF bc]
  obtain q0 where q0: "q0 \<in> Q" "passed g q0 \<noteq> 4"
    using nj by (auto simp: barrier_joined_def)
  have p4: "passed g q \<le> 4" if "q \<in> Q" for q
    using c(5) [OF that] a4 that by (metis le_add1 le_trans)
  have bound: "sum (arrived g) Q \<le> 32" "sum (passed g) Q < 32"
  proof -
    show "sum (arrived g) Q \<le> 32"
      using sum_bounded_above [of Q "arrived g" 4] a4 c8 by simp
    have "sum (passed g) Q < sum (\<lambda>_. 4) Q"
      using p4 q0 fin by (intro sum_strict_mono_ex1) (auto intro: le_neq_implies_less)
    then show "sum (passed g) Q < 32"
      using c8 by simp
  qed
  show ?thesis
  proof (cases "told g = []")
    case False
    then have "hd (told g) \<in> set (told g)"
      by simp
    then obtain w' g' where s: "barrier_step Q (w, g) (w', g')" "arrived g' = arrived g" "passed g' = tick (hd (told g)) (passed g)"
      using pass_possible [OF inv] by blast
    have "hd (told g) \<in> Q"
      using c(1) False by auto
    then have "rounds_left Q (w', g') < rounds_left Q (w, g)"
      using sum_tick [OF fin, of "hd (told g)" "passed g"] bound s(2,3) by (simp add: rounds_left_def)
    moreover have "example_barrier_step Q (w, g) (w', g')"
      using s(1,2) a4 by (intro example_barrier_step.thread) simp_all
    ultimately show ?thesis
      by blast
  next
    case True
    have "\<exists>q \<in> Q. q \<notin> set (inside g) \<and> arrived g q < 4"
    proof (rule ccontr)
      assume "\<not> ?thesis"
      then have full: "arrived g q = 4" if "q \<in> Q" "q \<notin> set (inside g)" for q
        using that a4 by (metis le_neq_implies_less)
      have "card (set (inside g)) < card Q"
        using bw c8 card_length [of "inside g"] by (simp add: barrier_word_def)
      then obtain q1 where q1: "q1 \<in> Q" "q1 \<notin> set (inside g)"
        by (metis c8 card_mono finite_set linorder_not_le subsetI)
      then have "complete g = 4"
        using c(6) [OF c8 q1(1)] full [OF q1] by simp
      then have "inside g = []"
        using c(6) [OF c8, of "hd (inside g)"] c(1) a4 by (cases "inside g") auto
      then show False
        using full [OF q0(1)] c(5) [OF q0(1)] True q0(2) by simp
    qed
    then obtain q where q: "q \<in> Q" "q \<notin> set (inside g)" "arrived g q < 4"
      by blast
    then have "unallocated w q \<or> unused w q"
      using pl True by (auto simp: placed_def)
    then obtain w1 where w1: "(example_barrier_step Q)\<^sup>*\<^sup>* (w, g) (w1, g)" "unused w1 q"
    proof
      assume "unallocated w q"
      moreover have e: "wait_queue_default q (w, []) = (fst (wait_queue_default q (w, [])), [])"
        by (simp add: wait_queue_default_def)
      ultimately have "example_barrier_step Q (w, g) (fst (wait_queue_default q (w, [])), g)"
        using a4 by (intro example_barrier_step.thread barrier_step.allocate [OF q(1)]) simp_all
      with \<open>unallocated w q\<close> show thesis
        using that default_blank(1) by (auto simp: unused_def)
    qed (use that in blast)
    have "barrier_inv 8 Q (w1, g)"
      using example_barrier_inv [OF example_barrier_steps [OF ex w1(1)] ap] by simp
    then obtain w' where s: "barrier_step Q (w1, g) (w', after_arrival w' q g)"
      using arrive_possible [OF _ q(1) w1(2) ap] by blast
    let ?g = "after_arrival w' q g"
    have a: "arrived ?g = tick q (arrived g)" "passed ?g = passed g"
      by (simp_all add: after_arrival_def)
    have "example_barrier_step Q (w1, g) (w', ?g)"
      using s a a4 q(3) by (intro example_barrier_step.thread) auto
    then have "(example_barrier_step Q)\<^sup>*\<^sup>* (w, g) (w', ?g)"
      using w1(1) by (rule rtranclp.rtrancl_into_rtrancl [rotated])
    moreover have "rounds_left Q (w', ?g) < rounds_left Q (w, g)"
      using sum_tick [OF fin q(1), of "arrived g"] bound a by (simp add: rounds_left_def)
    ultimately show ?thesis
      by blast
  qed
qed

lemma barrier_finishes:
  assumes "example_barrier Q s" "apart Q"
  shows "\<exists>s'. (example_barrier_step Q)\<^sup>*\<^sup>* s s' \<and> barrier_joined Q s'"
  using assms(1)
proof (induction "rounds_left Q s" arbitrary: s rule: less_induct)
  case less
  show ?case
  proof (cases "barrier_joined Q s")
    case False
    then obtain s1 where s1: "(example_barrier_step Q)\<^sup>*\<^sup>* s s1" "rounds_left Q s1 < rounds_left Q s"
      using barrier_goes_on [of Q "fst s" "snd s"] less.prems assms(2) by auto
    from less.hyps [OF s1(2) example_barrier_steps [OF less.prems s1(1)]] s1(1) show ?thesis
      by (meson rtranclp_trans)
  qed blast
qed

lemma barrier_counts_eight:
  assumes "example_barrier Q (w, g)" "apart Q" "barrier_joined Q (w, g)"
  shows "fst (barrier_count (w, [])) = 8"
proof -
  have inv: "barrier_word 8 w g" "barrier_counts 8 Q (length (filter (has_result 1 w) (told g))) g"
    and a4: "\<forall>q \<in> Q. arrived g q \<le> 4"
    using example_barrier_inv [OF assms(1,2)] by (simp_all add: barrier_inv_def)
  note c = barrier_counts_facts [OF inv(2)]
  have "inside g = []"
    using c(1) c(5) [of "hd (inside g)"] a4 assms(3) by (cases "inside g") (auto simp: barrier_joined_def)
  then show ?thesis
    using inv(1) by (simp add: barrier_word_def barrier_count_def atomics data_of_def word_unat_eq_iff)
qed

section \<open>The schedule of the gate\<close>

definition permitting :: "usize set \<Rightarrow> gate_spec \<Rightarrow> bool" where
  "permitting Q g \<longleftrightarrow> posture g = Controlled \<and> (\<forall>(q, out) \<in> set (owed g). out = Ok Controlled) \<and>
     distinct (gate_line g @ map fst (owed g)) \<and> at_the_gate g \<subseteq> Q"

text \<open>What one call, or a list of them, does to the books: nobody enters except as permitted; whoever came has
  entered or is still there; whoever came was permitted or still waits.\<close>

definition tallies :: "gate_call list \<Rightarrow> gate_answer list \<Rightarrow> gate_spec \<Rightarrow> gate_spec \<Rightarrow> bool" where
  "tallies cs as g g' \<longleftrightarrow> set (concat (map entered_with as)) \<subseteq> {Ok Controlled} \<and>
     length (concat (map entered_with as)) + length (gate_line g') + length (owed g') =
       length (entering cs) + length (gate_line g) + length (owed g) \<and>
     sum_list (map permitted as) + length (gate_line g') = length (entering cs) + length (gate_line g)"

lemma filter_one:
  assumes "distinct (map fst xs)" "q \<in> fst ` set xs"
  shows "length (filter (\<lambda>p. fst p \<noteq> q) xs) + 1 = length xs"
  using assms
proof (induction xs)
  case (Cons x xs)
  have "filter (\<lambda>p. fst p \<noteq> q) xs = xs" if "q \<notin> fst ` set xs"
    using that by (force simp: filter_id_conv)
  with Cons show ?case
    by auto
qed simp

lemma permitting_step:
  assumes g: "permitting Q g" and c: "call_ok Q c g" "thread_call c" and Q: "finite Q" "card Q < 2 ^ 64"
  shows "permitting Q (snd (spec_call c g)) \<and> tallies [c] [fst (spec_call c g)] g (snd (spec_call c g))"
proof -
  have p: "posture g = Controlled" "\<And>q out. (q, out) \<in> set (owed g) \<Longrightarrow> out = Ok Controlled"
    "distinct (gate_line g)" "distinct (map fst (owed g))" "set (gate_line g) \<inter> fst ` set (owed g) = {}" "at_the_gate g \<subseteq> Q"
    using g by (auto simp: permitting_def)
  consider (enter) q where "c = Enter q True" | (poll) q t where "c = Poll q t" | (permit) "c = Permit"
    using c(2) by (cases c rule: thread_call.cases) auto
  then show ?thesis
  proof cases
    case enter
    then show ?thesis
      using g c(1) by (auto simp: permitting_def tallies_def entering_def at_the_gate_def)
  next
    case (poll q t)
    show ?thesis
    proof (cases "map_of (owed g) q")
      case None
      then show ?thesis
        using g poll by (auto simp: tallies_def entering_def)
    next
      case (Some out)
      have "out = Ok Controlled"
        by (rule p(2) [OF map_of_SomeD [OF Some]])
      moreover have q: "q \<in> fst ` set (owed g)"
        using map_of_SomeD [OF Some] by force
      ultimately have "tallies [c] [fst (spec_call c g)] g (snd (spec_call c g))"
        using poll Some filter_one [OF p(4) q] by (auto simp: tallies_def entering_def spec_leave_def)
      moreover have "permitting Q (snd (spec_call c g))"
        using poll Some g by (auto simp: permitting_def spec_leave_def at_the_gate_def distinct_map_filter)
      ultimately show ?thesis
        by simp
    qed
  next
    case permit
    have "length (gate_line g) = card (set (gate_line g))"
      using p(3) by (simp add: distinct_card)
    also have "\<dots> \<le> card Q"
      using p(6) Q(1) by (intro card_mono) (auto simp: at_the_gate_def)
    finally have "unat (of_nat (length (gate_line g)) :: usize) = length (gate_line g)"
      using Q(2) by (simp add: unat_of_nat)
    then have "tallies [c] [fst (spec_call c g)] g (snd (spec_call c g))"
      using permit p(1) by (simp add: tallies_def entering_def spec_woke_def spec_wake_def)
    moreover have "permitting Q (snd (spec_call c g))"
      using permit p by (auto simp: permitting_def spec_wake_def at_the_gate_def comp_def)
    ultimately show ?thesis
      by simp
  qed
qed

lemma tallies_trans: "tallies [c] [a] g g1 \<Longrightarrow> tallies cs as g1 g2 \<Longrightarrow> tallies (c # cs) (a # as) g g2"
  by (auto simp: tallies_def entering_def)

lemma permitting_calls:
  assumes "finite Q" "card Q < 2 ^ 64"
  shows "permitting Q g \<Longrightarrow> calls_ok Q cs g \<Longrightarrow> list_all thread_call cs \<Longrightarrow>
    permitting Q (snd (spec_calls cs g)) \<and> tallies cs (fst (spec_calls cs g)) g (snd (spec_calls cs g))"
proof (induction cs arbitrary: g)
  case Nil
  then show ?case
    by (simp add: tallies_def entering_def)
next
  case (Cons c cs)
  have s: "permitting Q (snd (spec_call c g))" "tallies [c] [fst (spec_call c g)] g (snd (spec_call c g))"
    using permitting_step [OF Cons.prems(1) _ _ assms] Cons.prems(2,3) by auto
  from Cons.IH [OF s(1)] Cons.prems(2,3) tallies_trans [OF s(2)] show ?case
    by (auto simp: case_prod_beta Let_def)
qed

lemma spec_calls_append:
  "fst (spec_calls (cs @ ds) g) = fst (spec_calls cs g) @ fst (spec_calls ds (snd (spec_calls cs g)))"
  "snd (spec_calls (cs @ ds) g) = snd (spec_calls ds (snd (spec_calls cs g)))"
  "calls_ok Q (cs @ ds) g \<longleftrightarrow> calls_ok Q cs g \<and> calls_ok Q ds (snd (spec_calls cs g))"
  by (induction cs arbitrary: g) (simp_all add: case_prod_beta Let_def)

lemma entering_append: "entering (cs @ ds) = entering cs @ entering ds"
  by (simp add: entering_def)

lemma entering_calls:
  "calls_ok Q cs g \<Longrightarrow> list_all thread_call cs \<Longrightarrow> set (entering cs) \<subseteq> Q \<and>
    at_the_gate (snd (spec_calls cs g)) \<subseteq> at_the_gate g \<union> set (entering cs)"
proof (induction cs arbitrary: g)
  case (Cons c cs)
  have "set (entering [c]) \<subseteq> Q \<and> at_the_gate (snd (spec_call c g)) \<subseteq> at_the_gate g \<union> set (entering [c])"
    using Cons.prems
    by (cases c rule: thread_call.cases)
       (auto simp: entering_def at_the_gate_def spec_leave_def spec_wake_def split: State.splits option.splits)
  moreover have "entering (c # cs) = entering [c] @ entering cs"
    by (simp add: entering_def)
  ultimately show ?case
    using Cons.IH [of "snd (spec_call c g)"] Cons.prems by (auto simp: case_prod_beta Let_def)
qed (simp add: entering_def)

text \<open>What the program counts and what its threads return is what the abstract gate answers.\<close>

lemma gate_answers_spec:
  assumes "calls_ok Q cs new_gate" "apart Q"
  shows "gate_answers prim cs = fst (spec_calls cs new_gate)"
proof -
  obtain w where "run_calls prim cs (gate_new, []) = Some (fst (spec_calls cs new_gate), (w, []))"
    using calls_refine [OF assms(2) new_gate_represents [OF assms(2)] assms(1)] by blast
  then show ?thesis
    by (simp add: gate_answers_def)
qed

lemma gate_scheduleI:
  assumes "apart Q" "card Q = 8" "calls_ok Q cs new_gate \<and> list_all thread_call cs \<and> distinct (entering cs)"
    and "\<forall>i < length cs. cs ! i = Permit \<longrightarrow> sum_list (map permitted (fst (spec_calls (take i cs) new_gate))) \<noteq> 8"
  shows "gate_schedule prim Q cs"
proof -
  have "counted prim (take i cs) = sum_list (map permitted (fst (spec_calls (take i cs) new_gate)))" for i
    using gate_answers_spec [OF _ assms(1), of "take i cs"] assms(3) spec_calls_append(3) [of Q "take i cs" "drop i cs"]
    by (simp add: counted_def)
  with assms(2-4) show ?thesis
    by (simp add: gate_schedule_def)
qed

lemma schedule_facts:
  assumes "gate_schedule prim Q cs" "apart Q"
  defines "g \<equiv> snd (spec_calls cs new_gate)"
  shows "counted prim cs + length (gate_line g) = length (entering cs)"
    "length (returned prim cs) + length (gate_line g) + length (owed g) = length (entering cs)"
    "set (returned prim cs) \<subseteq> {Ok Controlled}" "posture g = Controlled" "distinct (gate_line g @ map fst (owed g))"
    "set (entering cs) \<subseteq> Q" "at_the_gate g \<subseteq> set (entering cs)" "length (entering cs) \<le> 8" "calls_ok Q cs new_gate"
proof -
  have Q: "finite Q" "card Q < 2 ^ 64"
    using assms(1) card.infinite by (fastforce simp: gate_schedule_def)+
  show ok: "calls_ok Q cs new_gate"
    using assms(1) by (simp add: gate_schedule_def)
  have "permitting Q new_gate"
    by (simp add: permitting_def new_gate_def at_the_gate_def)
  from permitting_calls [OF Q this ok] assms(1)
  have t: "permitting Q g" "tallies cs (fst (spec_calls cs new_gate)) new_gate g"
    by (auto simp: gate_schedule_def g_def)
  show "counted prim cs + length (gate_line g) = length (entering cs)"
    "length (returned prim cs) + length (gate_line g) + length (owed g) = length (entering cs)"
    "set (returned prim cs) \<subseteq> {Ok Controlled}"
    using t(2) unfolding tallies_def counted_def returned_def gate_answers_spec [OF ok assms(2)] by (simp_all add: new_gate_def)
  show "posture g = Controlled" "distinct (gate_line g @ map fst (owed g))"
    using t(1) by (auto simp: permitting_def)
  have "at_the_gate new_gate = {}"
    by (simp add: new_gate_def at_the_gate_def)
  with entering_calls [OF ok] assms(1) show e: "set (entering cs) \<subseteq> Q" "at_the_gate g \<subseteq> set (entering cs)"
    by (auto simp: gate_schedule_def g_def)
  have "length (entering cs) = card (set (entering cs))"
    using assms(1) by (simp add: gate_schedule_def distinct_card)
  also have "\<dots> \<le> card Q"
    by (rule card_mono [OF Q(1) e(1)])
  finally show "length (entering cs) \<le> 8"
    using assms(1) by (simp add: gate_schedule_def)
qed

lemma schedule_snoc:
  assumes "gate_schedule prim Q cs" "call_ok Q c (snd (spec_calls cs new_gate))" "thread_call c"
    and "distinct (entering (cs @ [c]))" "c = Permit \<Longrightarrow> counted prim cs \<noteq> 8"
  shows "gate_schedule prim Q (cs @ [c])"
  using assms by (auto simp: gate_schedule_def spec_calls_append nth_append less_Suc_eq)

text \<open>No schedule is stuck: a thread can enter, the main thread can permit, or a thread can return.\<close>

definition calls_left :: "gate_call list \<Rightarrow> nat" where
  "calls_left cs = (let g = snd (spec_calls cs new_gate) in
     3 * (8 - length (entering cs)) + 2 * length (gate_line g) + length (owed g))"

lemma gate_goes_on:
  assumes s: "gate_schedule prim Q cs" and ap: "apart Q" and nj: "\<not> gate_joined prim cs"
  shows "\<exists>c. gate_schedule prim Q (cs @ [c]) \<and> calls_left (cs @ [c]) < calls_left cs"
proof -
  let ?g = "snd (spec_calls cs new_gate)"
  note f = schedule_facts [OF s ap]
  have c8: "card Q = 8"
    using s by (simp add: gate_schedule_def)
  have left: "calls_left (cs @ [c]) = (let g = snd (spec_call c ?g) in
      3 * (8 - length (entering (cs @ [c]))) + 2 * length (gate_line g) + length (owed g))" for c
    by (simp add: calls_left_def spec_calls_append case_prod_beta)
  consider (enter) "set (entering cs) \<noteq> Q" | (permit) "set (entering cs) = Q" "gate_line ?g \<noteq> []"
    | (poll) "set (entering cs) = Q" "gate_line ?g = []" "owed ?g \<noteq> []"
    | (over) "set (entering cs) = Q" "gate_line ?g = []" "owed ?g = []"
    by blast
  then show ?thesis
  proof cases
    case enter
    then obtain q where q: "q \<in> Q" "q \<notin> set (entering cs)"
      using f(6) by blast
    have e: "entering (cs @ [Enter q True]) = entering cs @ [q]"
      by (simp add: entering_def)
    have d: "distinct (entering cs)"
      using s by (simp add: gate_schedule_def)
    have "length (entering cs) < 8"
      using q d f(6) c8 psubset_card_mono [of Q "set (entering cs)"] card.infinite [of Q] by (force simp: distinct_card)
    then have "calls_left (cs @ [Enter q True]) < calls_left cs"
      unfolding left e by (simp add: calls_left_def f(4) Let_def)
    moreover have "gate_schedule prim Q (cs @ [Enter q True])"
      by (rule schedule_snoc [OF s]) (use q f(7) d e in auto)
    ultimately show ?thesis
      by blast
  next
    case permit
    have e: "entering (cs @ [Permit]) = entering cs"
      by (simp add: entering_def)
    have "calls_left (cs @ [Permit]) < calls_left cs"
      unfolding left e using permit(2) by (simp add: calls_left_def spec_wake_def Let_def)
    moreover have "counted prim cs \<noteq> 8"
      using f(1,8) permit(2) by (cases "gate_line ?g") auto
    then have "gate_schedule prim Q (cs @ [Permit])"
      by (intro schedule_snoc [OF s]) (use e s in \<open>auto simp: gate_schedule_def\<close>)
    ultimately show ?thesis
      by blast
  next
    case poll
    let ?c = "Poll (fst (hd (owed ?g))) 0"
    have e: "entering (cs @ [?c]) = entering cs"
      by (simp add: entering_def)
    obtain q out rest where o: "owed ?g = (q, out) # rest"
      using poll(3) by (cases "owed ?g") auto
    have "calls_left (cs @ [?c]) < calls_left cs"
      unfolding left e by (simp add: calls_left_def spec_leave_def o Let_def poll(2) le_imp_less_Suc)
    moreover have "gate_schedule prim Q (cs @ [?c])"
      by (rule schedule_snoc [OF s]) (use e s o in \<open>auto simp: gate_schedule_def at_the_gate_def\<close>)
    ultimately show ?thesis
      by blast
  next
    case over
    have "length (entering cs) = 8"
      using over(1) c8 s distinct_card [of "entering cs"] by (simp add: gate_schedule_def)
    then show ?thesis
      using nj f(1,2) over by (simp add: gate_joined_def)
  qed
qed

lemma gate_finishes:
  assumes "gate_schedule prim Q cs" "apart Q"
  shows "\<exists>ds. gate_schedule prim Q (cs @ ds) \<and> gate_joined prim (cs @ ds)"
  using assms(1)
proof (induction "calls_left cs" arbitrary: cs rule: less_induct)
  case less
  show ?case
  proof (cases "gate_joined prim cs")
    case True
    then show ?thesis
      using less.prems by (intro exI [of _ "[]"]) simp
  next
    case False
    then obtain c where c: "gate_schedule prim Q (cs @ [c])" "calls_left (cs @ [c]) < calls_left cs"
      using gate_goes_on [OF less.prems assms(2)] by blast
    from less.hyps [OF c(2,1)] show ?thesis
      by auto
  qed
qed

lemma example_gate_passes:
  assumes s: "gate_schedule prim Q cs" and j: "gate_joined prim cs" and ap: "apart (insert q Q)" and q: "q \<notin> Q"
  shows "example_gate prim t q cs = Some (8, replicate 10 True)"
proof -
  let ?Q = "insert q Q" and ?g = "snd (spec_calls cs new_gate)"
  have apQ: "apart Q"
    using ap by (auto simp: apart_def)
  note f = schedule_facts [OF s apQ]
  have ok: "calls_ok ?Q cs new_gate"
    using calls_ok_mono [OF f(9), of ?Q] by auto
  have "length (gate_line ?g) + length (owed ?g) = 0"
    using f(2,8) j unfolding gate_joined_def by linarith
  then have e: "at_the_gate ?g = {}"
    by (simp add: at_the_gate_def)
  obtain w1 where w1: "run_calls prim cs (gate_new, []) = Some (fst (spec_calls cs new_gate), (w1, []))" "gate_represents ?Q w1 ?g"
    using calls_refine [OF ap new_gate_represents [OF ap] ok] by blast
  let ?g2 = "spec_wake (Ok Open) Open ?g" and ?g4 = "spec_wake (Err Error_Sealed) Sealed (spec_wake (Ok Open) Open ?g)"
  have e2: "at_the_gate ?g2 = {}" "at_the_gate ?g4 = {}"
    using e by (auto simp: at_the_gate_def spec_wake_def)
  obtain w2 y where w2: "open_gate (w1, []) = Some (y, (w2, []))" "gate_represents ?Q w2 ?g2"
    using call_refines [OF w1(2) _ ap, of Open_up prim] by (auto simp: bind_eq_Some_conv)
  obtain w3 where w3: "enter_sync prim t q (w2, []) = Some (Ok Open, (w3, []))" "gate_represents ?Q w3 ?g2"
    using enter_sync_decided [OF w2(2) _ _ ap, of q prim t] e2 by (auto simp: spec_wake_def)
  obtain w4 z where w4: "seal (w3, []) = Some (z, (w4, []))" "gate_represents ?Q w4 ?g4"
    using call_refines [OF w3(2) _ ap, of Seal_up prim] by (auto simp: bind_eq_Some_conv)
  obtain w5 where w5: "enter_sync prim t q (w4, []) = Some (Err Error_Sealed, (w5, []))"
    using enter_sync_decided [OF w4(2) _ _ ap, of q prim t] e2 by (auto simp: spec_wake_def)
  have "returned prim cs = replicate 8 (Ok Controlled)" "counted prim cs = 8"
    using f(3) j by (auto simp: gate_joined_def intro!: replicate_eqI)
  then have n: "concat (map entered_with (fst (spec_calls cs new_gate))) = replicate 8 (Ok Controlled)"
    "sum_list (map permitted (fst (spec_calls cs new_gate))) = 8"
    unfolding returned_def counted_def gate_answers_spec [OF f(9) apQ] by blast+
  show ?thesis
    using w1(1) w2(1) w3(1) w4(1) w5 n by (simp add: example_gate_def eval_nat_numeral)
qed

section \<open>Their assertions\<close>

text \<open>Eight places for wait queues, and an order in which eight threads enter the gate.\<close>

definition eight :: "usize set" where
  "eight = {128, 384, 640, 896, 1152, 1408, 1664, 1920}"

definition eight_enter :: "gate_call list" where
  "eight_enter = [Enter 128 True, Enter 384 True, Poll 128 1, Permit, Enter 640 True, Enter 896 True, Poll 384 2, Enter 1152 True,
     Permit, Poll 128 1, Enter 1408 True, Poll 640 3, Poll 896 4, Permit, Enter 1664 True, Enter 1920 True, Poll 1152 5,
     Poll 1408 6, Permit, Poll 1664 7, Poll 1920 8]"

text \<open>C40: the assertions of the programs hold, and the programs can always be finished.  For all addresses of the
  objects: an exclusively held lock can be neither locked nor shared nor released by a shared owner; a semaphore hands out
  its last permit once and takes no more permits back than are out; a registered pager has no result until the lock is released
  and polls it then.  However far eight threads have come on their way through a barrier four times, in whatever order, they can go on
  until all are joined, and when they are joined it counts to eight again.  However far eight threads have come that enter a gate
  while the main thread permits until it has counted eight, they can go on until all are joined; each that has returned has
  entered a controlled gate; and when they are joined, the main thread has counted eight, and finds the gate open after \<open>open\<close>
  and sealed after \<open>seal\<close>.\<close>

theorem examples_pass:
  "example_lock prim t q = Some [True, True, True, True] \<and>
   example_semaphore prim t q = Some [True, True, True, True, True] \<and>
   (wq_ok q' \<longrightarrow> example_pager prim t q q' = Some [True, True, True, True]) \<and>
   (example_barrier Q s \<and> apart Q \<longrightarrow>
      (\<exists>s'. (example_barrier_step Q)\<^sup>*\<^sup>* s s' \<and> barrier_joined Q s') \<and>
      (barrier_joined Q s \<longrightarrow> fst (barrier_count (fst s, [])) = 8)) \<and>
   (gate_schedule prim Q cs \<and> apart (insert q Q) \<and> q \<notin> Q \<longrightarrow>
      (\<exists>ds. gate_schedule prim Q (cs @ ds) \<and> gate_joined prim (cs @ ds)) \<and> set (returned prim cs) \<subseteq> {Ok Controlled} \<and>
      (gate_joined prim cs \<longrightarrow> example_gate prim t q cs = Some (8, replicate 10 True)))"
proof (intro conjI impI)
  assume "example_barrier Q s \<and> apart Q"
  then show "\<exists>s'. (example_barrier_step Q)\<^sup>*\<^sup>* s s' \<and> barrier_joined Q s'"
    and "barrier_joined Q s \<Longrightarrow> fst (barrier_count (fst s, [])) = 8"
    using barrier_finishes [of Q s] barrier_counts_eight [of Q "fst s" "snd s"] by simp_all
next
  assume g: "gate_schedule prim Q cs \<and> apart (insert q Q) \<and> q \<notin> Q"
  then have "apart Q"
    by (auto simp: apart_def)
  with g show "\<exists>ds. gate_schedule prim Q (cs @ ds) \<and> gate_joined prim (cs @ ds)" "set (returned prim cs) \<subseteq> {Ok Controlled}"
    using gate_finishes schedule_facts(3) by blast+
  show "example_gate prim t q cs = Some (8, replicate 10 True)" if "gate_joined prim cs"
    using g that example_gate_passes by blast
qed (rule example_lock_passes example_semaphore_passes example_pager_passes; assumption?)+

theorem examples_pass_witness:
  "(\<exists>s. example_barrier eight s \<and> barrier_joined eight s \<and> fst (barrier_count (fst s, [])) = 8) \<and>
   example_pager 0 9 128 384 = Some [True, True, True, True] \<and>
   gate_schedule 0 eight eight_enter \<and> example_gate 0 9 2176 eight_enter = Some (8, replicate 10 True)"
proof -
  have ap: "apart eight" "apart (insert 2176 eight)" "2176 \<notin> eight" "card eight = 8"
    unfolding eight_def by code_simp+
  have "wq_ok 384"
    by code_simp
  have s0: "example_barrier eight (new_barrier_system 8)"
    using ap(4) by (simp add: example_barrier_def)
  then obtain s where "(example_barrier_step eight)\<^sup>*\<^sup>* (new_barrier_system 8) s" "barrier_joined eight s"
    using examples_pass [of 0 9 128 384 eight] ap(1) by blast
  then have s: "example_barrier eight s" "barrier_joined eight s"
    using example_barrier_steps [OF s0] by blast+
  have "calls_ok eight eight_enter new_gate \<and> list_all thread_call eight_enter \<and> distinct (entering eight_enter)"
    "\<forall>i < length eight_enter. eight_enter ! i = Permit \<longrightarrow>
       sum_list (map permitted (fst (spec_calls (take i eight_enter) new_gate))) \<noteq> 8"
    unfolding eight_def eight_enter_def by code_simp+
  then have g: "gate_schedule 0 eight eight_enter"
    using gate_scheduleI [OF ap(1,4)] by blast
  have "sum_list (map permitted (fst (spec_calls eight_enter new_gate))) = 8"
    "length (concat (map entered_with (fst (spec_calls eight_enter new_gate)))) = 8"
    unfolding eight_enter_def by code_simp+
  then have j: "gate_joined 0 eight_enter"
    unfolding gate_joined_def counted_def returned_def gate_answers_spec [OF schedule_facts(9) [OF g ap(1)] ap(1)] by blast
  show ?thesis
    using examples_pass [of 0 9 128 384 eight s eight_enter] examples_pass [of 0 9 2176 384 eight s eight_enter] s g j ap
      \<open>wq_ok 384\<close> by blast
qed

end
