(* ===== verification/Spec2Isabelle.thy ===== *)
theory Spec2Isabelle
  imports Entry_Protocol Lock_Api Lock_Blocking Lock_System Semaphore_Blocking Semaphore_System Barrier_Waiting Barrier_Runs Gate_System
    Notifications Debug_Output Examples
begin

text \<open>
  A verification of the crate \<open>saa\<close>: word-sized synchronization primitives (lock, semaphore, barrier, gate)
  that block threads and suspend asynchronous tasks alike, without heap allocation.

  \<^bold>\<open>The program.\<close>  Every primitive is one \<open>AtomicUsize\<close>, its state word: six bits of data (the owners, the
  permits in use, the missing tasks or the gate state), the bit \<open>LOCKED_FLAG\<close> and the 128-byte aligned anchor
  address of the task that queued up last.  A task that cannot proceed makes a \<open>WaitQueue\<close> on its own stack or
  in its future, pushes its \<open>Entry\<close> by exchanging the state word, and polls the entry.  A task that releases
  something takes \<open>LOCKED_FLAG\<close> and walks the list (\<open>SyncPrimitive::process_wait_queue\<close>), giving the resource to
  the tasks in line by setting the results of their entries.  A future or pager that is dropped before its
  result was taken removes its entry from the list or gives the resource back.

  \<^bold>\<open>The theories.\<close>
    \<^item> \<open>Saa_Prelude\<close>: 64-, 16- and 8-bit integers, \<open>Result\<close>, the masks of \<open>wait_queue.rs\<close>, and the views \<open>data_of\<close>,
      \<open>locked\<close> and \<open>addr_of\<close> of a state word, with what the bit operations of the code do to each view.
    \<^item> \<open>Opcode\<close> (\<open>opcode.rs\<close>): the operation types and the abstract grant rule.
    \<^item> \<open>Shared_State\<close>: the memory and its atomic accesses.  The locale \<open>cas_loop\<close> shows once that a loop of
      compare-and-exchange is atomic; it is interpreted on the acquiring loops of lock and semaphore.
    \<^item> \<open>Wait_Queue\<close> (\<open>wait_queue.rs\<close>): address layout, construction, list walks, results, drop.
    \<^item> \<open>Sync_Primitive\<close> (\<open>sync_primitive.rs\<close>): the provided methods of the trait.
    \<^item> \<open>Queue_Rep\<close>, \<open>Queue_Processing\<close>, \<open>Process_Queue\<close>: the intrusive list as a list, one round of
      \<open>process_wait_queue\<close>, and the whole loop under interference.
    \<^item> \<open>Resource_Spec\<close>: the abstract specification, a \<open>resource\<close> with a number in use and a line of waiting tasks, and
      the refinement of it by \<open>release_loop\<close>.  The locale \<open>sync_primitive\<close> is the contract of a primitive with a
      bound of at most 63; lock, semaphore and barrier interpret it.
    \<^item> \<open>Memory_Shape\<close>: the operations of the trait neither allocate nor free memory and keep the fixed fields of
      every entry, in every state of the memory.
    \<^item> \<open>Cancelled_Waits\<close>: dropping the entry of a waiting or a granted task refines leaving the line or releasing.
    \<^item> \<open>Entry_Protocol\<close>: the accesses of \<open>set_result\<close> and \<open>poll_result_sync\<close>/\<open>poll_result_async\<close> to one entry as a
      transition system, its safety and its progress; it justifies that the other theories use \<open>set_result\<close> as
      one operation.
    \<^item> \<open>Pager\<close> (\<open>pager.rs\<close>): registering and polling.  The locale \<open>sync_result\<close> is the trait \<open>SyncResult\<close>; all four
      primitives interpret it.  \<open>expects\<close> and \<open>handover\<close> describe what the other threads do for a task that waits.
    \<^item> \<open>Lock_Primitive\<close>, \<open>Semaphore_Primitive\<close>, \<open>Barrier_Primitive\<close>, \<open>Gate_Primitive\<close>, \<open>Lock_Api\<close> (the files of the
      same names): every operation, and what each of them does.
    \<^item> \<open>Accounting\<close>, \<open>Lock_System\<close>, \<open>Semaphore_System\<close>: all tasks that use one primitive.  The books say who waits,
      who was granted the resource and who owns it; the invariant relates them to the state word and the list.
    \<^item> \<open>Blocking_Wait\<close>, \<open>Blocking_Acquire\<close>: blocking and asynchronous calls from the first look at the state word to the
      end of the wait queue.  \<open>spec_acquire\<close> is the abstract line of waiting tasks seen by one of them, and the
      locale \<open>blocking_call\<close>, which extends \<open>sync_primitive\<close>, shows once that a call returns and refines it while others
      release at arbitrary moments.  \<open>Lock_Blocking\<close> and \<open>Semaphore_Blocking\<close> interpret it on the four calls of the lock
      and the two of the semaphore.
    \<^item> \<open>Task_Memory\<close>: the wait queues of different tasks do not touch each other.
    \<^item> \<open>Barrier_System\<close>, \<open>Barrier_Runs\<close>: all tasks that use one barrier, as a transition system with the rounds that each of
      them has been through; \<open>barrier_inv\<close> relates them to the state word and the list.
    \<^item> \<open>Gate_System\<close>: all tasks and the owner of a gate.  \<open>gate_call\<close> are the calls they make, \<open>run_call\<close> runs one on the
      model of the code, \<open>spec_call\<close> on the abstract gate, and \<open>gate_represents\<close> is the refinement relation.
    \<^item> \<open>Barrier_Waiting\<close>, \<open>Gate_Waiting\<close>: the same as \<open>Blocking_Acquire\<close> for the calls that wait at a barrier or a gate, against tasks that
      arrive, open or seal at arbitrary moments, and the cancellation of a task at the gate.
    \<^item> \<open>Notifications\<close>: which tasks are unparked or woken by the operations that serve a line or resolve all of it.
    \<^item> \<open>Debug_Output\<close>: the written \<open>Debug\<close> implementations.  \<open>Examples\<close>: the programs of
      \<open>examples/src/examples.rs\<close>; those with threads as partial runs, in every order of the steps of their threads,
      that are shown never to be stuck.

  \<^bold>\<open>State and operations.\<close>  A \<open>world\<close> is the state word of one primitive, the anchor words and the entries in memory
  by address, and the notifications sent so far.  Addresses are those of the code: the layout is computed, not
  assumed, and reading an address without an entry has no result.  An operation runs on a \<open>sys\<close>, a world with the
  list of actions of other threads; every atomic access to the state word or to the state of an entry lets
  the next action happen first.  So a statement about all action lists is one about all interleavings with
  other threads, at the granularity of whole actions.  Each function of the code is one definition with the
  name it has there; \<open>option\<close> is used where a loop waits for others or a pointer is dereferenced, and \<open>None\<close>
  means that the call does not return.  There is no fuel: the loops are \<open>partial_function (option)\<close>, and the
  theorems about them show that they return.  The bounds are those of the code: at most 63 in the data field, 62 shared owners, 63
  permits or tasks; the progress of the entry protocol is bounded by six steps of each side.

  \<^bold>\<open>What is shown.\<close>
    \<^item> Lock: mutual exclusion, no lost wake-up and truthful queries in every reachable state of a system of tasks (which keep
      the two rules that \<open>Lock_System\<close> states: whoever releases or poisons with success owns, and an untaken \<open>POISONED\<close> entry is not dropped
      while the lock is held in the mode it asked for);
      every operation is atomic while other threads act; \<open>lock_sync\<close>, \<open>lock_async\<close>, \<open>share_sync\<close> and \<open>share_async\<close> return
      with the lock and refine the abstract line, and the functions of \<open>lock_api\<close> with them; poisoning resolves the waiting tasks.
    \<^item> Semaphore: permits are conserved and never overcommitted, no lost wake-up, acquiring is fair, releasing
      restores; the blocking calls return with the permits and refine the abstract line.
    \<^item> Barrier: in every reachable state of a system of tasks none of which is cancelled, as many waits have returned or can
      return as there are tasks in the complete rounds, one of each round as the last; if the barrier is made for the tasks that use it,
      no task is a round ahead of another, and any number of rounds can be run;
      \<open>wait_sync\<close> and \<open>wait_async\<close> return in every round, whatever the interleaving of the arrivals.
    \<^item> Gate: any sequence of calls refines an abstract gate; opening, sealing, permitting and rejecting wake exactly the waiting tasks with the right outcome;
      \<open>enter_sync\<close> and \<open>enter_async\<close> do not miss that the gate is opened or sealed; the encodings invert each other.
    \<^item> Shared machinery: the processing of the queue ends and serves in order, removal keeps the list, the entry
      handshake is race-free and delivers, results are taken once; exactly the tasks that are given a result are notified, each once.
    \<^item> This theory: the attempts to acquire and the releasing operations of lock and semaphore are atomic.
    \<^item> Defects found on the way, each a theorem about the definition concerned: \<open>Gate::reset\<close> keeps the state of the
      gate; the waiting modes of \<open>Lock::register_pager\<close> compare with the wrong constant and take two shared owners for poison; dropping an untaken
      \<open>POISONED\<close> result spins while the lock is poisoned and releases a foreign lock afterwards; cancelling one
      task at a barrier releases the others; the \<open>lock_api\<close> functions make guards of a poisoned lock; the spinning
      attempts never read the state word again; \<open>Debug\<close> reports a poisoned lock as one whose queue is being processed.

  \<^bold>\<open>Not modelled.\<close>  Memory orderings: accesses are sequentially consistent.  The \<open>loom\<close> configuration, with its
  larger constants.  Spurious failures of weak exchanges, outside of \<open>Entry_Protocol\<close>.  The executor of asynchronous
  tasks, \<open>park\<close> and \<open>yield_now\<close>, except for the notifications sent to them.  Derived \<open>Debug\<close> implementations and the
  module declarations of \<open>lib.rs\<close>.  The guards of the crate \<open>lock_api\<close>, which are an argument of the functions that
  make them.  Tests and benchmarks.

  \<^bold>\<open>Simplifications.\<close>  A parked thread polls again at once in the blocking calls, since \<open>park\<close> may return spuriously: a
  missing notification does not show there but in \<open>Entry_Protocol\<close> and \<open>Notifications\<close>.  \<open>set_result\<close> is one step on its entry outside of
  \<open>Entry_Protocol\<close>, which has its small steps, and the two stores of \<open>try_consume_result\<close> are one update.  In the theorems on
  blocking calls the other threads release, arrive, open or seal; they do not acquire or cancel meanwhile.  In the systems of tasks each step is a whole
  operation, or one poll of an entry; the theorems on single operations under interference are those of \<open>Resource_Spec\<close> and of the
  primitives.  The system of the lock leaves out what \<open>Lock_System\<close> names: releases and poisonings that succeed for a task that owns nothing,
  and dropping an untaken \<open>POISONED\<close> entry while the lock is held in its mode.  In the system of the barrier no task is cancelled, and an arrival is one
  step, so that the branch of \<open>count_down\<close> for a counter of 0, which a barrier for at least one task shows only between the two exchanges of a last arrival, is translated but not
  run; \<open>Barrier_Waiting\<close> has the arrivals of other tasks between the accesses of a call.
\<close>

section \<open>Properties of all primitives\<close>

text \<open>C21: the attempts to acquire take effect at one moment, whatever other threads do.  \<open>try_lock\<close> succeeds exactly
  when the state word is 0 then (no owner, no waiting task, no poison) and makes it exclusive; \<open>try_share\<close> exactly
  when there are fewer than 62 shared owners and no exclusive owner, waiting task or poison, and adds one;
  \<open>try_acquire_many\<close> with at most 63 permits exactly when nobody waits and enough permits are available, and takes
  them.  A larger count fails without touching the semaphore, and \<open>try_acquire\<close> is the case of one permit.\<close>

theorem try_operations_atomic:
  "atomically lock_spec s (try_lock s) \<and>
   atomically share_spec s (try_share s) \<and>
   (if unat n \<le> 63 then atomically (acquire_spec (unat n)) s (try_acquire_many n s)
    else try_acquire_many n s = (False, s)) \<and>
   try_acquire s = try_acquire_many 1 s"
  using try_lock_atomic [of s] try_share_atomic [of s] try_acquire_many_atomic [of n s] try_acquire_is_many [of s]
  by (simp add: try_acquire_many_def MAX_PERMITS_eq word_less_nat_alt)

text \<open>C22: the releasing operations, while other threads act, return and take effect at one moment: they fail and
  change nothing if the caller's ownership or permits are not in the state word then, and otherwise give them back
  and, unless nobody waits or another thread is serving the queue, serve the waiting tasks in line order.\<close>

theorem release_operations_atomic:
  assumes "well_formed w qs" "env_ok K es" "unat n \<le> 63"
  shows "released K MAX_SHARED_OWNERS Exclusive (w, es) (release_lock (w, es)) \<and>
    released K MAX_SHARED_OWNERS Shared (w, es) (release_share (w, es)) \<and>
    released K MAX_PERMITS (Semaphore (ucast n)) (w, es) (release_many n (w, es)) \<and>
    release (w, es) = release_many 1 (w, es)"
  using release_lock_atomic [OF assms(1,2)] release_share_atomic [OF assms(1,2)] release_many_atomic [OF assms]
    release_is_release_many by blast

theorem release_operations_atomic_witness:
  "released UNIV MAX_SHARED_OWNERS Exclusive (one_waiter 63 Shared (Sync None), [push_action 512])
     (release_lock (one_waiter 63 Shared (Sync None), [push_action 512])) \<and>
   released UNIV MAX_SHARED_OWNERS Shared (one_waiter 2 Exclusive (Sync None), [release_action Shared])
     (release_share (one_waiter 2 Exclusive (Sync None), [release_action Shared])) \<and>
   released UNIV MAX_PERMITS (Semaphore (ucast (5 :: usize)))
     (one_waiter 63 (Semaphore 7) (Async None), [release_action (Semaphore 4), push_action 512])
     (release_many 5 (one_waiter 63 (Semaphore 7) (Async None), [release_action (Semaphore 4), push_action 512]))"
proof -
  have "well_formed (one_waiter 63 Shared (Sync None)) [128]" "well_formed (one_waiter 2 Exclusive (Sync None)) [128]"
    "well_formed (one_waiter 63 (Semaphore 7) (Async None)) [128]"
    by code_simp+
  moreover have "env_ok UNIV [push_action 512]" "env_ok UNIV [release_action Shared]"
    "env_ok UNIV [release_action (Semaphore 4), push_action 512]"
    by (rule env_ok_actions(1); auto)+
  moreover have "unat (5 :: usize) \<le> 63"
    by simp
  ultimately show ?thesis
    using release_operations_atomic by blast
qed

end
